(* ===== verification/Demux_Prelude.thy ===== *)
theory Demux_Prelude
  imports Main "HOL-Library.AList" "HOL-Library.Multiset" "HOL-Library.Product_Lexorder"
    "HOL-Library.Signed_Division"
begin

text \<open>
  Shared base of the development: the types every component uses (times and durations in
  nanoseconds, the trait bit set of the nexus interface package), the collections of
  simplification facts, and the generic lemmas on lists, association lists and step
  systems that the component theories build on.
\<close>

unbundle bit_operations_syntax

section \<open>Collections of facts\<close>

named_theorems wi_simps \<open>projections of updated work items\<close>
named_theorems tracker_simps \<open>projections of updated offset trackers\<close>
named_theorems committer_simps \<open>projections of updated committers\<close>

section \<open>Times, durations, traits\<close>

text \<open>
  A Go \<open>time.Time\<close> is its number of nanoseconds since the Unix epoch and a
  \<open>time.Duration\<close> a number of nanoseconds. The Go zero time is 1 January of year 1.
  Partition numbers and offsets are Go's \<open>int32\<close> and \<open>int64\<close>; the engine only
  compares them, except for \<open>Offset + 1\<close> and \<open>Offset - 1\<close>, and broker offsets are
  non-negative and below the largest \<open>int64\<close>, so they are integers here.
\<close>

type_synonym time = int
type_synonym duration = int
type_synonym ctx = nat
type_synonym partition = int

definition second :: duration where
  "second = 1000000000"

definition millisecond :: duration where
  "millisecond = 1000000"

definition zeroTime :: time where
  "zeroTime = -62135596800 * second"

definition unix :: "time \<Rightarrow> int" where
  "unix t = t div second"

text \<open>
  The trait flags of a message are a bit set defined by the nexus package. The engine
  reads it with \<open>&\<close> and \<open>|\<close> only, which no word width can truncate, so a bit set is a
  natural number. The setters and masks are that package's: a record of parameters.
\<close>

type_synonym traits = nat

record nexus =
  SetOrphaned :: "traits \<Rightarrow> traits"
  SetCommitBuffered :: "traits \<Rightarrow> traits"
  SetFirstAfterRebalance :: "traits \<Rightarrow> traits"
  SetUsedOverflow :: "traits \<Rightarrow> traits"
  SetProcessPanic :: "traits \<Rightarrow> traits"
  SetProcessError :: "traits \<Rightarrow> traits"
  SetDeadLetter :: "traits \<Rightarrow> traits"
  DeadLetter :: traits
  UsedOverflow :: traits
  FrameworkReserved :: traits
  AddCustomTraits :: "traits \<Rightarrow> traits \<Rightarrow> traits"

text \<open>The rebalance events of the nexus package, as the engine's switches tell them apart.\<close>

datatype RebalanceType = Assign | Revoke | OtherRebalance int

section \<open>Association lists: a Go map with the order one iteration visits it in\<close>

lemma map_of_update_eq [simp]: "map_of (AList.update k v al) k = Some v"
  by (simp add: update_conv')

lemma map_of_update_neq [simp]: "k' \<noteq> k \<Longrightarrow> map_of (AList.update k v al) k' = map_of al k'"
  by (simp add: update_conv')

lemma map_of_map_snd: "map_of (map (\<lambda>(k, v). (k, f k v)) al) k = map_option (f k) (map_of al k)"
  by (induction al) auto

lemma map_fst_map_snd [simp]: "map fst (map (\<lambda>(k, v). (k, f k v)) al) = map fst al"
  by (induction al) auto

lemma set_update_cases:
  "x \<in> set (AList.update k v al) \<Longrightarrow> x = (k, v) \<or> x \<in> set al"
  by (induction al) (auto split: if_splits)

lemma dom_update_fst: "set (map fst (AList.update k v al)) = insert k (set (map fst al))"
  using dom_update [of k v al] by simp

section \<open>Sorted lists\<close>

lemma sorted_wrt_map_key: "sorted_wrt P (map f xs) \<longleftrightarrow> sorted_wrt (\<lambda>a b. P (f a) (f b)) xs"
  by (rule sorted_wrt_map)

lemma image_mset_split_filter:
  "image_mset f (mset xs) =
   image_mset f (mset (filter P xs)) + image_mset f (mset (filter (\<lambda>x. \<not> P x) xs))"
  by (induction xs) auto

section \<open>Step systems\<close>

text \<open>
  A component that is driven by a sequence of events and keeps an invariant. The components
  below are instances; the lemma on runs is proved once.
\<close>

locale step_system =
  fixes step :: "'e \<Rightarrow> 's \<Rightarrow> 's"
    and ok :: "'e \<Rightarrow> 's \<Rightarrow> bool"
    and inv :: "'s \<Rightarrow> bool"
  assumes step_inv: "inv s \<Longrightarrow> ok e s \<Longrightarrow> inv (step e s)"
begin

fun run_ok :: "'e list \<Rightarrow> 's \<Rightarrow> bool" where
  "run_ok [] s = True"
| "run_ok (e # es) s = (ok e s \<and> run_ok es (step e s))"

lemma run_inv: "inv s \<Longrightarrow> run_ok es s \<Longrightarrow> inv (fold step es s)"
  by (induction es arbitrary: s) (auto intro: step_inv)

end

end
