(* ===== verification/Work_Items.thy ===== *)
theory Work_Items
  imports Demux_Prelude
begin

text \<open>
  The work item that travels through the pipeline (ports/workitem.go), with its message and
  metrics, and the pool that recycles it (demux/alloc/work_items_pool.go). Go code compares
  work items by address; \<open>wi_ptr\<close> is that address.
\<close>

section \<open>Messages, metrics, work items\<close>

record 'a message =
  msg_Key :: string
  msg_Partition :: partition
  msg_Offset :: int
  msg_Traits :: traits
  msg_Payload :: "'a option"

record metrics =
  met_Traits :: traits
  met_QueueDepth :: int
  met_Partition :: partition
  met_Offset :: int
  met_ProcessDuration :: duration
  met_WriteDeadLetterDuration :: duration
  met_ProcessStartTime :: time
  met_ReadTime :: time
  met_WatermarkAdvanceTime :: time
  met_WorkerPool :: nat

record 'a work_item =
  wi_ptr :: nat
  wi_Message :: "'a message"
  wi_Metrics :: metrics
  wi_Ctx :: "ctx option"
  wi_PreviousOffset :: int
  wi_First :: bool
  wi_WorkerPool :: nat

definition PartitionOffset :: "'a work_item \<Rightarrow> partition \<times> int" where
  "PartitionOffset w = (msg_Partition (wi_Message w), msg_Offset (wi_Message w))"

definition PartitionOffsetPrevious :: "'a work_item \<Rightarrow> partition \<times> int \<times> int" where
  "PartitionOffsetPrevious w =
     (msg_Partition (wi_Message w), msg_Offset (wi_Message w), wi_PreviousOffset w)"

abbreviation wi_partition :: "'a work_item \<Rightarrow> partition" where
  "wi_partition w \<equiv> msg_Partition (wi_Message w)"

abbreviation wi_offset :: "'a work_item \<Rightarrow> int" where
  "wi_offset w \<equiv> msg_Offset (wi_Message w)"

abbreviation wi_readTime :: "'a work_item \<Rightarrow> time" where
  "wi_readTime w \<equiv> met_ReadTime (wi_Metrics w)"

abbreviation wi_traits :: "'a work_item \<Rightarrow> traits" where
  "wi_traits w \<equiv> met_Traits (wi_Metrics w)"

text \<open>
  The two ways the engine writes the metrics of an item it holds: through one of the nexus
  setters on the trait set, and the stamp of the time at which the watermark passed it.
\<close>

definition onTraits :: "(traits \<Rightarrow> traits) \<Rightarrow> 'a work_item \<Rightarrow> 'a work_item" where
  "onTraits f w = w\<lparr>wi_Metrics := (wi_Metrics w)\<lparr>met_Traits := f (met_Traits (wi_Metrics w))\<rparr>\<rparr>"

definition stampAdvance :: "time \<Rightarrow> 'a work_item \<Rightarrow> 'a work_item" where
  "stampAdvance now w = w\<lparr>wi_Metrics := (wi_Metrics w)\<lparr>met_WatermarkAdvanceTime := now\<rparr>\<rparr>"

lemma onTraits_simps [simp, wi_simps]:
  "wi_ptr (onTraits f w) = wi_ptr w"
  "wi_Message (onTraits f w) = wi_Message w"
  "wi_Ctx (onTraits f w) = wi_Ctx w"
  "wi_PreviousOffset (onTraits f w) = wi_PreviousOffset w"
  "wi_First (onTraits f w) = wi_First w"
  "wi_WorkerPool (onTraits f w) = wi_WorkerPool w"
  "wi_traits (onTraits f w) = f (wi_traits w)"
  "wi_readTime (onTraits f w) = wi_readTime w"
  by (simp_all add: onTraits_def)

lemma stampAdvance_simps [simp, wi_simps]:
  "wi_ptr (stampAdvance t w) = wi_ptr w"
  "wi_Message (stampAdvance t w) = wi_Message w"
  "wi_Ctx (stampAdvance t w) = wi_Ctx w"
  "wi_PreviousOffset (stampAdvance t w) = wi_PreviousOffset w"
  "wi_First (stampAdvance t w) = wi_First w"
  "wi_WorkerPool (stampAdvance t w) = wi_WorkerPool w"
  "wi_traits (stampAdvance t w) = wi_traits w"
  "wi_readTime (stampAdvance t w) = wi_readTime w"
  by (simp_all add: stampAdvance_def)

end
