(* ===== verification/Offset_Tracker.thy ===== *)
theory Offset_Tracker
  imports Work_Items
begin

text \<open>
  The per-partition part of the offset committer: the tracker record
  (demux/offset/offsets_tracker.go) and the operations that read and write one tracker
  (committer_process.go, committer_repair.go, and the per-partition bodies of committer.go
  and send_commits.go). An operation returns the new tracker and the work items it hands
  to \<open>returnMessageAndCollectMetrics\<close>, in order; Committer applies that function to them.
  Log lines are not modelled. The Go clock reads are the argument \<open>now\<close>.
\<close>

section \<open>State\<close>

record 'a tracker =
  Ready :: "'a work_item option"
  Assignment :: RebalanceType
  MinOffsetSeen :: int
  MaxOffsetSeen :: int
  GapBuffer :: "'a work_item list"
  NeedsGapAdvance :: bool
  CommittedPlusOne :: int
  LastCommittedOffset :: int

definition HasPendingCommits :: "'a tracker \<Rightarrow> bool" where
  "HasPendingCommits t \<longleftrightarrow> Ready t \<noteq> None \<or> length (GapBuffer t) > 0"

text \<open>The tracker \<open>processCommit\<close> makes for a partition it has not seen.\<close>

definition newTracker :: "int \<Rightarrow> 'a tracker" where
  "newTracker offset = \<lparr>Ready = None, Assignment = Assign, MinOffsetSeen = offset,
     MaxOffsetSeen = offset, GapBuffer = [], NeedsGapAdvance = False,
     CommittedPlusOne = -1, LastCommittedOffset = -1\<rparr>"

text \<open>The tracker \<open>ResetCommittedOffsets\<close> makes for a partition it has not seen.\<close>

definition baselineTracker :: "int \<Rightarrow> 'a tracker" where
  "baselineTracker committedOffset = \<lparr>Ready = None, Assignment = Assign, MinOffsetSeen = 0,
     MaxOffsetSeen = 0, GapBuffer = [], NeedsGapAdvance = False,
     CommittedPlusOne = committedOffset, LastCommittedOffset = -1\<rparr>"

section \<open>Arrival of a completed work item\<close>

text \<open>An item that is given up: marked orphaned, with or without the detection time.\<close>

definition orphan :: "nexus \<Rightarrow> 'a work_item \<Rightarrow> 'a work_item" where
  "orphan nx w = onTraits (SetOrphaned nx) w"

definition orphanAt :: "nexus \<Rightarrow> time \<Rightarrow> 'a work_item \<Rightarrow> 'a work_item" where
  "orphanAt nx now w = stampAdvance now (orphan nx w)"

definition addToGapBuffer :: "nexus \<Rightarrow> 'a work_item \<Rightarrow> 'a tracker \<Rightarrow> 'a tracker" where
  "addToGapBuffer nx w t = t\<lparr>GapBuffer := GapBuffer t @ [onTraits (SetCommitBuffered nx) w]\<rparr>"

definition advanceThroughGapBuffer :: "int \<Rightarrow> 'a tracker \<Rightarrow> 'a tracker" where
  "advanceThroughGapBuffer readyOffset t =
     (if \<exists>g \<in> set (GapBuffer t). readyOffset = wi_PreviousOffset g
      then t\<lparr>NeedsGapAdvance := True\<rparr> else t)"

definition checkAndAdvance ::
  "nexus \<Rightarrow> time \<Rightarrow> 'a work_item \<Rightarrow> 'a tracker \<Rightarrow> 'a tracker \<times> 'a work_item list" where
  "checkAndAdvance nx now w t =
     (case Ready t of
        None \<Rightarrow>
          if CommittedPlusOne t = wi_offset w then
            (advanceThroughGapBuffer (wi_offset w) (t\<lparr>Ready := Some (stampAdvance now w)\<rparr>), [])
          else if CommittedPlusOne t > wi_offset w then
            (t, [orphanAt nx now w])
          else
            (let t' = addToGapBuffer nx w t in
             (if wi_offset w = CommittedPlusOne t \<or>
                 (LastCommittedOffset t \<ge> 0 \<and> wi_PreviousOffset w = LastCommittedOffset t)
              then t'\<lparr>NeedsGapAdvance := True\<rparr> else t', []))
      | Some r \<Rightarrow>
          if wi_offset r > wi_offset w then
            (t, [orphanAt nx now w])
          else if wi_offset r = wi_PreviousOffset w \<or> wi_offset r = wi_offset w then
            (advanceThroughGapBuffer (wi_offset w) (t\<lparr>Ready := Some (stampAdvance now w)\<rparr>), [r])
          else
            (addToGapBuffer nx w t, []))"

text \<open>
  \<open>processCommit\<close> on the tracker it found, \<open>None\<close> for a partition not yet in the map.
\<close>

definition observeOffset :: "int \<Rightarrow> 'a tracker option \<Rightarrow> 'a tracker" where
  "observeOffset offset ot =
     (case ot of
        None \<Rightarrow> newTracker offset
      | Some t \<Rightarrow>
          if offset < MinOffsetSeen t then t\<lparr>MinOffsetSeen := offset\<rparr>
          else if offset > MaxOffsetSeen t then t\<lparr>MaxOffsetSeen := offset\<rparr>
          else t)"

definition processTracker ::
  "nexus \<Rightarrow> time \<Rightarrow> 'a work_item \<Rightarrow> 'a tracker option \<Rightarrow> 'a tracker \<times> 'a work_item list" where
  "processTracker nx now w ot =
     (let t = observeOffset (wi_offset w) ot in
      if wi_First w then
        (let w' = onTraits (SetFirstAfterRebalance nx) w;
             t' = (if wi_offset w \<ge> CommittedPlusOne t
                   then t\<lparr>CommittedPlusOne := wi_offset w\<rparr> else t)
         in checkAndAdvance nx now w' t')
      else checkAndAdvance nx now w t)"

section \<open>Flushing the gap buffer\<close>

text \<open>
  \<open>slices.SortFunc\<close> by offset, the later-read twin of an offset first; then
  \<open>slices.CompactFunc\<close>, which keeps the first of each run of equal offsets, when the
  comparison function met equal offsets.
\<close>

definition gapOrder :: "'a work_item \<Rightarrow> int \<times> int" where
  "gapOrder w = (wi_offset w, - wi_readTime w)"

fun compactOffsets :: "'a work_item list \<Rightarrow> 'a work_item list" where
  "compactOffsets (a # b # xs) =
     (if wi_offset a = wi_offset b then compactOffsets (a # xs) else a # compactOffsets (b # xs))"
| "compactOffsets xs = xs"

definition sortGapBuffer :: "'a work_item list \<Rightarrow> 'a work_item list" where
  "sortGapBuffer buf =
     (let sorted_buf = sort_key gapOrder buf in
      if distinct (map wi_offset buf) then sorted_buf else compactOffsets sorted_buf)"

text \<open>
  The walk over the sorted buffer. \<open>c\<close> and \<open>l\<close> are the tracker's \<open>CommittedPlusOne\<close> and
  \<open>LastCommittedOffset\<close>, which the walk does not write. The result is the final \<open>Ready\<close>,
  the collected items, and the number of items walked over (\<open>advancedOffsetIndex + 1\<close>).
\<close>

fun flushWalk ::
  "nexus \<Rightarrow> time \<Rightarrow> int \<Rightarrow> int \<Rightarrow> 'a work_item list \<Rightarrow> 'a work_item option \<Rightarrow>
   'a work_item option \<times> 'a work_item list \<times> nat" where
  "flushWalk nx now c l [] rdy = (rdy, [], 0)"
| "flushWalk nx now c l (g # gs) None =
     (if wi_offset g < c then
        (let (r, col, n) = flushWalk nx now c l gs None in (r, orphanAt nx now g # col, Suc n))
      else if wi_offset g = c \<or> (l \<ge> 0 \<and> wi_PreviousOffset g = l) then
        (let (r, col, n) = flushWalk nx now c l gs (Some (stampAdvance now g)) in (r, col, Suc n))
      else (None, [], 0))"
| "flushWalk nx now c l (g # gs) (Some rd) =
     (if wi_offset g \<le> wi_offset rd then
        (let (r, col, n) = flushWalk nx now c l gs (Some rd) in (r, orphanAt nx now g # col, Suc n))
      else if wi_offset rd = wi_PreviousOffset g then
        (let (r, col, n) = flushWalk nx now c l gs (Some (stampAdvance now g)) in (r, rd # col, Suc n))
      else (Some rd, [], 0))"

definition flushTracker :: "nexus \<Rightarrow> time \<Rightarrow> 'a tracker \<Rightarrow> 'a tracker \<times> 'a work_item list" where
  "flushTracker nx now t =
     (if \<not> NeedsGapAdvance t then (t, [])
      else
        (let t1 = t\<lparr>NeedsGapAdvance := False\<rparr> in
         if length (GapBuffer t1) = 0 then (t1, [])
         else
           (let buf = sortGapBuffer (GapBuffer t1);
                (r, col, n) = flushWalk nx now (CommittedPlusOne t1) (LastCommittedOffset t1) buf (Ready t1);
                t2 = t1\<lparr>Ready := r, GapBuffer := buf\<rparr>
            in if n = 0 then (t2, col)
               else if length buf = n then (t2\<lparr>GapBuffer := []\<rparr>, col)
               else (t2\<lparr>GapBuffer := drop n buf\<rparr>, col))))"

section \<open>Successor repair\<close>

fun repairScan :: "int \<Rightarrow> int \<Rightarrow> 'a work_item list \<Rightarrow> 'a work_item option \<Rightarrow> 'a work_item option" where
  "repairScan c committed [] s = s"
| "repairScan c committed (g # gs) s =
     (if wi_offset g < c then repairScan c committed gs s
      else if (case s of None \<Rightarrow> False | Some x \<Rightarrow> wi_offset g \<ge> wi_offset x)
        then repairScan c committed gs s
      else if wi_offset g = c then repairScan c committed gs (Some g)
      else if wi_PreviousOffset g \<ge> 0 \<and> wi_PreviousOffset g \<le> committed
        then repairScan c committed gs (Some g)
      else repairScan c committed gs s)"

definition repairSuccessor :: "nexus \<Rightarrow> time \<Rightarrow> 'a tracker \<Rightarrow> 'a tracker \<times> 'a work_item list" where
  "repairSuccessor nx now t =
     (if Ready t \<noteq> None then (t, [])
      else if length (GapBuffer t) = 0 then (t, [])
      else if NeedsGapAdvance t then (t, [])
      else if LastCommittedOffset t < 0 then (t, [])
      else
        (case repairScan (CommittedPlusOne t) (LastCommittedOffset t) (GapBuffer t) None of
           None \<Rightarrow> (t, [])
         | Some s \<Rightarrow>
             (let others = filter (\<lambda>g. wi_ptr g \<noteq> wi_ptr s) (GapBuffer t);
                  pruned = filter (\<lambda>g. wi_offset g < wi_offset s) others;
                  kept = filter (\<lambda>g. \<not> wi_offset g < wi_offset s) others
              in (t\<lparr>GapBuffer := kept, Ready := Some (stampAdvance now s),
                    NeedsGapAdvance := length kept > 0\<rparr>,
                  map (orphanAt nx now) pruned))))"

section \<open>The per-partition bodies of reset, revoke, commit and discard\<close>

definition resetTracker :: "nexus \<Rightarrow> int \<Rightarrow> 'a tracker option \<Rightarrow> 'a tracker \<times> 'a work_item list" where
  "resetTracker nx committedOffset ot =
     (case ot of
        None \<Rightarrow> (baselineTracker committedOffset, [])
      | Some t \<Rightarrow>
          (let (t1, col1) =
                 (case Ready t of
                    Some r \<Rightarrow> if wi_offset r < committedOffset
                              then (t\<lparr>Ready := None\<rparr>, [orphan nx r]) else (t, [])
                  | None \<Rightarrow> (t, []));
               (t2, col2) =
                 (if Assignment t1 = Revoke then
                    (t1\<lparr>Ready := None, GapBuffer := []\<rparr>,
                     (case Ready t1 of Some r \<Rightarrow> [orphan nx r] | None \<Rightarrow> []) @
                       map (orphan nx) (GapBuffer t1))
                  else (t1, []))
           in (t2\<lparr>CommittedPlusOne := committedOffset, LastCommittedOffset := -1,
                  Assignment := Assign, NeedsGapAdvance := length (GapBuffer t2) > 0\<rparr>,
               col1 @ col2)))"

definition discardOrphanedTracker :: "nexus \<Rightarrow> 'a tracker \<Rightarrow> 'a tracker \<times> 'a work_item list" where
  "discardOrphanedTracker nx t =
     (if Ready t = None \<and> length (GapBuffer t) = 0 then (t, [])
      else
        (t\<lparr>Ready := None, GapBuffer := [], NeedsGapAdvance := False\<rparr>,
         (case Ready t of Some r \<Rightarrow> [orphan nx r] | None \<Rightarrow> []) @ map (orphan nx) (GapBuffer t)))"

text \<open>
  The body of the loop of \<open>CommitOffsets\<close> that gathers the batch, for one partition:
  the message to commit, if any.
\<close>

definition gatherTracker ::
  "nexus \<Rightarrow> time \<Rightarrow> bool \<Rightarrow> 'a tracker \<Rightarrow> 'a tracker \<times> 'a message option \<times> 'a work_item list" where
  "gatherTracker nx now is_assigned t =
     (if \<not> is_assigned then
        (let (t', col) = discardOrphanedTracker nx t in (t', None, col))
      else
        (let (t1, col1) = (case Ready t of None \<Rightarrow> repairSuccessor nx now t | Some _ \<Rightarrow> (t, [])) in
         case Ready t1 of
           None \<Rightarrow> (t1, None, col1)
         | Some w \<Rightarrow>
             if wi_offset w < CommittedPlusOne t1 then
               (let t2 = t1\<lparr>Ready := None\<rparr> in
                (if length (GapBuffer t2) > 0 then t2\<lparr>NeedsGapAdvance := True\<rparr> else t2,
                 None, col1 @ [orphan nx w]))
             else (t1, Some (wi_Message w), col1)))"

text \<open>
  The body of the loop after a successful broker commit, for one committed message. The Go
  code dereferences \<open>Ready\<close>: with no \<open>Ready\<close> it would panic, here \<open>None\<close>.
\<close>

definition ackTracker :: "'a message \<Rightarrow> 'a tracker \<Rightarrow> ('a tracker \<times> 'a work_item list) option" where
  "ackTracker m t =
     (let t1 = (if msg_Offset m + 1 > CommittedPlusOne t
                then t\<lparr>CommittedPlusOne := msg_Offset m + 1\<rparr> else t);
          t2 = (if msg_Offset m > LastCommittedOffset t1
                then t1\<lparr>LastCommittedOffset := msg_Offset m\<rparr> else t1)
      in case Ready t2 of
           None \<Rightarrow> None
         | Some r \<Rightarrow>
             (let t3 = t2\<lparr>Ready := None\<rparr> in
              Some (if length (GapBuffer t3) > 0 then t3\<lparr>NeedsGapAdvance := True\<rparr> else t3, [r])))"

section \<open>The items a tracker holds\<close>

text \<open>
  What identifies a work item through the tracker's writes to its metrics, and the items a
  tracker holds: its \<open>Ready\<close> and its gap buffer.
\<close>

definition core :: "'a work_item \<Rightarrow> nat \<times> 'a message \<times> int \<times> bool" where
  "core w = (wi_ptr w, wi_Message w, wi_PreviousOffset w, wi_First w)"

abbreviation cores :: "'a work_item list \<Rightarrow> (nat \<times> 'a message \<times> int \<times> bool) multiset" where
  "cores ws \<equiv> image_mset core (mset ws)"

definition readyList :: "'a work_item option \<Rightarrow> 'a work_item list" where
  "readyList rdy = (case rdy of Some r \<Rightarrow> [r] | None \<Rightarrow> [])"

definition held :: "'a tracker \<Rightarrow> 'a work_item list" where
  "held t = readyList (Ready t) @ GapBuffer t"

definition heldOpt :: "'a tracker option \<Rightarrow> 'a work_item list" where
  "heldOpt ot = (case ot of Some t \<Rightarrow> held t | None \<Rightarrow> [])"

lemma readyList_simps [simp]: "readyList None = []" "readyList (Some r) = [r]"
  by (simp_all add: readyList_def)

lemma heldOpt_simps [simp]: "heldOpt None = []" "heldOpt (Some t) = held t"
  by (simp_all add: heldOpt_def)

lemma core_simps [simp]:
  "core (onTraits f w) = core w"
  "core (stampAdvance now w) = core w"
  "core (orphan nx w) = core w"
  "core (orphanAt nx now w) = core w"
  by (simp_all add: core_def orphan_def orphanAt_def)

lemma cores_orphan [simp]:
  "image_mset core (image_mset (orphan nx) M) = image_mset core M"
  "image_mset core (image_mset (orphanAt nx now) M) = image_mset core M"
  by (simp_all add: image_mset.compositionality comp_def)

lemma core_eqD:
  assumes "core w = core w'"
  shows "wi_ptr w = wi_ptr w'" "wi_Message w = wi_Message w'"
    "wi_PreviousOffset w = wi_PreviousOffset w'" "wi_First w = wi_First w'"
  using assms by (simp_all add: core_def)

text \<open>A predicate on items that does not depend on their metrics.\<close>

lemma cores_subset_pred:
  assumes sub: "cores ws \<subseteq># cores vs" and inv: "\<And>w w'. core w = core w' \<Longrightarrow> P w \<Longrightarrow> P w'"
    and all: "\<forall>v \<in> set vs. P v"
  shows "\<forall>w \<in> set ws. P w"
proof
  fix w assume "w \<in> set ws"
  then have "core w \<in># cores ws" by simp
  with sub have "core w \<in># cores vs" by (rule mset_subset_eqD)
  then obtain v where "v \<in> set vs" "core v = core w" by auto
  with all inv show "P w" by blast
qed

section \<open>Projections of the updated tracker\<close>

lemma advance_simps [simp, tracker_simps]:
  "Ready (advanceThroughGapBuffer k t) = Ready t"
  "Assignment (advanceThroughGapBuffer k t) = Assignment t"
  "MinOffsetSeen (advanceThroughGapBuffer k t) = MinOffsetSeen t"
  "MaxOffsetSeen (advanceThroughGapBuffer k t) = MaxOffsetSeen t"
  "GapBuffer (advanceThroughGapBuffer k t) = GapBuffer t"
  "CommittedPlusOne (advanceThroughGapBuffer k t) = CommittedPlusOne t"
  "LastCommittedOffset (advanceThroughGapBuffer k t) = LastCommittedOffset t"
  by (simp_all add: advanceThroughGapBuffer_def)

lemma addToGapBuffer_simps [simp, tracker_simps]:
  "Ready (addToGapBuffer nx w t) = Ready t"
  "Assignment (addToGapBuffer nx w t) = Assignment t"
  "MinOffsetSeen (addToGapBuffer nx w t) = MinOffsetSeen t"
  "MaxOffsetSeen (addToGapBuffer nx w t) = MaxOffsetSeen t"
  "GapBuffer (addToGapBuffer nx w t) = GapBuffer t @ [onTraits (SetCommitBuffered nx) w]"
  "NeedsGapAdvance (addToGapBuffer nx w t) = NeedsGapAdvance t"
  "CommittedPlusOne (addToGapBuffer nx w t) = CommittedPlusOne t"
  "LastCommittedOffset (addToGapBuffer nx w t) = LastCommittedOffset t"
  by (simp_all add: addToGapBuffer_def)

lemma observeOffset_simps [simp, tracker_simps]:
  "Ready (observeOffset k ot) = (case ot of None \<Rightarrow> None | Some t \<Rightarrow> Ready t)"
  "Assignment (observeOffset k ot) = (case ot of None \<Rightarrow> Assign | Some t \<Rightarrow> Assignment t)"
  "GapBuffer (observeOffset k ot) = (case ot of None \<Rightarrow> [] | Some t \<Rightarrow> GapBuffer t)"
  "NeedsGapAdvance (observeOffset k ot) = (case ot of None \<Rightarrow> False | Some t \<Rightarrow> NeedsGapAdvance t)"
  "CommittedPlusOne (observeOffset k ot) = (case ot of None \<Rightarrow> -1 | Some t \<Rightarrow> CommittedPlusOne t)"
  "LastCommittedOffset (observeOffset k ot) = (case ot of None \<Rightarrow> -1 | Some t \<Rightarrow> LastCommittedOffset t)"
  by (simp_all add: observeOffset_def newTracker_def split: option.splits)

lemma held_observe [simp]: "held (observeOffset k ot) = heldOpt ot"
  by (simp add: held_def split: option.splits)

section \<open>Sorting and de-duplication\<close>

lemma compactOffsets_hd: "xs \<noteq> [] \<Longrightarrow> compactOffsets xs \<noteq> [] \<and> hd (compactOffsets xs) = hd xs"
  by (induction xs rule: compactOffsets.induct) auto

lemma compactOffsets_subset: "mset (compactOffsets xs) \<subseteq># mset xs"
proof (induction xs rule: compactOffsets.induct)
  case (1 a b xs)
  show ?case
  proof (cases "wi_offset a = wi_offset b")
    case True
    with 1(1) have "mset (compactOffsets (a # xs)) \<subseteq># mset (a # xs)" by simp
    also have "\<dots> \<subseteq># mset (a # b # xs)" by simp
    finally show ?thesis using True by simp
  qed (use 1 in simp)
qed simp_all

lemma compactOffsets_offsets: "wi_offset ` set (compactOffsets xs) = wi_offset ` set xs"
  by (induction xs rule: compactOffsets.induct) auto

lemma compactOffsets_strict:
  "sorted (map wi_offset xs) \<Longrightarrow> sorted_wrt (\<lambda>a b. wi_offset a < wi_offset b) (compactOffsets xs)"
proof (induction xs rule: compactOffsets.induct)
  case (1 a b xs)
  show ?case
  proof (cases "wi_offset a = wi_offset b")
    case True
    with 1 show ?thesis by simp
  next
    case False
    have "wi_offset a < wi_offset x" if "x \<in> set (compactOffsets (b # xs))" for x
    proof -
      from that have "wi_offset x \<in> wi_offset ` set (b # xs)"
        using compactOffsets_offsets [of "b # xs"] by blast
      with 1(3) False show ?thesis by force
    qed
    with 1 False show ?thesis by simp
  qed
qed simp_all

lemma sort_gapOrder_offsets: "sorted (map wi_offset (sort_key gapOrder xs))"
proof -
  have "sorted (map gapOrder (sort_key gapOrder xs))" by simp
  then show ?thesis
    by (auto simp: sorted_wrt_map gapOrder_def less_eq_prod_def less_prod_def
        elim!: sorted_wrt_mono_rel [rotated])
qed

lemma sortGapBuffer_subset: "mset (sortGapBuffer xs) \<subseteq># mset xs"
  using compactOffsets_subset [of "sort_key gapOrder xs"]
  by (simp add: sortGapBuffer_def Let_def)

lemma sortGapBuffer_distinct:
  "distinct (map wi_offset xs) \<Longrightarrow> mset (sortGapBuffer xs) = mset xs"
  by (simp add: sortGapBuffer_def)

lemma sortGapBuffer_offsets: "wi_offset ` set (sortGapBuffer xs) = wi_offset ` set xs"
  by (simp add: sortGapBuffer_def Let_def compactOffsets_offsets)

lemma sortGapBuffer_strict: "sorted_wrt (\<lambda>a b. wi_offset a < wi_offset b) (sortGapBuffer xs)"
proof (cases "distinct (map wi_offset xs)")
  case True
  then have "distinct (map wi_offset (sort_key gapOrder xs))"
    using mset_eq_imp_distinct_iff [of "map wi_offset (sort_key gapOrder xs)" "map wi_offset xs"]
    by simp
  then have "sorted_wrt (<) (map wi_offset (sort_key gapOrder xs))"
    using sort_gapOrder_offsets [of xs] by (simp add: strict_sorted_iff del: map_map)
  with True show ?thesis by (simp add: sortGapBuffer_def sorted_wrt_map)
next
  case False
  then show ?thesis
    by (simp add: sortGapBuffer_def Let_def compactOffsets_strict sort_gapOrder_offsets)
qed

end
