(* ===== verification/Tracker_Accounting.thy ===== *)
theory Tracker_Accounting
  imports Offset_Tracker
begin

text \<open>
  Where every work item of a tracker goes. Each operation either keeps an item in the
  tracker or hands it to the metrics collector, exactly once; the only exception is the
  de-duplication of the gap buffer, which drops all but the latest-read item of an offset.
\<close>

section \<open>Arrival\<close>

lemma checkAndAdvance_cores:
  "checkAndAdvance nx now w t = (t', col) \<Longrightarrow>
   cores (held t') + cores col = add_mset (core w) (cores (held t))"
  by (auto simp: checkAndAdvance_def held_def Let_def split: option.splits if_splits)

lemma held_CommittedPlusOne [simp]: "held (t\<lparr>CommittedPlusOne := k\<rparr>) = held t"
  by (simp add: held_def)

lemma processTracker_cores:
  "processTracker nx now w ot = (t', col) \<Longrightarrow>
   cores (held t') + cores col = add_mset (core w) (cores (heldOpt ot))"
  by (auto simp: processTracker_def Let_def dest!: checkAndAdvance_cores split: if_splits)

section \<open>Flush\<close>

lemma flushWalk_cores:
  "flushWalk nx now c l gs rdy = (r, col, n) \<Longrightarrow>
   n \<le> length gs \<and>
   cores (readyList r) + cores col + cores (drop n gs) = cores (readyList rdy) + cores gs"
proof (induction nx now c l gs rdy arbitrary: r col n rule: flushWalk.induct)
  case (1 nx now c l rdy)
  then show ?case by simp
next
  case (2 nx now c l g gs)
  then show ?case
    by (fastforce simp: Let_def split: if_splits prod.splits)
next
  case (3 nx now c l g gs rd)
  then show ?case
    by (fastforce simp: Let_def split: if_splits prod.splits)
qed

text \<open>The twins the de-duplication drops, when the flag asks for a flush.\<close>

definition droppedTwins :: "'a tracker \<Rightarrow> 'a work_item multiset" where
  "droppedTwins t =
     (if NeedsGapAdvance t then mset (GapBuffer t) - mset (sortGapBuffer (GapBuffer t)) else {#})"

lemma flushTracker_cases:
  assumes "flushTracker nx now t = (t', col)"
  obtains (idle) "\<not> NeedsGapAdvance t" "t' = t" "col = []"
  | (empty) "NeedsGapAdvance t" "GapBuffer t = []" "t' = t\<lparr>NeedsGapAdvance := False\<rparr>" "col = []"
  | (walk) r n where "NeedsGapAdvance t" "GapBuffer t \<noteq> []"
      "flushWalk nx now (CommittedPlusOne t) (LastCommittedOffset t)
         (sortGapBuffer (GapBuffer t)) (Ready t) = (r, col, n)"
      "t' = t\<lparr>NeedsGapAdvance := False, Ready := r,
              GapBuffer := drop n (sortGapBuffer (GapBuffer t))\<rparr>"
proof (cases "NeedsGapAdvance t \<and> GapBuffer t \<noteq> []")
  case False
  with assms that(1,2) show ?thesis by (auto simp: flushTracker_def Let_def split: if_splits)
next
  case True
  obtain r c n where w: "flushWalk nx now (CommittedPlusOne t) (LastCommittedOffset t)
      (sortGapBuffer (GapBuffer t)) (Ready t) = (r, c, n)"
    by (metis prod_cases3)
  from flushWalk_cores [OF w] have "n \<le> length (sortGapBuffer (GapBuffer t))" by simp
  with True assms w have "c = col" "t' = t\<lparr>NeedsGapAdvance := False, Ready := r,
      GapBuffer := drop n (sortGapBuffer (GapBuffer t))\<rparr>"
    by (auto simp: flushTracker_def Let_def split: if_splits)
  with True w that(3) show ?thesis by simp
qed

lemma flushTracker_cores:
  assumes "flushTracker nx now t = (t', col)"
  shows "cores (held t') + cores col + image_mset core (droppedTwins t) = cores (held t)"
  using assms
proof (cases rule: flushTracker_cases)
  case (walk r n)
  let ?b = "GapBuffer t" and ?s = "sortGapBuffer (GapBuffer t)"
  have sub: "mset ?s \<subseteq># mset ?b" by (rule sortGapBuffer_subset)
  have "cores (held t') + cores col = cores (readyList (Ready t)) + cores ?s"
    using flushWalk_cores [OF walk(3)] walk(4) by (simp add: held_def ac_simps)
  moreover have "cores ?s + image_mset core (mset ?b - mset ?s) = cores ?b"
    using sub by (metis image_mset_union subset_mset.add_diff_inverse)
  ultimately show ?thesis
    using walk(1) by (simp add: droppedTwins_def held_def add.assoc)
qed (simp_all add: droppedTwins_def held_def sortGapBuffer_def)

corollary flushTracker_cores_subset:
  assumes "flushTracker nx now t = (t', col)"
  shows "cores (held t') + cores col \<subseteq># cores (held t)"
  using flushTracker_cores [OF assms, symmetric] by simp

section \<open>Repair\<close>

lemma repairScan_mem:
  "repairScan c m gs s = Some x \<Longrightarrow> x \<in> set gs \<or> s = Some x"
  by (induction gs arbitrary: s) (auto split: if_splits)

lemma mset_partition_ptr:
  assumes "distinct (map wi_ptr gs)" "s \<in> set gs"
  shows "mset gs = add_mset s (mset (filter (\<lambda>g. wi_ptr g \<noteq> wi_ptr s) gs))"
  using assms
proof (induction gs)
  case (Cons a gs)
  show ?case
  proof (cases "s = a")
    case True
    with Cons.prems have "filter (\<lambda>g. wi_ptr g \<noteq> wi_ptr s) gs = gs"
      by (auto simp: filter_id_conv image_iff)
    with True show ?thesis by simp
  next
    case False
    with Cons.prems have "s \<in> set gs" "wi_ptr a \<noteq> wi_ptr s" by (auto simp: image_iff)
    with Cons show ?thesis by simp
  qed
qed simp

lemma repairSuccessor_cases:
  assumes "repairSuccessor nx now t = (t', col)"
  obtains (idle) "t' = t" "col = []"
  | (repair) s where "Ready t = None" "\<not> NeedsGapAdvance t" "LastCommittedOffset t \<ge> 0"
      "repairScan (CommittedPlusOne t) (LastCommittedOffset t) (GapBuffer t) None = Some s"
      "t' = t\<lparr>GapBuffer := filter (\<lambda>g. \<not> wi_offset g < wi_offset s)
                (filter (\<lambda>g. wi_ptr g \<noteq> wi_ptr s) (GapBuffer t)),
              Ready := Some (stampAdvance now s),
              NeedsGapAdvance := length (filter (\<lambda>g. \<not> wi_offset g < wi_offset s)
                (filter (\<lambda>g. wi_ptr g \<noteq> wi_ptr s) (GapBuffer t))) > 0\<rparr>"
      "col = map (orphanAt nx now) (filter (\<lambda>g. wi_offset g < wi_offset s)
                (filter (\<lambda>g. wi_ptr g \<noteq> wi_ptr s) (GapBuffer t)))"
proof (cases "Ready t = None \<and> GapBuffer t \<noteq> [] \<and> \<not> NeedsGapAdvance t \<and> LastCommittedOffset t \<ge> 0")
  case False
  then have "repairSuccessor nx now t = (t, [])" by (auto simp: repairSuccessor_def)
  with assms that(1) show ?thesis by simp
next
  case True
  show ?thesis
  proof (cases "repairScan (CommittedPlusOne t) (LastCommittedOffset t) (GapBuffer t) None")
    case None
    with True have "repairSuccessor nx now t = (t, [])" by (simp add: repairSuccessor_def)
    with assms that(1) show ?thesis by simp
  next
    case (Some s)
    from True assms show ?thesis
      by (intro that(2) [OF _ _ _ Some]) (simp_all add: repairSuccessor_def Let_def Some)
  qed
qed

lemma repairSuccessor_cores:
  assumes "repairSuccessor nx now t = (t', col)" and ptrs: "distinct (map wi_ptr (GapBuffer t))"
  shows "cores (held t') + cores col = cores (held t)"
  using assms(1)
proof (cases rule: repairSuccessor_cases)
  case (repair s)
  define others where "others = filter (\<lambda>g. wi_ptr g \<noteq> wi_ptr s) (GapBuffer t)"
  define pruned where "pruned = filter (\<lambda>g. wi_offset g < wi_offset s) others"
  define kept where "kept = filter (\<lambda>g. \<not> wi_offset g < wi_offset s) others"
  from repairScan_mem [OF repair(4)] have "s \<in> set (GapBuffer t)" by simp
  then have gap: "cores (GapBuffer t) = add_mset (core s) (cores others)"
    unfolding others_def by (subst mset_partition_ptr [OF ptrs]) simp_all
  have split: "cores others = cores pruned + cores kept"
    unfolding pruned_def kept_def by (rule image_mset_split_filter)
  from repair(5) have "held t' = stampAdvance now s # kept"
    by (simp add: held_def kept_def others_def del: filter_filter)
  moreover from repair(6) have "col = map (orphanAt nx now) pruned"
    by (simp add: pruned_def others_def del: filter_filter)
  moreover from repair(1) have "held t = GapBuffer t" by (simp add: held_def)
  ultimately show ?thesis using gap split by simp
qed simp

lemma repairSuccessor_subset:
  assumes "repairSuccessor nx now t = (t', col)"
  shows "set (map core (held t')) \<subseteq> set (map core (held t))"
  using assms
proof (cases rule: repairSuccessor_cases)
  case (repair s)
  from repairScan_mem [OF repair(4)] have "s \<in> set (GapBuffer t)" by simp
  with repair show ?thesis by (auto simp: held_def)
qed simp

section \<open>Reset, discard, gather, acknowledge\<close>

lemma resetTracker_cores:
  "resetTracker nx b ot = (t', col) \<Longrightarrow> cores (held t') + cores col = cores (heldOpt ot)"
  by (auto simp: resetTracker_def baselineTracker_def held_def Let_def
      split: option.splits if_splits)

lemma discardOrphanedTracker_cores:
  "discardOrphanedTracker nx t = (t', col) \<Longrightarrow>
   held t' = [] \<and> cores col = cores (held t)"
  by (auto simp: discardOrphanedTracker_def held_def split: option.splits if_splits)

lemma gatherTracker_cases:
  assumes "gatherTracker nx now asg t = (t', m, col)"
  obtains (discard) "\<not> asg" "m = None" "discardOrphanedTracker nx t = (t', col)"
  | (none) "asg" "m = None" "Ready t = None" "Ready t' = None" "repairSuccessor nx now t = (t', col)"
  | (stale) t1 col1 w where "asg" "m = None"
      "(if Ready t = None then repairSuccessor nx now t else (t, [])) = (t1, col1)"
      "Ready t1 = Some w" "wi_offset w < CommittedPlusOne t1"
      "t' = t1\<lparr>Ready := None, NeedsGapAdvance := (NeedsGapAdvance t1 \<or> GapBuffer t1 \<noteq> [])\<rparr>"
      "col = col1 @ [orphan nx w]"
  | (commit) w where "asg" "m = Some (wi_Message w)" "Ready t' = Some w"
      "CommittedPlusOne t' \<le> wi_offset w"
      "(if Ready t = None then repairSuccessor nx now t else (t, [])) = (t', col)"
proof (cases asg)
  case False
  with assms that(1) show ?thesis by (auto simp: gatherTracker_def split: prod.splits)
next
  case True
  obtain t1 col1 where r: "(if Ready t = None then repairSuccessor nx now t else (t, [])) = (t1, col1)"
    by fastforce
  then have r': "(case Ready t of None \<Rightarrow> repairSuccessor nx now t | Some _ \<Rightarrow> (t, [])) = (t1, col1)"
    by (auto split: option.splits if_splits)
  show ?thesis
  proof (cases "Ready t1")
    case None
    then have "Ready t = None" using r by (auto split: if_splits)
    with None True assms r r' that(2) show ?thesis by (auto simp: gatherTracker_def)
  next
    case (Some w)
    show ?thesis
    proof (cases "wi_offset w < CommittedPlusOne t1")
      case lt: True
      with Some True assms r r' have "m = None" "col = col1 @ [orphan nx w]"
        "t' = t1\<lparr>Ready := None, NeedsGapAdvance := (NeedsGapAdvance t1 \<or> GapBuffer t1 \<noteq> [])\<rparr>"
        by (auto simp: gatherTracker_def Let_def split: if_splits)
      with that(3) True r Some lt show ?thesis by blast
    next
      case ge: False
      with Some True assms r' have "m = Some (wi_Message w)" "t' = t1" "col = col1"
        by (auto simp: gatherTracker_def Let_def)
      with that(4) True r Some ge show ?thesis by auto
    qed
  qed
qed

lemma gatherTracker_cores:
  assumes "gatherTracker nx now asg t = (t', m, col)" "distinct (map wi_ptr (GapBuffer t))"
  shows "cores (held t') + cores col = cores (held t)"
  using assms(1)
proof (cases rule: gatherTracker_cases)
  case discard
  then show ?thesis using discardOrphanedTracker_cores by fastforce
next
  case none
  then show ?thesis using repairSuccessor_cores assms(2) by fastforce
next
  case (stale t1 col1 w)
  then have "cores (held t1) + cores col1 = cores (held t)"
    using repairSuccessor_cores [OF _ assms(2)] by (auto split: if_splits)
  with stale show ?thesis by (simp add: held_def ac_simps)
next
  case (commit w)
  then show ?thesis
    using repairSuccessor_cores [OF _ assms(2)] by (auto split: if_splits)
qed

lemma ackTracker_cases:
  assumes "ackTracker m t = Some (t', col)"
  obtains r where "Ready t = Some r" "col = [r]"
    "t' = t\<lparr>Ready := None, CommittedPlusOne := max (CommittedPlusOne t) (msg_Offset m + 1),
            LastCommittedOffset := max (LastCommittedOffset t) (msg_Offset m),
            NeedsGapAdvance := (NeedsGapAdvance t \<or> GapBuffer t \<noteq> [])\<rparr>"
proof (cases "Ready t")
  case None
  with assms show ?thesis by (simp add: ackTracker_def Let_def split: if_splits)
next
  case (Some r)
  from assms show ?thesis
    by (intro that [OF Some]) (auto simp: ackTracker_def Let_def Some max_def split: if_splits)
qed

lemma ackTracker_cores:
  "ackTracker m t = Some (t', col) \<Longrightarrow> cores (held t') + cores col = cores (held t)"
  by (elim ackTracker_cases) (simp add: held_def)

end
