(* ===== verification/Tracker_Coverage.thy ===== *)
theory Tracker_Coverage
  imports Tracker_Accounting
begin

text \<open>
  What makes a commit safe, stated as an interface between the stream that stamps work
  items and the tracker that resolves them. \<open>C k\<close> says that every record up to offset
  \<open>k\<close> is accounted for; \<open>T w\<close> says that the stamps of \<open>w\<close> are truthful. The laws are
  the three proofs of contiguity the committer relies on. Every operation of the tracker
  keeps its state covered, and whatever it offers for commit is covered.
\<close>

locale coverage =
  fixes C :: "int \<Rightarrow> bool"
    and T :: "'a work_item \<Rightarrow> bool"
  assumes T_core: "core w = core w' \<Longrightarrow> T w \<Longrightarrow> T w'"
    and unknown: "k < 0 \<Longrightarrow> C k"
    and positional: "C (wi_offset w - 1) \<Longrightarrow> T w \<Longrightarrow> C (wi_offset w)"
    and linked: "C k \<Longrightarrow> T w \<Longrightarrow> wi_PreviousOffset w \<le> k \<Longrightarrow> C (wi_offset w)"
    and first_item: "T w \<Longrightarrow> wi_First w \<Longrightarrow> C (wi_offset w - 1)"
begin

definition tracker_covered :: "'a tracker \<Rightarrow> bool" where
  "tracker_covered t \<longleftrightarrow>
     (\<forall>w \<in> set (held t). T w) \<and>
     (\<forall>r. Ready t = Some r \<longrightarrow> C (wi_offset r)) \<and>
     C (CommittedPlusOne t - 1) \<and>
     (LastCommittedOffset t \<ge> 0 \<longrightarrow> C (LastCommittedOffset t))"

definition covered_opt :: "'a tracker option \<Rightarrow> bool" where
  "covered_opt ot \<longleftrightarrow> (case ot of None \<Rightarrow> True | Some t \<Rightarrow> tracker_covered t)"

lemma T_cong: "core w = core w' \<Longrightarrow> T w = T w'"
  using T_core [of w w'] T_core [of w' w] by auto

lemma T_updates [simp]: "T (onTraits f w) = T w" "T (stampAdvance now w) = T w"
  "T (orphan nx w) = T w" "T (orphanAt nx now w) = T w"
  by (rule T_cong, simp)+

lemma covered_observe: "covered_opt ot \<Longrightarrow> tracker_covered (observeOffset k ot)"
  by (auto simp: tracker_covered_def covered_opt_def unknown split: option.splits)

lemma checkAndAdvance_covered:
  assumes "tracker_covered t" "T w" "checkAndAdvance nx now w t = (t', col)"
  shows "tracker_covered t'"
proof -
  have C: "C (CommittedPlusOne t - 1)" and H: "\<forall>v \<in> set (held t). T v"
    using assms(1) by (auto simp: tracker_covered_def)
  have sub: "cores (held t') \<subseteq># cores (w # held t)"
    using checkAndAdvance_cores [OF assms(3), symmetric] by simp
  have T': "\<forall>v \<in> set (held t'). T v"
    by (rule cores_subset_pred [OF sub T_core]) (use H assms(2) in auto)
  have R: "C (wi_offset r)" if "Ready t' = Some r" for r
    using assms that positional [OF _ assms(2)] linked [OF _ assms(2)]
    by (auto simp: checkAndAdvance_def tracker_covered_def Let_def split: option.splits if_splits)
  have "CommittedPlusOne t' = CommittedPlusOne t" "LastCommittedOffset t' = LastCommittedOffset t"
    using assms(3) by (auto simp: checkAndAdvance_def Let_def split: option.splits if_splits)
  with assms(1) T' R show ?thesis by (auto simp: tracker_covered_def)
qed

lemma raise_covered:
  "tracker_covered t \<Longrightarrow> T w \<Longrightarrow> wi_First w \<Longrightarrow> tracker_covered (t\<lparr>CommittedPlusOne := wi_offset w\<rparr>)"
  by (auto simp: tracker_covered_def first_item)

lemma processTracker_covered:
  assumes "covered_opt ot" "T w" "processTracker nx now w ot = (t', col)"
  shows "tracker_covered t'"
proof -
  have obs: "tracker_covered (observeOffset (wi_offset w) ot)"
    using assms(1) by (rule covered_observe)
  obtain w0 t0 where "checkAndAdvance nx now w0 t0 = (t', col)" "T w0" "tracker_covered t0"
  proof (cases "wi_First w \<and> CommittedPlusOne (observeOffset (wi_offset w) ot) \<le> wi_offset w")
    case True
    with obs assms(2) have "tracker_covered ((observeOffset (wi_offset w) ot)\<lparr>CommittedPlusOne := wi_offset w\<rparr>)"
      by (blast intro: raise_covered)
    with True assms(2,3) that show ?thesis by (simp add: processTracker_def Let_def)
  next
    case False
    with obs assms(2,3) that [of w] that [of "onTraits (SetFirstAfterRebalance nx) w"] show ?thesis
      by (simp add: processTracker_def Let_def split: if_splits)
  qed
  then show ?thesis by (blast intro: checkAndAdvance_covered)
qed

lemma flushWalk_covered:
  assumes "flushWalk nx now c l gs rdy = (r, col, n)" "\<forall>g \<in> set gs. T g"
    "C (c - 1)" "l \<ge> 0 \<longrightarrow> C l" "\<forall>x. rdy = Some x \<longrightarrow> C (wi_offset x)"
  shows "\<forall>x. r = Some x \<longrightarrow> C (wi_offset x)"
  using assms
proof (induction nx now c l gs rdy arbitrary: r col n rule: flushWalk.induct)
  case (2 nx now c l g gs)
  then have "C (wi_offset g)" if "wi_offset g = c \<or> (l \<ge> 0 \<and> wi_PreviousOffset g = l)"
    using that positional [of g] linked [of l g] by auto
  with 2 show ?case by (auto simp: Let_def split: if_splits prod.splits)
next
  case (3 nx now c l g gs rd)
  then have "C (wi_offset g)" if "wi_offset rd = wi_PreviousOffset g"
    using that linked [of "wi_offset rd" g] by auto
  with 3 show ?case by (auto simp: Let_def split: if_splits prod.splits)
qed simp

lemma flushTracker_covered:
  assumes "tracker_covered t" "flushTracker nx now t = (t', col)"
  shows "tracker_covered t'"
proof -
  have sub: "cores (held t') \<subseteq># cores (held t)"
    using flushTracker_cores_subset [OF assms(2)] by (meson mset_subset_eq_add_left subset_mset.trans)
  have T': "\<forall>v \<in> set (held t'). T v"
    by (rule cores_subset_pred [OF sub T_core]) (use assms(1) in \<open>auto simp: tracker_covered_def\<close>)
  from assms(2) show ?thesis
  proof (cases rule: flushTracker_cases)
    case (walk r n)
    have "set (sortGapBuffer (GapBuffer t)) \<subseteq> set (GapBuffer t)"
      using sortGapBuffer_subset [of "GapBuffer t"] set_mset_mono by fastforce
    then have "\<forall>x. r = Some x \<longrightarrow> C (wi_offset x)"
      using flushWalk_covered [OF walk(3)] assms(1) by (auto simp: tracker_covered_def held_def)
    with walk T' assms(1) show ?thesis by (auto simp: tracker_covered_def)
  qed (use assms(1) in \<open>auto simp: tracker_covered_def held_def\<close>)
qed

lemma repairScan_cases:
  "repairScan c m gs s = Some x \<Longrightarrow>
   s = Some x \<or> (x \<in> set gs \<and> c \<le> wi_offset x \<and> (wi_offset x = c \<or> 0 \<le> wi_PreviousOffset x \<and> wi_PreviousOffset x \<le> m))"
proof (induction gs arbitrary: s)
  case (Cons a gs)
  show ?case
    using Cons.prems Cons.IH [of s] Cons.IH [of "Some a"] by (auto split: if_splits)
qed simp

lemma repairSuccessor_covered:
  assumes "tracker_covered t" "repairSuccessor nx now t = (t', col)"
  shows "tracker_covered t'"
  using assms(2)
proof (cases rule: repairSuccessor_cases)
  case (repair s)
  have "s \<in> set (GapBuffer t)" "wi_offset s = CommittedPlusOne t \<or> wi_PreviousOffset s \<le> LastCommittedOffset t"
    using repairScan_cases [OF repair(4)] by auto
  moreover from this(1) have "T s" using assms(1) by (auto simp: tracker_covered_def held_def)
  ultimately have "C (wi_offset s)"
    using assms(1) repair(3) positional [of s] linked [of "LastCommittedOffset t" s]
    by (auto simp: tracker_covered_def)
  with \<open>T s\<close> assms(1) repair show ?thesis by (auto simp: tracker_covered_def held_def)
qed (use assms(1) in simp)

lemma resetTracker_covered:
  assumes "covered_opt ot" "C (b - 1)" "resetTracker nx b ot = (t', col)"
  shows "tracker_covered t'"
  using assms
  by (auto simp: resetTracker_def baselineTracker_def tracker_covered_def covered_opt_def held_def
      Let_def split: option.splits if_splits)

lemma discardOrphanedTracker_covered:
  "tracker_covered t \<Longrightarrow> discardOrphanedTracker nx t = (t', col) \<Longrightarrow> tracker_covered t'"
  by (auto simp: discardOrphanedTracker_def tracker_covered_def held_def split: if_splits)

lemma gatherTracker_covered:
  assumes "tracker_covered t" "gatherTracker nx now asg t = (t', m, col)"
  shows "tracker_covered t' \<and> (\<forall>x. m = Some x \<longrightarrow> C (msg_Offset x))"
  using assms(2)
proof (cases rule: gatherTracker_cases)
  case discard
  with assms(1) show ?thesis by (simp add: discardOrphanedTracker_covered)
next
  case none
  with assms(1) show ?thesis by (simp add: repairSuccessor_covered)
next
  case (stale t1 col1 w)
  then have "tracker_covered t1" using assms(1) repairSuccessor_covered by (auto split: if_splits)
  with stale show ?thesis by (auto simp: tracker_covered_def held_def)
next
  case (commit w)
  then have "tracker_covered t'" using assms(1) repairSuccessor_covered by (auto split: if_splits)
  with commit show ?thesis by (auto simp: tracker_covered_def)
qed

lemma ackTracker_covered:
  assumes "tracker_covered t" "C (msg_Offset m)" "ackTracker m t = Some (t', col)"
  shows "tracker_covered t'"
  using assms(3)
proof (cases rule: ackTracker_cases)
  case (1 r)
  with assms(1,2) show ?thesis by (auto simp: tracker_covered_def held_def max_def)
qed

end

end
