(* ===== verification/Metrics_Window.thy ===== *)
theory Metrics_Window
  imports Demux_Prelude
begin

text \<open>
  The sliding window of per-message statistics (demux/offset/committer_metrics.go) and the
  conversion of its counters into the timestamped entries of a snapshot
  (demux/metrics/snapshot/ring_buffer_recorder.go, buildThroughput).
\<close>

section \<open>State and operations\<close>

record bucket =
  bk_count :: int
  bk_deadLetterCount :: int
  bk_totalProcessNanos :: int
  bk_totalEndToEndNanos :: int
  bk_maxProcessNanos :: int
  bk_maxEndToEndNanos :: int
  bk_minEndToEndNanos :: int

definition zeroBucket :: bucket where
  "zeroBucket = \<lparr>bk_count = 0, bk_deadLetterCount = 0, bk_totalProcessNanos = 0,
     bk_totalEndToEndNanos = 0, bk_maxProcessNanos = 0, bk_maxEndToEndNanos = 0,
     bk_minEndToEndNanos = 0\<rparr>"

record metricsRingBuffer =
  buckets :: "bucket list"
  currentIndex :: nat
  bucketCount :: nat
  lastEpoch :: int
  rb_totalProcessed :: int
  bucketSeconds :: int

definition newRingBuffer :: "duration \<Rightarrow> nat \<Rightarrow> time \<Rightarrow> metricsRingBuffer" where
  "newRingBuffer bucketDuration cnt now =
     (let secs = max (bucketDuration sdiv second) 1 in
      \<lparr>buckets = replicate cnt zeroBucket, currentIndex = 0, bucketCount = cnt,
       lastEpoch = unix now sdiv secs, rb_totalProcessed = 0, bucketSeconds = secs\<rparr>)"

text \<open>The loop of \<open>advance\<close> that zeroes the buckets \<open>oldIndex + 1, \<dots>, oldIndex + gap\<close>.\<close>

fun zeroNext :: "nat \<Rightarrow> nat \<Rightarrow> nat \<Rightarrow> bucket list \<Rightarrow> bucket list" where
  "zeroNext cnt oldIndex 0 bs = bs"
| "zeroNext cnt oldIndex (Suc k) bs =
     (zeroNext cnt oldIndex k bs)[(oldIndex + Suc k) mod cnt := zeroBucket]"

definition rb_advance :: "int \<Rightarrow> int \<Rightarrow> metricsRingBuffer \<Rightarrow> metricsRingBuffer" where
  "rb_advance prevEpoch nowEpoch rb =
     (let gap0 = nowEpoch - prevEpoch;
          gap = (if gap0 > int (bucketCount rb) then bucketCount rb else nat gap0)
      in rb\<lparr>buckets := zeroNext (bucketCount rb) (currentIndex rb) gap (buckets rb),
            currentIndex := (currentIndex rb + gap) mod bucketCount rb,
            lastEpoch := nowEpoch\<rparr>)"

definition addSample :: "duration \<Rightarrow> duration \<Rightarrow> bool \<Rightarrow> bucket \<Rightarrow> bucket" where
  "addSample processNanos endToEndNanos deadLetter b =
     \<lparr>bk_count = bk_count b + 1,
      bk_deadLetterCount = bk_deadLetterCount b + (if deadLetter then 1 else 0),
      bk_totalProcessNanos = bk_totalProcessNanos b + processNanos,
      bk_totalEndToEndNanos = bk_totalEndToEndNanos b + endToEndNanos,
      bk_maxProcessNanos =
        (if processNanos > bk_maxProcessNanos b then processNanos else bk_maxProcessNanos b),
      bk_maxEndToEndNanos =
        (if endToEndNanos > bk_maxEndToEndNanos b then endToEndNanos else bk_maxEndToEndNanos b),
      bk_minEndToEndNanos =
        (if bk_minEndToEndNanos b = 0 \<or> endToEndNanos < bk_minEndToEndNanos b
         then endToEndNanos else bk_minEndToEndNanos b)\<rparr>"

definition rb_record ::
  "time \<Rightarrow> duration \<Rightarrow> duration \<Rightarrow> bool \<Rightarrow> metricsRingBuffer \<Rightarrow> metricsRingBuffer" where
  "rb_record now processDuration endToEndDuration deadLetter rb =
     (let nowEpoch = unix now sdiv bucketSeconds rb;
          prevEpoch = lastEpoch rb;
          rb1 = (if nowEpoch \<noteq> prevEpoch \<and> nowEpoch > prevEpoch then rb_advance prevEpoch nowEpoch rb else rb)
      in rb1\<lparr>buckets := (buckets rb1)[currentIndex rb1 :=
               addSample processDuration endToEndDuration deadLetter
                 (buckets rb1 ! currentIndex rb1)],
             rb_totalProcessed := rb_totalProcessed rb1 + 1\<rparr>)"

text \<open>The Go conversion to \<open>uint32\<close>.\<close>

definition toUint32 :: "int \<Rightarrow> int" where
  "toUint32 x = x mod 2 ^ 32"

record WindowData =
  ThroughputPerBucket :: "int list"
  DeadLetterPerBucket :: "int list"
  BucketDuration :: duration
  wd_TotalProcessed :: int
  TotalCount :: int
  TotalProcessNanos :: int
  TotalEndToEndNanos :: int
  MaxProcessNanos :: int
  MaxEndToEndNanos :: int
  MinEndToEndNanos :: int

definition emptyWindow :: "metricsRingBuffer \<Rightarrow> WindowData" where
  "emptyWindow rb = \<lparr>ThroughputPerBucket = [], DeadLetterPerBucket = [],
     BucketDuration = bucketSeconds rb * second, wd_TotalProcessed = rb_totalProcessed rb,
     TotalCount = 0, TotalProcessNanos = 0, TotalEndToEndNanos = 0, MaxProcessNanos = 0,
     MaxEndToEndNanos = 0, MinEndToEndNanos = 0\<rparr>"

text \<open>One iteration of the loop of \<open>windowData\<close> on the bucket it visits.\<close>

definition windowAdd :: "bucket \<Rightarrow> WindowData \<Rightarrow> WindowData" where
  "windowAdd b wd = wd\<lparr>
     ThroughputPerBucket := ThroughputPerBucket wd @ [toUint32 (bk_count b)],
     DeadLetterPerBucket := DeadLetterPerBucket wd @ [toUint32 (bk_deadLetterCount b)],
     TotalCount := TotalCount wd + bk_count b,
     TotalProcessNanos := TotalProcessNanos wd + bk_totalProcessNanos b,
     TotalEndToEndNanos := TotalEndToEndNanos wd + bk_totalEndToEndNanos b,
     MaxProcessNanos :=
       (if bk_maxProcessNanos b > MaxProcessNanos wd then bk_maxProcessNanos b else MaxProcessNanos wd),
     MaxEndToEndNanos :=
       (if bk_maxEndToEndNanos b > MaxEndToEndNanos wd then bk_maxEndToEndNanos b else MaxEndToEndNanos wd),
     MinEndToEndNanos :=
       (if bk_count b > 0 \<and> (MinEndToEndNanos wd = 0 \<or> bk_minEndToEndNanos b < MinEndToEndNanos wd)
        then bk_minEndToEndNanos b else MinEndToEndNanos wd)\<rparr>"

definition windowData :: "metricsRingBuffer \<Rightarrow> WindowData" where
  "windowData rb =
     fold (\<lambda>i. windowAdd (buckets rb ! ((currentIndex rb + 1 + i) mod bucketCount rb)))
       [0..<bucketCount rb] (emptyWindow rb)"

record ThroughputEntry =
  FromTime :: time
  ToTime :: time
  ProcessedCount :: int
  DeadLetterCount :: int

definition buildThroughput :: "time \<Rightarrow> WindowData \<Rightarrow> ThroughputEntry list" where
  "buildThroughput now wd =
     (let n = length (ThroughputPerBucket wd) in
      if n = 0 then []
      else
        (let secs0 = BucketDuration wd sdiv second;
             secs = (if secs0 < 1 then 1 else secs0);
             currentEpoch = unix now sdiv secs;
             currentFrom = currentEpoch * secs * second
         in map (\<lambda>i. let fromTime = currentFrom - int i * BucketDuration wd; src = n - 1 - i in
              \<lparr>FromTime = fromTime, ToTime = fromTime + (BucketDuration wd - millisecond),
               ProcessedCount = ThroughputPerBucket wd ! src,
               DeadLetterCount = DeadLetterPerBucket wd ! src\<rparr>) [0..<n]))"

section \<open>The window as a function from epochs to buckets\<close>

definition rb_wf :: "metricsRingBuffer \<Rightarrow> bool" where
  "rb_wf rb \<longleftrightarrow> length (buckets rb) = bucketCount rb \<and> currentIndex rb < bucketCount rb \<and>
     bucketSeconds rb \<ge> 1"

text \<open>The slot of the bucket that lies \<open>age\<close> epochs before the latest one.\<close>

definition slot :: "metricsRingBuffer \<Rightarrow> nat \<Rightarrow> nat" where
  "slot rb age = (currentIndex rb + bucketCount rb - age) mod bucketCount rb"

definition bucketAt :: "metricsRingBuffer \<Rightarrow> int \<Rightarrow> bucket" where
  "bucketAt rb epoch = buckets rb ! slot rb (nat (lastEpoch rb - epoch))"

definition inWindow :: "metricsRingBuffer \<Rightarrow> int \<Rightarrow> bool" where
  "inWindow rb epoch \<longleftrightarrow> lastEpoch rb - int (bucketCount rb) < epoch \<and> epoch \<le> lastEpoch rb"

lemma length_zeroNext [simp]: "length (zeroNext cnt oldIndex k bs) = length bs"
  by (induction k) auto

lemma nth_zeroNext:
  "j < length bs \<Longrightarrow> length bs = cnt \<Longrightarrow>
   zeroNext cnt oldIndex k bs ! j =
     (if \<exists>i \<in> {1..k}. (oldIndex + i) mod cnt = j then zeroBucket else bs ! j)"
proof (induction k)
  case (Suc k)
  have "{1..Suc k} = insert (Suc k) {1..k}" by auto
  with Suc show ?case by (auto simp: nth_list_update)
qed simp

lemma mod_window_inj:
  assumes "(a + i) mod n = (a + j) mod n" "i \<le> j" "j < i + n"
  shows "i = (j::nat)"
proof -
  have "n dvd (a + j) - (a + i)"
    using assms(1,2) mod_eq_dvd_iff_nat [of "a + i" "a + j" n] by simp
  then have "n dvd j - i" by simp
  show ?thesis
  proof (rule ccontr)
    assume "i \<noteq> j"
    with assms(2) have "0 < j - i" by simp
    with \<open>n dvd j - i\<close> have "n \<le> j - i" by (rule dvd_imp_le)
    with assms(3) show False using \<open>0 < j - i\<close> by linarith
  qed
qed

lemma slot_less: "rb_wf rb \<Longrightarrow> slot rb age < bucketCount rb"
  by (simp add: slot_def rb_wf_def)

lemma rb_advance_simps [simp]:
  "lastEpoch (rb_advance l e rb) = e"
  "bucketCount (rb_advance l e rb) = bucketCount rb"
  "bucketSeconds (rb_advance l e rb) = bucketSeconds rb"
  "rb_totalProcessed (rb_advance l e rb) = rb_totalProcessed rb"
  by (simp_all add: rb_advance_def Let_def)

lemma rb_advance_wf: "rb_wf rb \<Longrightarrow> rb_wf (rb_advance l e rb)"
  by (auto simp: rb_wf_def rb_advance_def Let_def)

text \<open>Advancing keeps the buckets of the epochs still in the window and opens empty ones.\<close>

lemma rb_advance_bucketAt:
  assumes wf: "rb_wf rb" and later: "lastEpoch rb < e'"
    and win: "inWindow (rb_advance (lastEpoch rb) e' rb) e"
  shows "bucketAt (rb_advance (lastEpoch rb) e' rb) e =
    (if e \<le> lastEpoch rb then bucketAt rb e else zeroBucket)"
proof -
  define n c where "n = bucketCount rb" and "c = currentIndex rb"
  define g where "g = (if e' - lastEpoch rb > int n then n else nat (e' - lastEpoch rb))"
  define age where "age = nat (e' - e)"
  from wf have len: "length (buckets rb) = n" "c < n" by (simp_all add: rb_wf_def n_def c_def)
  from win have age: "age < n" "int age = e' - e" by (auto simp: inWindow_def age_def n_def)
  have "slot (rb_advance (lastEpoch rb) e' rb) age = ((c + g) mod n + n - age) mod n"
    by (simp add: slot_def rb_advance_def Let_def n_def c_def g_def)
  also have "\<dots> = ((c + g) mod n + (n - age)) mod n" using age by simp
  also have "\<dots> = (c + g + (n - age)) mod n" by (simp add: mod_add_left_eq)
  finally have slot': "slot (rb_advance (lastEpoch rb) e' rb) age = (c + g + (n - age)) mod n" .
  have bs: "bucketAt (rb_advance (lastEpoch rb) e' rb) e =
      zeroNext n c g (buckets rb) ! ((c + g + (n - age)) mod n)"
    using slot' by (simp add: bucketAt_def age_def rb_advance_def Let_def n_def c_def g_def)
  show ?thesis
  proof (cases "age < g")
    case True
    then have "c + g + (n - age) = c + (g - age) + n" using age(1) by linarith
    then have "(c + (g - age)) mod n = (c + g + (n - age)) mod n" by (simp only: mod_add_self2)
    moreover have "g - age \<in> {1..g}" using True by auto
    ultimately have "\<exists>i \<in> {1..g}. (c + i) mod n = (c + g + (n - age)) mod n" by blast
    moreover have "(c + g + (n - age)) mod n < length (buckets rb)" using len by simp
    ultimately have "bucketAt (rb_advance (lastEpoch rb) e' rb) e = zeroBucket"
      using bs nth_zeroNext [OF _ len(1)] by presburger
    moreover have "\<not> e \<le> lastEpoch rb" using True age later by (auto simp: g_def split: if_splits)
    ultimately show ?thesis by simp
  next
    case False
    with age have g: "int g = e' - lastEpoch rb" using later by (auto simp: g_def split: if_splits)
    with False age have e: "e \<le> lastEpoch rb" and a: "nat (lastEpoch rb - e) = age - g" by linarith+
    have eq: "c + g + (n - age) = c + n - (age - g)" using False age len by linarith
    have "(c + i) mod n \<noteq> (c + (g + (n - age))) mod n" if "i \<in> {1..g}" for i
    proof
      assume eq': "(c + i) mod n = (c + (g + (n - age))) mod n"
      from that False age(1) have "i \<le> g + (n - age)" "g + (n - age) < i + n" by auto
      with eq' have "i = g + (n - age)" by (rule mod_window_inj)
      moreover from that have "i \<le> g" by simp
      ultimately show False using age(1) by linarith
    qed
    then have "zeroNext n c g (buckets rb) ! ((c + g + (n - age)) mod n) =
        buckets rb ! ((c + g + (n - age)) mod n)"
      using len by (subst nth_zeroNext) (auto simp: add.assoc)
    then have "bucketAt (rb_advance (lastEpoch rb) e' rb) e = buckets rb ! ((c + n - (age - g)) mod n)"
      using bs eq by simp
    also have "\<dots> = bucketAt rb e" by (simp add: bucketAt_def slot_def a n_def c_def)
    finally show ?thesis using e by simp
  qed
qed

section \<open>Recording a sample\<close>

definition sampleEpoch :: "metricsRingBuffer \<Rightarrow> time \<Rightarrow> int" where
  "sampleEpoch rb now = max (lastEpoch rb) (unix now sdiv bucketSeconds rb)"

text \<open>The bucket of an epoch as the abstract window has it before a sample arrives.\<close>

definition openBucket :: "metricsRingBuffer \<Rightarrow> int \<Rightarrow> bucket" where
  "openBucket rb e = (if e \<le> lastEpoch rb then bucketAt rb e else zeroBucket)"

lemma rb_record_simps [simp]:
  "lastEpoch (rb_record now pd ed dl rb) = sampleEpoch rb now"
  "bucketCount (rb_record now pd ed dl rb) = bucketCount rb"
  "bucketSeconds (rb_record now pd ed dl rb) = bucketSeconds rb"
  "rb_totalProcessed (rb_record now pd ed dl rb) = rb_totalProcessed rb + 1"
  by (auto simp: rb_record_def sampleEpoch_def Let_def max_def)

lemma rb_record_wf: "rb_wf rb \<Longrightarrow> rb_wf (rb_record now pd ed dl rb)"
  using rb_advance_wf [of rb] by (auto simp: rb_record_def rb_wf_def Let_def)

lemma slot_latest: "rb_wf rb \<Longrightarrow> slot rb 0 = currentIndex rb"
  by (simp add: slot_def rb_wf_def)

lemma slot_older: "rb_wf rb \<Longrightarrow> 0 < age \<Longrightarrow> age < bucketCount rb \<Longrightarrow> slot rb age \<noteq> currentIndex rb"
  using mod_window_inj [of "currentIndex rb" 0 "bucketCount rb" "bucketCount rb - age"]
  by (auto simp: slot_def rb_wf_def)

lemma addSample_bucketAt:
  assumes "rb_wf rb" "inWindow rb e"
  shows "bucketAt (rb\<lparr>buckets := (buckets rb)[currentIndex rb := x], rb_totalProcessed := k\<rparr>) e =
    (if e = lastEpoch rb then x else bucketAt rb e)"
proof (cases "e = lastEpoch rb")
  case True
  with assms(1) slot_latest [OF assms(1)] show ?thesis
    by (simp add: bucketAt_def slot_def rb_wf_def)
next
  case False
  with assms(2) have "0 < nat (lastEpoch rb - e)" "nat (lastEpoch rb - e) < bucketCount rb"
    by (auto simp: inWindow_def)
  then have "slot rb (nat (lastEpoch rb - e)) \<noteq> currentIndex rb"
    by (rule slot_older [OF assms(1)])
  with False show ?thesis by (simp add: bucketAt_def slot_def)
qed

lemma rb_record_bucketAt:
  assumes wf: "rb_wf rb" and win: "inWindow (rb_record now pd ed dl rb) e"
  shows "bucketAt (rb_record now pd ed dl rb) e =
    (if e = sampleEpoch rb now then addSample pd ed dl (openBucket rb e) else openBucket rb e)"
proof -
  let ?n = "unix now sdiv bucketSeconds rb"
  define rb1 where "rb1 = (if lastEpoch rb < ?n then rb_advance (lastEpoch rb) ?n rb else rb)"
  have rec: "rb_record now pd ed dl rb = rb1\<lparr>buckets := (buckets rb1)[currentIndex rb1 :=
      addSample pd ed dl (buckets rb1 ! currentIndex rb1)], rb_totalProcessed := rb_totalProcessed rb1 + 1\<rparr>"
    by (simp add: rb_record_def rb1_def Let_def)
  have wf1: "rb_wf rb1" and last1: "lastEpoch rb1 = sampleEpoch rb now"
    using wf by (auto simp: rb1_def rb_advance_wf sampleEpoch_def)
  have win1: "inWindow rb1 e" using win last1 by (auto simp: inWindow_def rb1_def)
  have old: "bucketAt rb1 e = openBucket rb e"
    using win1 rb_advance_bucketAt [OF wf, of ?n e]
    by (auto simp: rb1_def openBucket_def inWindow_def)
  have "buckets rb1 ! currentIndex rb1 = bucketAt rb1 (lastEpoch rb1)"
    using slot_latest [OF wf1] by (simp add: bucketAt_def)
  with old last1 show ?thesis
    unfolding rec by (auto simp: addSample_bucketAt [OF wf1 win1])
qed

section \<open>Reading the window\<close>

lemma windowAdd_fold:
  "ThroughputPerBucket (fold (\<lambda>i. windowAdd (f i)) xs wd) =
     ThroughputPerBucket wd @ map (\<lambda>i. toUint32 (bk_count (f i))) xs"
  "DeadLetterPerBucket (fold (\<lambda>i. windowAdd (f i)) xs wd) =
     DeadLetterPerBucket wd @ map (\<lambda>i. toUint32 (bk_deadLetterCount (f i))) xs"
  "BucketDuration (fold (\<lambda>i. windowAdd (f i)) xs wd) = BucketDuration wd"
  "TotalCount (fold (\<lambda>i. windowAdd (f i)) xs wd) = TotalCount wd + (\<Sum>i\<leftarrow>xs. bk_count (f i))"
  by (induction xs arbitrary: wd) (simp_all add: windowAdd_def)

text \<open>Entry \<open>i\<close> of the window belongs to the epoch \<open>lastEpoch - bucketCount + 1 + i\<close>.\<close>

lemma windowData_slot:
  assumes "rb_wf rb" "i < bucketCount rb"
  shows "buckets rb ! ((currentIndex rb + 1 + i) mod bucketCount rb) =
    bucketAt rb (lastEpoch rb - int (bucketCount rb) + 1 + int i)"
proof -
  have "nat (lastEpoch rb - (lastEpoch rb - int (bucketCount rb) + 1 + int i)) = bucketCount rb - 1 - i"
    using assms(2) by linarith
  moreover have "currentIndex rb + bucketCount rb - (bucketCount rb - 1 - i) = currentIndex rb + 1 + i"
    using assms(2) by linarith
  ultimately show ?thesis by (simp add: bucketAt_def slot_def)
qed

lemma windowData_counts:
  assumes "rb_wf rb"
  shows "ThroughputPerBucket (windowData rb) = map (\<lambda>i. toUint32 (bk_count
      (bucketAt rb (lastEpoch rb - int (bucketCount rb) + 1 + int i)))) [0..<bucketCount rb]"
    and "DeadLetterPerBucket (windowData rb) = map (\<lambda>i. toUint32 (bk_deadLetterCount
      (bucketAt rb (lastEpoch rb - int (bucketCount rb) + 1 + int i)))) [0..<bucketCount rb]"
    and "TotalCount (windowData rb) = (\<Sum>i\<leftarrow>[0..<bucketCount rb]. bk_count
      (bucketAt rb (lastEpoch rb - int (bucketCount rb) + 1 + int i)))"
  using windowData_slot [OF assms]
  by (simp_all add: windowData_def windowAdd_fold emptyWindow_def interv_sum_list_conv_sum_set_nat cong: map_cong)

section \<open>The window computes the statistics per epoch\<close>

text \<open>
  The reference: a log of samples, each tagged with the epoch it counts for, which is that of
  its time, or the latest one seen if the clock has gone back; and per epoch the statistics of
  its samples.
\<close>

record sample =
  sm_now :: time
  sm_process :: duration
  sm_endToEnd :: duration
  sm_deadLetter :: bool

fun tagEpochs :: "int \<Rightarrow> int \<Rightarrow> sample list \<Rightarrow> (int \<times> sample) list" where
  "tagEpochs secs latest [] = []"
| "tagEpochs secs latest (s # ss) =
     (let e = max latest (unix (sm_now s) sdiv secs) in (e, s) # tagEpochs secs e ss)"

definition statistics :: "(int \<times> sample) list \<Rightarrow> int \<Rightarrow> bucket" where
  "statistics log e = fold (\<lambda>(e', s) b. if e' = e
     then addSample (sm_process s) (sm_endToEnd s) (sm_deadLetter s) b else b) log zeroBucket"

definition recordAll :: "sample list \<Rightarrow> metricsRingBuffer \<Rightarrow> metricsRingBuffer" where
  "recordAll ss rb = fold (\<lambda>s. rb_record (sm_now s) (sm_process s) (sm_endToEnd s) (sm_deadLetter s)) ss rb"

lemma tagEpochs_append:
  "tagEpochs secs l (xs @ [s]) = tagEpochs secs l xs @
     [(max (fold (\<lambda>s e. max e (unix (sm_now s) sdiv secs)) xs l) (unix (sm_now s) sdiv secs), s)]"
  by (induction xs arbitrary: l) (simp_all add: Let_def)

lemma tagEpochs_bound: "(e, s) \<in> set (tagEpochs secs l xs) \<Longrightarrow> e \<le> fold (\<lambda>s e. max e (unix (sm_now s) sdiv secs)) xs l"
proof (induction xs rule: rev_induct)
  case (snoc x xs)
  then show ?case by (auto simp: tagEpochs_append)
qed simp

lemma statistics_absent: "(\<And>e' s. (e', s) \<in> set log \<Longrightarrow> e' \<noteq> e) \<Longrightarrow> statistics log e = zeroBucket"
  unfolding statistics_def by (induction log rule: rev_induct) fastforce+

lemma statistics_snoc:
  "statistics (log @ [(e', s)]) e = (if e' = e
     then addSample (sm_process s) (sm_endToEnd s) (sm_deadLetter s) (statistics log e) else statistics log e)"
  by (simp add: statistics_def)

lemma newRingBuffer_wf:
  assumes "0 < cnt"
  shows "rb_wf (newRingBuffer d cnt t0)" "bucketCount (newRingBuffer d cnt t0) = cnt"
    "inWindow (newRingBuffer d cnt t0) e \<Longrightarrow> bucketAt (newRingBuffer d cnt t0) e = zeroBucket"
  using assms by (simp_all add: newRingBuffer_def rb_wf_def bucketAt_def slot_def Let_def)

lemma recordAll_statistics:
  assumes "0 < cnt" and "rb0 = newRingBuffer d cnt t0"
  shows "rb_wf (recordAll ss rb0) \<and> bucketCount (recordAll ss rb0) = cnt \<and>
    bucketSeconds (recordAll ss rb0) = bucketSeconds rb0 \<and>
    lastEpoch (recordAll ss rb0) = fold (\<lambda>s e. max e (unix (sm_now s) sdiv bucketSeconds rb0)) ss (lastEpoch rb0) \<and>
    rb_totalProcessed (recordAll ss rb0) = int (length ss) \<and>
    (\<forall>e. inWindow (recordAll ss rb0) e \<longrightarrow>
      bucketAt (recordAll ss rb0) e = statistics (tagEpochs (bucketSeconds rb0) (lastEpoch rb0) ss) e)"
proof (induction ss rule: rev_induct)
  case Nil
  show ?case using newRingBuffer_wf [OF assms(1)] unfolding assms(2)
    by (simp add: recordAll_def statistics_def) (simp add: newRingBuffer_def Let_def)
next
  case (snoc s ss)
  let ?rb = "recordAll ss rb0"
  let ?log = "tagEpochs (bucketSeconds rb0) (lastEpoch rb0) ss"
  have rec: "recordAll (ss @ [s]) rb0 = rb_record (sm_now s) (sm_process s) (sm_endToEnd s) (sm_deadLetter s) ?rb"
    by (simp add: recordAll_def)
  have IH: "rb_wf ?rb" "bucketCount ?rb = cnt" "bucketSeconds ?rb = bucketSeconds rb0"
    "lastEpoch ?rb = fold (\<lambda>s e. max e (unix (sm_now s) sdiv bucketSeconds rb0)) ss (lastEpoch rb0)"
    "rb_totalProcessed ?rb = int (length ss)" using snoc by blast+
  have opened: "openBucket ?rb e = statistics ?log e" if "inWindow (recordAll (ss @ [s]) rb0) e" for e
  proof (cases "e \<le> lastEpoch ?rb")
    case True
    with that have "inWindow ?rb e" unfolding rec by (auto simp: inWindow_def sampleEpoch_def)
    with True snoc show ?thesis by (simp add: openBucket_def)
  next
    case False
    have "statistics ?log e = zeroBucket"
      by (rule statistics_absent) (use False IH(4) tagEpochs_bound in fastforce)
    with False show ?thesis by (simp add: openBucket_def)
  qed
  have "bucketAt (recordAll (ss @ [s]) rb0) e = statistics (tagEpochs (bucketSeconds rb0) (lastEpoch rb0) (ss @ [s])) e"
    if "inWindow (recordAll (ss @ [s]) rb0) e" for e
    using rb_record_bucketAt [OF IH(1) that [unfolded rec]] opened [OF that]
    unfolding rec tagEpochs_append statistics_snoc IH(4) [symmetric] by (auto simp: sampleEpoch_def IH(3))
  with IH show ?case unfolding rec by (simp add: rb_record_wf sampleEpoch_def)
qed

lemma statistics_counts:
  "bk_count (statistics log e) = int (length (filter (\<lambda>(e', s). e' = e) log)) \<and>
   bk_deadLetterCount (statistics log e) = int (length (filter (\<lambda>(e', s). e' = e \<and> sm_deadLetter s) log))"
proof (induction log rule: rev_induct)
  case Nil
  show ?case by (simp add: statistics_def zeroBucket_def)
next
  case (snoc es log)
  obtain e' s where "es = (e', s)" by fastforce
  with snoc show ?case by (simp add: statistics_snoc addSample_def)
qed

lemma windowData_total: "wd_TotalProcessed (windowData rb) = rb_totalProcessed rb"
proof -
  have "wd_TotalProcessed (fold (\<lambda>i. windowAdd (f i)) xs wd) = wd_TotalProcessed wd" for f and xs :: "nat list" and wd
    by (induction xs arbitrary: wd) (simp_all add: windowAdd_def)
  then show ?thesis by (simp add: windowData_def emptyWindow_def)
qed

definition epochCount :: "(int \<times> sample) list \<Rightarrow> int \<Rightarrow> int" where
  "epochCount log e = int (length (filter (\<lambda>(e', s). e' = e) log))"


definition exSample :: "int \<Rightarrow> bool \<Rightarrow> sample" where
  "exSample t dl = \<lparr>sm_now = t * second, sm_process = 3, sm_endToEnd = 7, sm_deadLetter = dl\<rparr>"

definition exWindow :: metricsRingBuffer where
  "exWindow = recordAll [exSample 10 False, exSample 12 True, exSample 11 False, exSample 14 False]
     (newRingBuffer second 3 (10 * second))"


text \<open>
  A snapshot of an idle engine labels old counts with the current time: the buckets do not
  advance when the window is read, while the entries are dated from the clock.
\<close>

lemma idle_window_mislabelled:
  "map (\<lambda>t. (FromTime t, ProcessedCount t)) (buildThroughput (100 * second)
     (windowData (recordAll [exSample 10 False] (newRingBuffer second 2 (10 * second))))) =
   [(100 * second, 1), (99 * second, 0)]"
  by code_simp

end
