(* ===== verification/Committer.thy ===== *)
theory Committer
  imports Tracker_Coverage Metrics_Window
begin

text \<open>
  The offset committer (demux/offset): the map of trackers, the ownership set, the metrics
  accumulation, and the operations that run under its mutex: ingest, flush, baseline reset,
  ownership marks, the commit tick, and the final commit of a drain. Each operation is one
  atomic step, as the mutex makes it. A Go map is an association list: its order is the
  order in which an iteration visits the entries, which the theorems leave open.
\<close>

section \<open>State\<close>

record 'a committer =
  PartitionMap :: "(partition \<times> 'a tracker) list"
  assigned :: "partition set"
  totalProcessed :: int
  metricsBuffer :: metricsRingBuffer
  lastRebalanceTime :: time
  commitsIn :: "'a work_item list"
  drained :: bool
  collected :: "'a work_item list"

text \<open>
  \<open>commitsIn\<close> is the content of the ingest channel, \<open>drained\<close> whether the one-slot
  channel of that name holds its token, \<open>collected\<close> the calls of \<open>collectMetrics\<close> so far.
\<close>

definition NewCommitter :: "time \<Rightarrow> 'a committer" where
  "NewCommitter now = \<lparr>PartitionMap = [], assigned = {}, totalProcessed = 0,
     metricsBuffer = newRingBuffer second 15 now, lastRebalanceTime = zeroTime,
     commitsIn = [], drained = False, collected = []\<rparr>"

definition minPartitionMapSize :: int where "minPartitionMapSize = 12"
definition maxPartitionMapSize :: int where "maxPartitionMapSize = 2048"

definition clampPartitionsCount :: "int \<Rightarrow> int" where
  "clampPartitionsCount partitionsCount =
     (if partitionsCount < minPartitionMapSize then minPartitionMapSize
      else if partitionsCount > maxPartitionMapSize then maxPartitionMapSize
      else partitionsCount)"

fun mapHasPendingCommits :: "(partition \<times> 'a tracker) list \<Rightarrow> bool" where
  "mapHasPendingCommits [] = False"
| "mapHasPendingCommits ((p, t) # pm) = (if HasPendingCommits t then True else mapHasPendingCommits pm)"

section \<open>Collecting metrics\<close>

definition returnMessageAndCollectMetrics :: "nexus \<Rightarrow> 'a work_item \<Rightarrow> 'a committer \<Rightarrow> 'a committer" where
  "returnMessageAndCollectMetrics nx w oc =
     (let m = wi_Metrics w;
          processedAt = met_ProcessStartTime m + met_ProcessDuration m
      in oc\<lparr>totalProcessed := totalProcessed oc + 1,
            metricsBuffer := rb_record processedAt (met_ProcessDuration m)
              (met_WatermarkAdvanceTime m - met_ReadTime m)
              (met_Traits m AND DeadLetter nx \<noteq> 0) (metricsBuffer oc),
            collected := collected oc @ [w]\<rparr>)"

definition collectAll :: "nexus \<Rightarrow> 'a work_item list \<Rightarrow> 'a committer \<Rightarrow> 'a committer" where
  "collectAll nx ws oc = fold (returnMessageAndCollectMetrics nx) ws oc"

section \<open>Ingest\<close>

definition processCommit :: "nexus \<Rightarrow> time \<Rightarrow> 'a work_item \<Rightarrow> 'a committer \<Rightarrow> 'a committer" where
  "processCommit nx now w oc =
     (let (p, k) = PartitionOffset w;
          (t', col) = processTracker nx now w (map_of (PartitionMap oc) p)
      in collectAll nx col (oc\<lparr>PartitionMap := AList.update p t' (PartitionMap oc)\<rparr>))"

definition flushGapBuffers :: "nexus \<Rightarrow> time \<Rightarrow> 'a committer \<Rightarrow> 'a committer" where
  "flushGapBuffers nx now oc =
     collectAll nx (concat (map (\<lambda>(p, t). snd (flushTracker nx now t)) (PartitionMap oc)))
       (oc\<lparr>PartitionMap := map (\<lambda>(p, t). (p, fst (flushTracker nx now t))) (PartitionMap oc)\<rparr>)"

definition CollectAndCommit :: "'a work_item \<Rightarrow> 'a committer \<Rightarrow> 'a committer" where
  "CollectAndCommit w oc = oc\<lparr>commitsIn := commitsIn oc @ [w]\<rparr>"

definition readBatchSize :: nat where
  "readBatchSize = 1000"

text \<open>
  One iteration of the ingest loop: up to \<open>readBatchSize\<close> items are taken from the channel,
  the gap buffers are flushed, and the drained token is set when the channel is empty.
\<close>

definition ingestBatch :: "nexus \<Rightarrow> time \<Rightarrow> 'a committer \<Rightarrow> 'a committer" where
  "ingestBatch nx now oc =
     (if commitsIn oc = [] then oc
      else
        (let batch = take readBatchSize (commitsIn oc);
             oc1 = oc\<lparr>commitsIn := drop readBatchSize (commitsIn oc)\<rparr>;
             oc2 = fold (processCommit nx now) batch oc1;
             oc3 = flushGapBuffers nx now oc2
         in if length (commitsIn oc3) = 0 then oc3\<lparr>drained := True\<rparr> else oc3))"

section \<open>Rebalance\<close>

fun resetPartitions :: "nexus \<Rightarrow> (partition \<times> int) list \<Rightarrow> 'a committer \<Rightarrow> 'a committer" where
  "resetPartitions nx [] oc = oc"
| "resetPartitions nx ((p, b) # pbs) oc =
     (let (t', col) = resetTracker nx b (map_of (PartitionMap oc) p)
      in resetPartitions nx pbs
           (collectAll nx col (oc\<lparr>PartitionMap := AList.update p t' (PartitionMap oc)\<rparr>)))"

definition ResetCommittedOffsets :: "nexus \<Rightarrow> (partition \<times> int) list \<Rightarrow> 'a committer \<Rightarrow> 'a committer" where
  "ResetCommittedOffsets nx partitionOffsets oc = resetPartitions nx partitionOffsets oc"

definition MarkPartitionAssigned :: "time \<Rightarrow> partition \<Rightarrow> 'a committer \<Rightarrow> 'a committer" where
  "MarkPartitionAssigned now p oc =
     oc\<lparr>assigned := insert p (assigned oc), lastRebalanceTime := now\<rparr>"

definition MarkPartitionRevoked :: "time \<Rightarrow> partition \<Rightarrow> 'a committer \<Rightarrow> 'a committer" where
  "MarkPartitionRevoked now p oc =
     oc\<lparr>assigned := assigned oc - {p},
        PartitionMap := (case map_of (PartitionMap oc) p of
            Some t \<Rightarrow> AList.update p (t\<lparr>Assignment := Revoke\<rparr>) (PartitionMap oc)
          | None \<Rightarrow> PartitionMap oc),
        lastRebalanceTime := now\<rparr>"

section \<open>The commit tick\<close>

datatype commit_error = ErrBrokerCommitFailed string | ErrGuardTimeout | NilDereference

text \<open>The loop that gathers the batch, partition by partition.\<close>

fun gatherCommits ::
  "nexus \<Rightarrow> time \<Rightarrow> partition set \<Rightarrow> (partition \<times> 'a tracker) list \<Rightarrow>
   (partition \<times> 'a tracker) list \<times> 'a message list \<times> 'a work_item list" where
  "gatherCommits nx now asg [] = ([], [], [])"
| "gatherCommits nx now asg ((p, t) # pm) =
     (let (t', m, col) = gatherTracker nx now (p \<in> asg) t;
          (pm', ms, cols) = gatherCommits nx now asg pm
      in ((p, t') # pm', (case m of None \<Rightarrow> ms | Some x \<Rightarrow> x # ms), col @ cols))"

text \<open>The loop over the acknowledged messages; \<open>None\<close> is a nil dereference.\<close>

fun ackCommits :: "nexus \<Rightarrow> 'a message list \<Rightarrow> 'a committer \<Rightarrow> 'a committer option" where
  "ackCommits nx [] oc = Some oc"
| "ackCommits nx (m # ms) oc =
     (case map_of (PartitionMap oc) (msg_Partition m) of
        None \<Rightarrow> None
      | Some t \<Rightarrow>
          (case ackTracker m t of
             None \<Rightarrow> None
           | Some (t', col) \<Rightarrow>
               ackCommits nx ms (collectAll nx col
                 (oc\<lparr>PartitionMap := AList.update (msg_Partition m) t' (PartitionMap oc)\<rparr>))))"

text \<open>
  \<open>CommitOffsets\<close>. \<open>broker\<close> is the adapter's commit callback, which returns an error or
  \<open>None\<close>; \<open>acquired\<close> is the outcome of the select on the commit guard and its timeout. The
  result has the batch that was offered to the broker, if one was.
\<close>

definition gatherState ::
  "nexus \<Rightarrow> time \<Rightarrow> 'a committer \<Rightarrow> 'a message list \<times> 'a committer" where
  "gatherState nx now oc =
     (let oc1 = flushGapBuffers nx now oc;
          (pm, commits, col) = gatherCommits nx now (assigned oc1) (PartitionMap oc1)
      in (commits, collectAll nx col (oc1\<lparr>PartitionMap := pm\<rparr>)))"

definition CommitOffsets ::
  "nexus \<Rightarrow> time \<Rightarrow> ('a message list \<Rightarrow> string option) \<Rightarrow> bool \<Rightarrow> 'a committer \<Rightarrow>
   commit_error option \<times> 'a message list \<times> 'a committer" where
  "CommitOffsets nx now broker acquired oc =
     (if \<not> acquired then (Some ErrGuardTimeout, [], oc)
      else
        (let (commits, oc2) = gatherState nx now oc in
         if length commits > 0 then
           (case broker commits of
              Some e \<Rightarrow> (Some (ErrBrokerCommitFailed e), commits, oc2)
            | None \<Rightarrow>
                (case ackCommits nx commits oc2 of
                   None \<Rightarrow> (Some NilDereference, commits, oc2)
                 | Some oc3 \<Rightarrow> (None, commits, oc3)))
         else (None, [], oc2)))"

section \<open>Projections\<close>

lemma return_simps [simp, committer_simps]:
  "PartitionMap (returnMessageAndCollectMetrics nx w oc) = PartitionMap oc"
  "assigned (returnMessageAndCollectMetrics nx w oc) = assigned oc"
  "commitsIn (returnMessageAndCollectMetrics nx w oc) = commitsIn oc"
  "drained (returnMessageAndCollectMetrics nx w oc) = drained oc"
  "lastRebalanceTime (returnMessageAndCollectMetrics nx w oc) = lastRebalanceTime oc"
  "collected (returnMessageAndCollectMetrics nx w oc) = collected oc @ [w]"
  "totalProcessed (returnMessageAndCollectMetrics nx w oc) = totalProcessed oc + 1"
  by (simp_all add: returnMessageAndCollectMetrics_def Let_def)

lemma collectAll_simps [simp, committer_simps]:
  "PartitionMap (collectAll nx ws oc) = PartitionMap oc"
  "assigned (collectAll nx ws oc) = assigned oc"
  "commitsIn (collectAll nx ws oc) = commitsIn oc"
  "drained (collectAll nx ws oc) = drained oc"
  "lastRebalanceTime (collectAll nx ws oc) = lastRebalanceTime oc"
  "collected (collectAll nx ws oc) = collected oc @ ws"
  "totalProcessed (collectAll nx ws oc) = totalProcessed oc + int (length ws)"
  by (induction ws arbitrary: oc) (simp_all add: collectAll_def)

lemma processCommit_simps [simp, committer_simps]:
  "PartitionMap (processCommit nx now w oc) = AList.update (wi_partition w)
     (fst (processTracker nx now w (map_of (PartitionMap oc) (wi_partition w)))) (PartitionMap oc)"
  "assigned (processCommit nx now w oc) = assigned oc"
  "commitsIn (processCommit nx now w oc) = commitsIn oc"
  "collected (processCommit nx now w oc) = collected oc @
     snd (processTracker nx now w (map_of (PartitionMap oc) (wi_partition w)))"
  by (simp_all add: processCommit_def PartitionOffset_def Let_def case_prod_beta)

lemma flushGapBuffers_simps [simp, committer_simps]:
  "PartitionMap (flushGapBuffers nx now oc) =
     map (\<lambda>(p, t). (p, fst (flushTracker nx now t))) (PartitionMap oc)"
  "assigned (flushGapBuffers nx now oc) = assigned oc"
  "commitsIn (flushGapBuffers nx now oc) = commitsIn oc"
  "collected (flushGapBuffers nx now oc) = collected oc @
     concat (map (\<lambda>(p, t). snd (flushTracker nx now t)) (PartitionMap oc))"
  by (simp_all add: flushGapBuffers_def)

lemma fold_processCommit_simps [simp, committer_simps]:
  "commitsIn (fold (processCommit nx now) ws oc) = commitsIn oc"
  "assigned (fold (processCommit nx now) ws oc) = assigned oc"
  by (induction ws arbitrary: oc) simp_all

lemma ingestBatch_simps [simp, committer_simps]:
  "commitsIn (ingestBatch nx now oc) = drop readBatchSize (commitsIn oc)"
  "assigned (ingestBatch nx now oc) = assigned oc"
  by (auto simp: ingestBatch_def Let_def)

section \<open>Drain\<close>

definition surfaceFinalCommit ::
  "nexus \<Rightarrow> time \<Rightarrow> ('a message list \<Rightarrow> string option) \<Rightarrow> bool \<Rightarrow> 'a committer \<Rightarrow>
   commit_error option \<times> 'a message list \<times> 'a committer" where
  "surfaceFinalCommit nx now broker acquired oc =
     (let (err, sent, oc') = CommitOffsets nx now broker acquired oc in
      case err of
        None \<Rightarrow> (None, sent, oc')
      | Some (ErrBrokerCommitFailed e) \<Rightarrow> (None, sent, oc')
      | Some e \<Rightarrow> (Some e, sent, oc'))"

text \<open>
  While \<open>DrainCommitter\<close> waits, the ingest loop runs. \<open>ingestUntilEmpty\<close> is its run up to
  the point where the channel is empty, which sets the drained token the waiter takes.
\<close>

function ingestUntilEmpty :: "nexus \<Rightarrow> time \<Rightarrow> 'a committer \<Rightarrow> 'a committer" where
  "ingestUntilEmpty nx now oc =
     (if commitsIn oc = [] then oc else ingestUntilEmpty nx now (ingestBatch nx now oc))"
  by pat_completeness auto
termination
  by (relation "measure (\<lambda>(nx, now, oc). length (commitsIn oc))") (auto simp: readBatchSize_def)

declare ingestUntilEmpty.simps [simp del]

datatype drain_error = DrainTimeout | DrainCommitError commit_error

text \<open>
  \<open>timeoutAfter\<close> is \<open>Some k\<close> when the drain timer fires first, after \<open>k\<close> batches, and
  \<open>None\<close> when the drained token arrives first.
\<close>

definition DrainCommitter ::
  "nexus \<Rightarrow> time \<Rightarrow> ('a message list \<Rightarrow> string option) \<Rightarrow> bool \<Rightarrow> nat option \<Rightarrow> 'a committer \<Rightarrow>
   drain_error option \<times> 'a message list \<times> 'a committer" where
  "DrainCommitter nx now broker acquired timeoutAfter oc =
     (let oc0 = oc\<lparr>drained := False\<rparr>;
          finish = (\<lambda>oc'. let (err, sent, oc'') = surfaceFinalCommit nx now broker acquired oc'
                         in (map_option DrainCommitError err, sent, oc''))
      in if length (commitsIn oc0) = 0 then finish oc0
         else
           (case timeoutAfter of
              None \<Rightarrow> finish ((ingestUntilEmpty nx now oc0)\<lparr>drained := False\<rparr>)
            | Some k \<Rightarrow>
                (let (err, sent, oc') = CommitOffsets nx now broker acquired
                       ((ingestBatch nx now ^^ k) oc0)
                 in (Some DrainTimeout, sent, oc'))))"

section \<open>Reading the state for a snapshot\<close>

record PartitionSnapshot =
  ps_Partition :: partition
  ps_CommittedOffset :: int
  ps_HighestReadyOffset :: int
  ps_MaxOffsetSeen :: int
  ps_GapBufferDepth :: nat
  ps_Assigned :: bool

definition partitionSnapshot :: "partition \<Rightarrow> 'a tracker \<Rightarrow> PartitionSnapshot" where
  "partitionSnapshot p t =
     (let committedOffset = CommittedPlusOne t - 1;
          readyOffset = (case Ready t of Some r \<Rightarrow> wi_offset r | None \<Rightarrow> committedOffset);
          committedOffset' = (if committedOffset < -1 then -1 else committedOffset)
      in \<lparr>ps_Partition = p, ps_CommittedOffset = committedOffset',
          ps_HighestReadyOffset = readyOffset, ps_MaxOffsetSeen = MaxOffsetSeen t,
          ps_GapBufferDepth = length (GapBuffer t), ps_Assigned = (Assignment t = Assign)\<rparr>)"

definition PreCommitsSnapshot :: "'a committer \<Rightarrow> time \<times> PartitionSnapshot list" where
  "PreCommitsSnapshot oc =
     (lastRebalanceTime oc, map (\<lambda>(p, t). partitionSnapshot p t) (PartitionMap oc))"

definition committerWindowData :: "'a committer \<Rightarrow> WindowData" where
  "committerWindowData oc =
     (windowData (metricsBuffer oc))\<lparr>wd_TotalProcessed := totalProcessed oc\<rparr>"

section \<open>Lifting a tracker invariant to the committer\<close>

text \<open>
  What a tracker invariant has to promise, operation by operation, for the committer to
  keep it on every partition. \<open>okw\<close> are the work items that may arrive and \<open>okb\<close> the
  baselines an assignment may bring.
\<close>

definition all_trackers :: "(partition \<Rightarrow> 'a tracker \<Rightarrow> bool) \<Rightarrow> 'a committer \<Rightarrow> bool" where
  "all_trackers P oc \<longleftrightarrow> (\<forall>(p, t) \<in> set (PartitionMap oc). P p t)"

lemma all_trackers_lookup: "all_trackers P oc \<Longrightarrow> map_of (PartitionMap oc) p = Some t \<Longrightarrow> P p t"
  by (auto simp: all_trackers_def dest: map_of_SomeD)

lemma all_trackers_update:
  "all_trackers P oc \<Longrightarrow> P p t \<Longrightarrow> all_trackers P (oc\<lparr>PartitionMap := AList.update p t (PartitionMap oc)\<rparr>)"
  by (auto simp: all_trackers_def dest!: set_update_cases)

lemma all_trackers_collect [simp]: "all_trackers P (collectAll nx ws oc) = all_trackers P oc"
  by (simp add: all_trackers_def)

text \<open>A batch that the acknowledgement loop can process without dereferencing nil.\<close>

definition ackable :: "'a message list \<Rightarrow> 'a committer \<Rightarrow> bool" where
  "ackable ms oc \<longleftrightarrow> distinct (map msg_Partition ms) \<and>
     (\<forall>m \<in> set ms. \<exists>t r. map_of (PartitionMap oc) (msg_Partition m) = Some t \<and> Ready t = Some r \<and>
        wi_Message r = m \<and> CommittedPlusOne t \<le> wi_offset r)"

lemma ackTracker_Ready: "Ready t = Some r \<Longrightarrow> \<exists>t'. ackTracker m t = Some (t', [r])"
  by (simp add: ackTracker_def Let_def)

lemma ackable_step:
  assumes "ackable (m # ms) oc"
  obtains t r t' where "map_of (PartitionMap oc) (msg_Partition m) = Some t" "Ready t = Some r"
    "wi_Message r = m" "CommittedPlusOne t \<le> wi_offset r" "ackTracker m t = Some (t', [r])"
    "ackCommits nx (m # ms) oc = ackCommits nx ms (collectAll nx [r]
       (oc\<lparr>PartitionMap := AList.update (msg_Partition m) t' (PartitionMap oc)\<rparr>))"
    "ackable ms (collectAll nx [r] (oc\<lparr>PartitionMap := AList.update (msg_Partition m) t' (PartitionMap oc)\<rparr>))"
proof -
  from assms obtain t r where t: "map_of (PartitionMap oc) (msg_Partition m) = Some t"
    "Ready t = Some r" "wi_Message r = m" "CommittedPlusOne t \<le> wi_offset r"
    by (auto simp: ackable_def)
  obtain t' where t': "ackTracker m t = Some (t', [r])" using ackTracker_Ready [OF t(2)] by blast
  have "msg_Partition x \<noteq> msg_Partition m" if "x \<in> set ms" for x
    using assms that by (auto simp: ackable_def)
  with assms have "ackable ms (collectAll nx [r]
      (oc\<lparr>PartitionMap := AList.update (msg_Partition m) t' (PartitionMap oc)\<rparr>))"
    by (auto simp: ackable_def)
  with t t' that show ?thesis by simp
qed

locale tracker_invariant =
  fixes nx :: nexus
    and P :: "partition \<Rightarrow> 'a tracker \<Rightarrow> bool"
    and okw :: "'a work_item \<Rightarrow> bool"
    and okb :: "partition \<Rightarrow> int \<Rightarrow> bool"
  assumes process: "okw w \<Longrightarrow> (\<And>t. ot = Some t \<Longrightarrow> P (wi_partition w) t) \<Longrightarrow>
      processTracker nx now w ot = (t', col) \<Longrightarrow> P (wi_partition w) t'"
    and flush: "P p t \<Longrightarrow> flushTracker nx now t = (t', col) \<Longrightarrow> P p t'"
    and reset: "okb p b \<Longrightarrow> (\<And>t. ot = Some t \<Longrightarrow> P p t) \<Longrightarrow>
      resetTracker nx b ot = (t', col) \<Longrightarrow> P p t'"
    and gather: "P p t \<Longrightarrow> gatherTracker nx now a t = (t', m, col) \<Longrightarrow> P p t'"
    and ack: "P p t \<Longrightarrow> Ready t = Some r \<Longrightarrow> CommittedPlusOne t \<le> wi_offset r \<Longrightarrow>
      ackTracker (wi_Message r) t = Some (t', col) \<Longrightarrow> P p t'"
    and revoke: "P p t \<Longrightarrow> P p (t\<lparr>Assignment := Revoke\<rparr>)"
begin

lemma processCommit_inv:
  assumes "all_trackers P oc" "okw w"
  shows "all_trackers P (processCommit nx now w oc)"
proof -
  obtain t' col where t': "processTracker nx now w (map_of (PartitionMap oc) (wi_partition w)) = (t', col)"
    by fastforce
  have "P (wi_partition w) t'"
    by (rule process [OF assms(2) _ t']) (rule all_trackers_lookup [OF assms(1)])
  with assms(1) t' show ?thesis
    by (auto simp: processCommit_def PartitionOffset_def intro: all_trackers_update)
qed

lemma flushGapBuffers_inv: "all_trackers P oc \<Longrightarrow> all_trackers P (flushGapBuffers nx now oc)"
  by (auto simp: all_trackers_def intro: flush [OF _ prod.collapse [symmetric]])

lemma fold_processCommit_inv:
  "all_trackers P oc \<Longrightarrow> \<forall>w \<in> set ws. okw w \<Longrightarrow> all_trackers P (fold (processCommit nx now) ws oc)"
  by (induction ws arbitrary: oc) (auto intro: processCommit_inv)

lemma commitsIn_irrelevant [simp]:
  "all_trackers P (oc\<lparr>commitsIn := xs\<rparr>) = all_trackers P oc"
  "all_trackers P (oc\<lparr>drained := d\<rparr>) = all_trackers P oc"
  by (simp_all add: all_trackers_def)

lemma ingestBatch_inv:
  assumes "all_trackers P oc" "\<forall>w \<in> set (commitsIn oc). okw w"
  shows "all_trackers P (ingestBatch nx now oc)"
proof -
  define batch rest where "batch = take readBatchSize (commitsIn oc)"
    and "rest = drop readBatchSize (commitsIn oc)"
  have "\<forall>w \<in> set batch. okw w"
    using assms(2) unfolding batch_def by (meson in_set_takeD)
  then have "all_trackers P (flushGapBuffers nx now (fold (processCommit nx now) batch (oc\<lparr>commitsIn := rest\<rparr>)))"
    using assms(1) by (intro flushGapBuffers_inv fold_processCommit_inv) simp_all
  with assms(1) show ?thesis
    unfolding ingestBatch_def batch_def [symmetric] rest_def [symmetric] by (auto simp: Let_def)
qed

lemma reset_inv:
  "all_trackers P oc \<Longrightarrow> \<forall>(p, b) \<in> set pbs. okb p b \<Longrightarrow> all_trackers P (ResetCommittedOffsets nx pbs oc)"
  unfolding ResetCommittedOffsets_def
proof (induction pbs arbitrary: oc)
  case (Cons pb pbs)
  obtain p b where pb: "pb = (p, b)" by fastforce
  obtain t' col where t': "resetTracker nx b (map_of (PartitionMap oc) p) = (t', col)" by fastforce
  have "okb p b" using Cons.prems(2) pb by simp
  then have "P p t'" by (rule reset [OF _ _ t']) (rule all_trackers_lookup [OF Cons.prems(1)])
  then have "all_trackers P (collectAll nx col (oc\<lparr>PartitionMap := AList.update p t' (PartitionMap oc)\<rparr>))"
    using Cons.prems(1) by (simp add: all_trackers_update)
  with Cons pb t' show ?case by simp
qed simp

lemma assign_inv: "all_trackers P oc \<Longrightarrow> all_trackers P (MarkPartitionAssigned now p oc)"
  by (simp add: MarkPartitionAssigned_def all_trackers_def)

lemma revoke_inv:
  assumes "all_trackers P oc"
  shows "all_trackers P (MarkPartitionRevoked now p oc)"
proof (cases "map_of (PartitionMap oc) p")
  case (Some t)
  then have "P p (t\<lparr>Assignment := Revoke\<rparr>)" using all_trackers_lookup [OF assms] revoke by blast
  with assms Some all_trackers_update [OF assms this] show ?thesis
    by (simp add: MarkPartitionRevoked_def all_trackers_def)
qed (use assms in \<open>simp add: MarkPartitionRevoked_def all_trackers_def\<close>)

lemma gatherCommits_inv:
  "\<forall>(p, t) \<in> set pm. P p t \<Longrightarrow> gatherCommits nx now asg pm = (pm', ms, col) \<Longrightarrow> \<forall>(p, t) \<in> set pm'. P p t"
proof (induction pm arbitrary: pm' ms col)
  case (Cons pt pm)
  obtain p t where pt: "pt = (p, t)" by fastforce
  obtain t1 m col1 where g: "gatherTracker nx now (p \<in> asg) t = (t1, m, col1)" by (metis prod_cases3)
  obtain pm1 ms1 cols1 where gs: "gatherCommits nx now asg pm = (pm1, ms1, cols1)" by (metis prod_cases3)
  from Cons.prems(1) pt have "P p t1" using gather [OF _ g] by simp
  moreover have "\<forall>(p, t) \<in> set pm1. P p t" using Cons.IH [OF _ gs] Cons.prems(1) by simp
  moreover have "pm' = (p, t1) # pm1" using Cons.prems(2) pt g gs by simp
  ultimately show ?case by simp
qed simp

lemma gatherState_inv:
  assumes "all_trackers P oc" "gatherState nx now oc = (ms, oc')"
  shows "all_trackers P oc'"
proof -
  let ?oc1 = "flushGapBuffers nx now oc"
  obtain pm ms1 col where g: "gatherCommits nx now (assigned ?oc1) (PartitionMap ?oc1) = (pm, ms1, col)"
    by (metis prod_cases3)
  have "\<forall>(p, t) \<in> set pm. P p t"
    using gatherCommits_inv [OF _ g] flushGapBuffers_inv [OF assms(1), of now]
    by (simp only: all_trackers_def)
  moreover have "oc' = collectAll nx col (?oc1\<lparr>PartitionMap := pm\<rparr>)"
    using assms(2) g by (simp add: gatherState_def Let_def)
  ultimately show ?thesis by (simp add: all_trackers_def)
qed

lemma ackCommits_inv:
  "all_trackers P oc \<Longrightarrow> ackable ms oc \<Longrightarrow> ackCommits nx ms oc = Some oc' \<Longrightarrow> all_trackers P oc'"
proof (induction ms arbitrary: oc)
  case (Cons m ms)
  from Cons.prems(2) show ?case
  proof (rule ackable_step [where nx = nx])
    fix t r t'
    assume t: "map_of (PartitionMap oc) (msg_Partition m) = Some t" "Ready t = Some r"
      "wi_Message r = m" "CommittedPlusOne t \<le> wi_offset r" "ackTracker m t = Some (t', [r])"
      and eq: "ackCommits nx (m # ms) oc = ackCommits nx ms (collectAll nx [r]
        (oc\<lparr>PartitionMap := AList.update (msg_Partition m) t' (PartitionMap oc)\<rparr>))"
      and ok: "ackable ms (collectAll nx [r]
        (oc\<lparr>PartitionMap := AList.update (msg_Partition m) t' (PartitionMap oc)\<rparr>))"
    have "P (msg_Partition m) t'"
      using ack [OF all_trackers_lookup [OF Cons.prems(1) t(1)] t(2,4)] t(3,5) by blast
    then show ?case
      using Cons.IH [OF _ ok] Cons.prems(1,3) eq by (simp add: all_trackers_update)
  qed
qed simp

end

end
