(* ===== verification/Committer_Invariants.thy ===== *)
theory Committer_Invariants
  imports Committer
begin

text \<open>
  The invariants of the committer that do not depend on the broker: the partition map is a
  map, every tracker holds items of its own partition only, the acknowledgement loop never
  dereferences nil, commits are sent for owned partitions at or above the baseline only,
  and every work item is accounted for.
\<close>

section \<open>Item predicates\<close>

definition holds_items :: "(partition \<Rightarrow> nat \<times> 'a message \<times> int \<times> bool \<Rightarrow> bool) \<Rightarrow> partition \<Rightarrow> 'a tracker \<Rightarrow> bool" where
  "holds_items Q p t \<longleftrightarrow> (\<forall>w \<in> set (held t). Q p (core w))"

lemma holds_items_cores:
  assumes "set_mset (cores (held t')) \<subseteq> set_mset M" "\<forall>x \<in># M. Q p x"
  shows "holds_items Q p t'"
  using assms by (auto simp: holds_items_def)

lemma cores_add_subset: "A + B = (M :: 'b multiset) \<Longrightarrow> set_mset A \<subseteq> set_mset M"
  by auto

text \<open>A predicate on the items' identities is kept by every operation of a tracker.\<close>

interpretation items: tracker_invariant nx "holds_items Q" "\<lambda>w. Q (wi_partition w) (core w)" "\<lambda>_ _. True" for nx Q
proof
  fix w :: "'a work_item" and ot :: "'a tracker option" and now t' col
  assume w: "Q (wi_partition w) (core w)" and ot: "\<And>t. ot = Some t \<Longrightarrow> holds_items Q (wi_partition w) t"
    and t': "processTracker nx now w ot = (t', col)"
  show "holds_items Q (wi_partition w) t'"
    by (rule holds_items_cores [OF cores_add_subset [OF processTracker_cores [OF t']]])
      (use w ot in \<open>auto simp: holds_items_def heldOpt_def split: option.splits\<close>)
next
  fix p t now t' col
  assume "holds_items Q p t" "flushTracker nx now t = (t', col)"
  then show "holds_items Q p t'"
    using set_mset_mono [OF flushTracker_cores_subset [of nx now t t' col]]
    by (intro holds_items_cores [where M = "cores (held t)"]) (auto simp: holds_items_def)
next
  fix p b t' col and ot :: "'a tracker option"
  assume "\<And>t. ot = Some t \<Longrightarrow> holds_items Q p t" "resetTracker nx b ot = (t', col)"
  then show "holds_items Q p t'"
    using cores_add_subset [OF resetTracker_cores [of nx b ot t' col]]
    by (intro holds_items_cores [where M = "cores (heldOpt ot)"])
      (auto simp: holds_items_def heldOpt_def split: option.splits)
next
  fix p now a t t' m col
  assume Q: "holds_items Q p t" and g: "gatherTracker nx now a t = (t', m, col)"
  have rep: "holds_items Q p t1" if "repairSuccessor nx now t = (t1, col1)" for t1 col1
    using Q repairSuccessor_subset [OF that] by (fastforce simp: holds_items_def)
  from g show "holds_items Q p t'"
  proof (cases rule: gatherTracker_cases)
    case discard
    then show ?thesis using discardOrphanedTracker_cores [OF discard(3)] by (simp add: holds_items_def)
  next
    case none
    then show ?thesis by (blast intro: rep)
  next
    case (stale t1 col1 w)
    then have "holds_items Q p t1" using Q rep by (auto split: if_splits)
    with stale show ?thesis by (auto simp: holds_items_def held_def)
  next
    case (commit w)
    then show ?thesis using Q rep by (auto split: if_splits)
  qed
next
  fix p t r t' col
  assume "holds_items Q p t" "ackTracker (wi_Message r) t = Some (t', col)"
  then show "holds_items Q p t'"
    using cores_add_subset [OF ackTracker_cores [of "wi_Message r" t t' col]]
    by (intro holds_items_cores [where M = "cores (held t)"]) (auto simp: holds_items_def)
qed (simp add: holds_items_def held_def)

section \<open>Well-formedness\<close>

definition own_core :: "partition \<Rightarrow> nat \<times> 'a message \<times> int \<times> bool \<Rightarrow> bool" where
  "own_core p x \<longleftrightarrow> msg_Partition (fst (snd x)) = p"

lemma own_core_self [simp]: "own_core p (core w) \<longleftrightarrow> wi_partition w = p"
  by (simp add: own_core_def core_def)

abbreviation own_items :: "partition \<Rightarrow> 'a tracker \<Rightarrow> bool" where
  "own_items \<equiv> holds_items own_core"

definition committer_wf :: "'a committer \<Rightarrow> bool" where
  "committer_wf oc \<longleftrightarrow> distinct (map fst (PartitionMap oc)) \<and> all_trackers own_items oc"

lemma committer_wf_update:
  "committer_wf oc \<Longrightarrow> own_items p t \<Longrightarrow> committer_wf (oc\<lparr>PartitionMap := AList.update p t (PartitionMap oc)\<rparr>)"
  by (simp add: committer_wf_def distinct_update all_trackers_update)

lemma committer_wf_frame [simp]:
  "committer_wf (collectAll nx ws oc) = committer_wf oc"
  "committer_wf (oc\<lparr>commitsIn := xs\<rparr>) = committer_wf oc"
  "committer_wf (oc\<lparr>drained := d\<rparr>) = committer_wf oc"
  by (simp_all add: committer_wf_def all_trackers_def)

lemma NewCommitter_wf: "committer_wf (NewCommitter now)"
  by (simp add: committer_wf_def NewCommitter_def all_trackers_def)

lemma processCommit_wf: "committer_wf oc \<Longrightarrow> committer_wf (processCommit nx now w oc)"
  using items.processCommit_inv [of own_core oc w nx now] by (simp add: committer_wf_def distinct_update)

lemma fold_processCommit_wf: "committer_wf oc \<Longrightarrow> committer_wf (fold (processCommit nx now) ws oc)"
  by (induction ws arbitrary: oc) (simp_all add: processCommit_wf)

lemma map_fst_flush [simp]:
  "map fst (PartitionMap (flushGapBuffers nx now oc)) = map fst (PartitionMap oc)"
  by (simp add: comp_def case_prod_unfold)

lemma flushGapBuffers_wf: "committer_wf oc \<Longrightarrow> committer_wf (flushGapBuffers nx now oc)"
  using items.flushGapBuffers_inv [of own_core oc nx now] map_fst_flush [of nx now oc]
  unfolding committer_wf_def by argo

lemma ingestBatch_wf: "committer_wf oc \<Longrightarrow> committer_wf (ingestBatch nx now oc)"
  by (simp add: ingestBatch_def Let_def flushGapBuffers_wf fold_processCommit_wf)

lemma resetPartitions_keys:
  "distinct (map fst (PartitionMap oc)) \<Longrightarrow> distinct (map fst (PartitionMap (resetPartitions nx pbs oc)))"
  by (induction nx pbs oc rule: resetPartitions.induct)
    (simp_all add: distinct_update case_prod_beta Let_def)

lemma ResetCommittedOffsets_wf: "committer_wf oc \<Longrightarrow> committer_wf (ResetCommittedOffsets nx pbs oc)"
  using items.reset_inv [of own_core oc pbs nx] resetPartitions_keys [of oc nx pbs]
  by (simp add: committer_wf_def ResetCommittedOffsets_def case_prod_unfold)

lemma MarkPartitionAssigned_wf: "committer_wf oc \<Longrightarrow> committer_wf (MarkPartitionAssigned now p oc)"
  by (simp add: MarkPartitionAssigned_def committer_wf_def all_trackers_def)

lemma MarkPartitionRevoked_wf: "committer_wf oc \<Longrightarrow> committer_wf (MarkPartitionRevoked now p oc)"
  using items.revoke_inv [of own_core oc now p]
  by (auto simp: committer_wf_def MarkPartitionRevoked_def distinct_update split: option.splits)

section \<open>The gathered batch\<close>

lemma gatherCommits_keys:
  "gatherCommits nx now asg pm = (pm', ms, col) \<Longrightarrow> map fst pm' = map fst pm"
  by (induction pm arbitrary: pm' ms col) (auto simp: Let_def split: prod.splits)

lemma gatherTracker_message:
  assumes "gatherTracker nx now a t = (t', Some m, col)"
  shows "a \<and> (\<exists>r. Ready t' = Some r \<and> wi_Message r = m \<and> CommittedPlusOne t' \<le> msg_Offset m)"
  using assms by (cases rule: gatherTracker_cases) auto

definition offered :: "partition set \<Rightarrow> (partition \<times> 'a tracker) list \<Rightarrow> 'a message \<Rightarrow> bool" where
  "offered asg pm m \<longleftrightarrow> msg_Partition m \<in> asg \<and>
     (\<exists>t r. map_of pm (msg_Partition m) = Some t \<and> Ready t = Some r \<and> wi_Message r = m \<and>
        CommittedPlusOne t \<le> wi_offset r)"

lemma offered_Cons: "offered asg pm m \<Longrightarrow> msg_Partition m \<noteq> p \<Longrightarrow> offered asg ((p, t) # pm) m"
  by (simp add: offered_def)

lemma gatherCommits_batch:
  assumes "gatherCommits nx now asg pm = (pm', ms, col)" "distinct (map fst pm)"
    "\<forall>(p, t) \<in> set pm'. own_items p t"
  shows "distinct (map msg_Partition ms) \<and> (\<forall>m \<in> set ms. msg_Partition m \<in> fst ` set pm \<and> offered asg pm' m)"
  using assms
proof (induction pm arbitrary: pm' ms col)
  case (Cons pt pm)
  obtain p t where pt: "pt = (p, t)" by fastforce
  obtain t1 m col1 where g: "gatherTracker nx now (p \<in> asg) t = (t1, m, col1)" by (metis prod_cases3)
  obtain pm1 ms1 cols1 where gs: "gatherCommits nx now asg pm = (pm1, ms1, cols1)" by (metis prod_cases3)
  have res: "pm' = (p, t1) # pm1" "ms = (case m of None \<Rightarrow> ms1 | Some x \<Rightarrow> x # ms1)"
    using Cons.prems(1) pt g gs by simp_all
  have p: "p \<notin> fst ` set pm" using Cons.prems(2) pt by simp
  have "distinct (map msg_Partition ms1) \<and> (\<forall>m \<in> set ms1. msg_Partition m \<in> fst ` set pm \<and> offered asg pm1 m)"
    using Cons.IH [OF gs] Cons.prems(2,3) res(1) pt by simp
  then have IH: "distinct (map msg_Partition ms1)"
    "\<And>x. x \<in> set ms1 \<Longrightarrow> msg_Partition x \<in> fst ` set pm \<and> msg_Partition x \<noteq> p \<and> offered asg pm' x"
    using p unfolding res(1) by (auto intro!: offered_Cons)
  show ?case
  proof (cases m)
    case None
    with IH res(2) pt show ?thesis by simp
  next
    case (Some x)
    from gatherTracker_message [OF g [unfolded Some]] obtain r where r: "p \<in> asg" "Ready t1 = Some r"
      "wi_Message r = x" "CommittedPlusOne t1 \<le> msg_Offset x" by blast
    from r(2,3) Cons.prems(3) res(1) have x: "msg_Partition x = p"
      by (simp add: holds_items_def held_def)
    with r res(1) have "offered asg pm' x" by (simp add: offered_def)
    with IH x res(2) pt Some show ?thesis by force
  qed
qed simp

lemma gatherState_wf:
  assumes "committer_wf oc" "gatherState nx now oc = (ms, oc')"
  shows "committer_wf oc'"
proof -
  obtain pm ms1 col where g: "gatherCommits nx now (assigned oc)
      (PartitionMap (flushGapBuffers nx now oc)) = (pm, ms1, col)" by (metis prod_cases3)
  with assms(2) have oc': "oc' = collectAll nx col ((flushGapBuffers nx now oc)\<lparr>PartitionMap := pm\<rparr>)"
    by (simp add: gatherState_def)
  have "distinct (map fst pm)"
    using gatherCommits_keys [OF g] flushGapBuffers_wf [OF assms(1), of nx now]
    by (simp only: committer_wf_def)
  moreover have "all_trackers own_items oc'"
    using items.gatherState_inv [OF _ assms(2)] assms(1) by (simp add: committer_wf_def)
  ultimately show ?thesis using oc' by (simp add: committer_wf_def)
qed

text \<open>
  What is offered to the broker: at most one message per partition, of owned partitions
  only, each the message of the partition's \<open>Ready\<close> and not below its baseline.
\<close>

lemma gatherState_batch:
  assumes "committer_wf oc" "gatherState nx now oc = (ms, oc')"
  shows "ackable ms oc' \<and> (\<forall>m \<in> set ms. msg_Partition m \<in> assigned oc)"
proof -
  obtain pm ms1 col where g: "gatherCommits nx now (assigned oc)
      (PartitionMap (flushGapBuffers nx now oc)) = (pm, ms1, col)" by (metis prod_cases3)
  with assms(2) have oc': "ms = ms1"
    "oc' = collectAll nx col ((flushGapBuffers nx now oc)\<lparr>PartitionMap := pm\<rparr>)"
    by (simp_all add: gatherState_def)
  have "distinct (map fst (PartitionMap (flushGapBuffers nx now oc)))"
    using flushGapBuffers_wf [OF assms(1)] by (simp only: committer_wf_def)
  moreover have "\<forall>(p, t) \<in> set pm. own_items p t"
    using gatherState_wf [OF assms] oc' by (simp add: committer_wf_def all_trackers_def)
  ultimately show ?thesis
    using gatherCommits_batch [OF g] oc' by (simp add: ackable_def offered_def)
qed

lemma ackable_ackCommits: "ackable ms oc \<Longrightarrow> \<exists>oc'. ackCommits nx ms oc = Some oc'"
proof (induction ms arbitrary: oc)
  case (Cons m ms)
  from Cons.prems show ?case
    by (rule ackable_step [where nx = nx]) (metis Cons.IH)
qed simp

lemma ackCommits_keys:
  "ackCommits nx ms oc = Some oc' \<Longrightarrow> distinct (map fst (PartitionMap oc)) \<Longrightarrow>
   distinct (map fst (PartitionMap oc'))"
  by (induction ms arbitrary: oc) (auto simp: distinct_update split: option.splits)

lemma ackCommits_wf:
  assumes "committer_wf oc" "ackable ms oc" "ackCommits nx ms oc = Some oc'"
  shows "committer_wf oc'"
  using items.ackCommits_inv [OF _ assms(2,3)] ackCommits_keys [OF assms(3)] assms(1)
  by (simp add: committer_wf_def)

lemma CommitOffsets_cases:
  assumes "CommitOffsets nx now broker acq oc = (err, sent, oc')" "committer_wf oc"
  obtains (guard) "\<not> acq" "err = Some ErrGuardTimeout" "sent = []" "oc' = oc"
  | (idle) "acq" "gatherState nx now oc = ([], oc')" "err = None" "sent = []"
  | (failed) e where "acq" "gatherState nx now oc = (sent, oc')" "sent \<noteq> []" "broker sent = Some e"
      "err = Some (ErrBrokerCommitFailed e)"
  | (sent) oc2 where "acq" "gatherState nx now oc = (sent, oc2)" "sent \<noteq> []" "broker sent = None"
      "ackCommits nx sent oc2 = Some oc'" "err = None"
proof (cases acq)
  case False
  with assms(1) that(1) show ?thesis by (simp add: CommitOffsets_def)
next
  case True
  obtain ms oc2 where g: "gatherState nx now oc = (ms, oc2)" by fastforce
  from gatherState_batch [OF assms(2) g] ackable_ackCommits obtain oc3 where
    a: "ackCommits nx ms oc2 = Some oc3" by blast
  show ?thesis
  proof (cases "ms = []")
    case True
    with \<open>acq\<close> g assms(1) that(2) show ?thesis by (simp add: CommitOffsets_def)
  next
    case False
    show ?thesis
    proof (cases "broker ms")
      case None
      with False \<open>acq\<close> g a assms(1) that(4) show ?thesis by (simp add: CommitOffsets_def)
    next
      case (Some e)
      with False \<open>acq\<close> g assms(1) that(3) show ?thesis by (simp add: CommitOffsets_def)
    qed
  qed
qed

lemma CommitOffsets_wf:
  assumes "committer_wf oc" "CommitOffsets nx now broker acq oc = (err, sent, oc')"
  shows "committer_wf oc'"
  using assms(2,1)
proof (cases rule: CommitOffsets_cases)
  case (sent oc2)
  then show ?thesis
    using ackCommits_wf gatherState_wf gatherState_batch assms(1) by blast
qed (use assms(1) gatherState_wf in blast)+

lemma ingestUntilEmpty_wf: "committer_wf oc \<Longrightarrow> committer_wf (ingestUntilEmpty nx now oc)"
proof (induction nx now oc rule: ingestUntilEmpty.induct)
  case (1 nx now oc)
  then show ?case by (subst ingestUntilEmpty.simps) (simp add: ingestBatch_wf)
qed

lemma commitsIn_ingestUntilEmpty [simp]: "commitsIn (ingestUntilEmpty nx now oc) = []"
proof (induction nx now oc rule: ingestUntilEmpty.induct)
  case (1 nx now oc)
  then show ?case by (subst ingestUntilEmpty.simps) simp
qed

section \<open>Baselines\<close>

text \<open>
  The baseline of a partition: what the committer will not commit below. A partition with
  no tracker has the value a new tracker starts from.
\<close>

definition baseline :: "'a committer \<Rightarrow> partition \<Rightarrow> int" where
  "baseline oc p = (case map_of (PartitionMap oc) p of None \<Rightarrow> -1 | Some t \<Rightarrow> CommittedPlusOne t)"

lemma baseline_frame [simp]:
  "baseline (collectAll nx ws oc) = baseline oc"
  "baseline (oc\<lparr>commitsIn := xs\<rparr>) = baseline oc"
  "baseline (oc\<lparr>drained := d\<rparr>) = baseline oc"
  by (simp_all add: baseline_def fun_eq_iff)

lemma baseline_lookup: "map_of (PartitionMap oc) p = Some t \<Longrightarrow> baseline oc p = CommittedPlusOne t"
  by (simp add: baseline_def)

lemma flushTracker_baseline [simp]: "CommittedPlusOne (fst (flushTracker nx now t)) = CommittedPlusOne t"
proof -
  obtain t' col where f: "flushTracker nx now t = (t', col)" by fastforce
  then have "CommittedPlusOne t' = CommittedPlusOne t" by (cases rule: flushTracker_cases) simp_all
  with f show ?thesis by simp
qed

lemma repairSuccessor_baseline: "repairSuccessor nx now t = (t', col) \<Longrightarrow> CommittedPlusOne t' = CommittedPlusOne t"
  by (erule repairSuccessor_cases) simp_all

lemma gatherTracker_baseline:
  assumes "gatherTracker nx now a t = (t', m, col)"
  shows "CommittedPlusOne t' = CommittedPlusOne t"
  using assms
proof (cases rule: gatherTracker_cases)
  case discard
  then show ?thesis by (auto simp: discardOrphanedTracker_def split: if_splits)
qed (auto dest: repairSuccessor_baseline split: if_splits)

lemma gatherCommits_lookup:
  assumes "gatherCommits nx now asg pm = (pm', ms, col)"
  shows "map_of pm' p = map_option (\<lambda>t. fst (gatherTracker nx now (p \<in> asg) t)) (map_of pm p)"
  using assms by (induction pm arbitrary: pm' ms col) (auto simp: Let_def split: prod.splits)

lemma gatherState_lookup:
  assumes "gatherState nx now oc = (ms, oc')"
  shows "map_of (PartitionMap oc') p = map_option
    (\<lambda>t. fst (gatherTracker nx now (p \<in> assigned oc) (fst (flushTracker nx now t)))) (map_of (PartitionMap oc) p)"
proof -
  obtain pm ms1 col where g: "gatherCommits nx now (assigned oc)
      (PartitionMap (flushGapBuffers nx now oc)) = (pm, ms1, col)" by (metis prod_cases3)
  with assms have "PartitionMap oc' = pm" by (auto simp: gatherState_def)
  then show ?thesis
    using gatherCommits_lookup [OF g]
    by (simp add: map_of_map_snd [where f = "\<lambda>_ t. fst (flushTracker nx now t)"] option.map_comp comp_def)
qed

lemma gatherState_frame:
  "gatherState nx now oc = (ms, oc') \<Longrightarrow> assigned oc' = assigned oc \<and> commitsIn oc' = commitsIn oc"
  by (auto simp: gatherState_def split: prod.splits)

lemma flushGapBuffers_baseline [simp]: "baseline (flushGapBuffers nx now oc) = baseline oc"
  by (simp add: baseline_def fun_eq_iff map_of_map_snd [where f = "\<lambda>_ t. fst (flushTracker nx now t)"]
      split: option.split)

lemma gatherState_baseline:
  assumes "gatherState nx now oc = (ms, oc')"
  shows "baseline oc' = baseline oc"
proof
  fix p
  show "baseline oc' p = baseline oc p"
  proof (cases "map_of (PartitionMap oc) p")
    case (Some t)
    obtain t' m col where g: "gatherTracker nx now (p \<in> assigned oc) (fst (flushTracker nx now t)) = (t', m, col)"
      by (metis prod_cases3)
    from Some g show ?thesis
      using gatherState_lookup [OF assms, of p] gatherTracker_baseline [OF g] by (simp add: baseline_def)
  qed (simp add: baseline_def gatherState_lookup [OF assms])
qed

lemma ackCommits_other:
  assumes "ackCommits nx ms oc = Some oc'" "p \<notin> msg_Partition ` set ms"
  shows "map_of (PartitionMap oc') p = map_of (PartitionMap oc) p"
  using assms by (induction ms arbitrary: oc) (auto split: option.splits)

lemma ackCommits_frame:
  "ackCommits nx ms oc = Some oc' \<Longrightarrow> assigned oc' = assigned oc \<and> commitsIn oc' = commitsIn oc"
  by (induction ms arbitrary: oc) (auto split: option.splits)

text \<open>The tracker of a partition after its commit was acknowledged.\<close>

definition committedAt :: "int \<Rightarrow> 'a tracker \<Rightarrow> 'a tracker \<Rightarrow> bool" where
  "committedAt k t t' \<longleftrightarrow> Ready t' = None \<and> CommittedPlusOne t' = k + 1 \<and>
     LastCommittedOffset t' = max (LastCommittedOffset t) k \<and>
     GapBuffer t' = GapBuffer t \<and> (GapBuffer t \<noteq> [] \<longrightarrow> NeedsGapAdvance t')"

lemma ackCommits_committed:
  assumes "ackable ms oc" "ackCommits nx ms oc = Some oc'" "m \<in> set ms"
  shows "\<exists>t t'. map_of (PartitionMap oc) (msg_Partition m) = Some t \<and>
    map_of (PartitionMap oc') (msg_Partition m) = Some t' \<and> committedAt (msg_Offset m) t t'"
  using assms
proof (induction ms arbitrary: oc)
  case (Cons a ms)
  from Cons.prems(1) show ?case
  proof (rule ackable_step [where nx = nx])
    fix t r t'
    let ?oc = "collectAll nx [r] (oc\<lparr>PartitionMap := AList.update (msg_Partition a) t' (PartitionMap oc)\<rparr>)"
    assume t: "map_of (PartitionMap oc) (msg_Partition a) = Some t" "Ready t = Some r"
      "wi_Message r = a" "CommittedPlusOne t \<le> wi_offset r" "ackTracker a t = Some (t', [r])"
      and eq: "ackCommits nx (a # ms) oc = ackCommits nx ms ?oc" and ok: "ackable ms ?oc"
    have dist: "msg_Partition x \<noteq> msg_Partition a" if "x \<in> set ms" for x
      using Cons.prems(1) that by (auto simp: ackable_def)
    show ?case
    proof (cases "m = a")
      case True
      have "committedAt (msg_Offset a) t t'"
        using t(5) by (cases rule: ackTracker_cases) (use t(3,4) in \<open>auto simp: committedAt_def\<close>)
      moreover have "map_of (PartitionMap oc') (msg_Partition a) = Some t'"
        using ackCommits_other [of nx ms ?oc oc' "msg_Partition a"] Cons.prems(2) eq dist by force
      ultimately show ?thesis using True t(1) by blast
    next
      case False
      with Cons.prems(3) have "m \<in> set ms" by simp
      with Cons.IH [OF ok] Cons.prems(2) eq dist show ?thesis by simp
    qed
  qed
qed simp

end
