(* ===== verification/Demux_Examples.thy ===== *)
theory Demux_Examples
  imports Committer_Invariants
begin

text \<open>
  Concrete inputs on which the theorems of the development are evaluated: an instance of
  the nexus parameters with one bit per trait, work items, and a committer that owns
  partition 0 from offset 5 and has received the completions of 5, 7 and 6.
\<close>

definition exNexus :: nexus where
  "exNexus = \<lparr>SetOrphaned = (\<lambda>t. t OR 1), SetCommitBuffered = (\<lambda>t. t OR 2),
     SetFirstAfterRebalance = (\<lambda>t. t OR 4), SetUsedOverflow = (\<lambda>t. t OR 8),
     SetProcessPanic = (\<lambda>t. t OR 16), SetProcessError = (\<lambda>t. t OR 32),
     SetDeadLetter = (\<lambda>t. t OR 64), DeadLetter = 64, UsedOverflow = 8,
     FrameworkReserved = 255, AddCustomTraits = (\<lambda>t c. t OR c)\<rparr>"

definition exItem :: "nat \<Rightarrow> partition \<Rightarrow> int \<Rightarrow> int \<Rightarrow> bool \<Rightarrow> unit work_item" where
  "exItem a p k prev f = \<lparr>wi_ptr = a,
     wi_Message = \<lparr>msg_Key = ''k'', msg_Partition = p, msg_Offset = k, msg_Traits = 0, msg_Payload = None\<rparr>,
     wi_Metrics = \<lparr>met_Traits = 0, met_QueueDepth = 0, met_Partition = p, met_Offset = k,
       met_ProcessDuration = 3, met_WriteDeadLetterDuration = 0, met_ProcessStartTime = 20,
       met_ReadTime = 10, met_WatermarkAdvanceTime = 0, met_WorkerPool = 0\<rparr>,
     wi_Ctx = Some 0, wi_PreviousOffset = prev, wi_First = f, wi_WorkerPool = 0\<rparr>"

definition exOwner :: "unit committer" where
  "exOwner = MarkPartitionAssigned 0 0 (ResetCommittedOffsets exNexus [(0, 5)] (NewCommitter 0))"

definition exCommitter :: "unit committer" where
  "exCommitter = ingestBatch exNexus 30 (fold CollectAndCommit
     [exItem 1 0 5 (-1) True, exItem 2 0 7 6 False, exItem 3 0 6 5 False] exOwner)"

lemma CollectAndCommit_wf: "committer_wf oc \<Longrightarrow> committer_wf (CollectAndCommit w oc)"
  by (simp add: CollectAndCommit_def)

lemma exOwner_wf: "committer_wf exOwner"
  by (simp add: exOwner_def MarkPartitionAssigned_wf ResetCommittedOffsets_wf NewCommitter_wf)

lemma exCommitter_wf: "committer_wf exCommitter"
  by (simp add: exCommitter_def ingestBatch_wf CollectAndCommit_wf exOwner_wf)

lemma exCommitter_sent:
  "map (\<lambda>m. (msg_Partition m, msg_Offset m)) (fst (snd (CommitOffsets exNexus 40 (\<lambda>_. None) True exCommitter))) = [(0, 7)]"
  by code_simp

lemma exCommitter_failed:
  "fst (CommitOffsets exNexus 40 (\<lambda>_. Some ''down'') True exCommitter) = Some (ErrBrokerCommitFailed ''down'')"
  by code_simp

end
