(* ===== verification/Commit_Tick.thy ===== *)
theory Commit_Tick
  imports Committer_Invariants Demux_Examples
begin

text \<open>
  What one commit tick (\<open>CommitOffsets\<close>, demux/offset/send_commits.go) promises: which
  offsets it offers to the broker, what it records when the broker accepts, and that a
  rejected batch is offered again.
\<close>

section \<open>What a tick offers\<close>

lemma gatherState_sent:
  assumes "committer_wf oc" and g: "gatherState nx now oc = (sent, oc2)"
  shows "distinct (map msg_Partition sent) \<and>
    (\<forall>m \<in> set sent. msg_Partition m \<in> assigned oc \<and> baseline oc (msg_Partition m) \<le> msg_Offset m)"
proof -
  note b = gatherState_batch [OF assms]
  have "baseline oc (msg_Partition m) \<le> msg_Offset m" if "m \<in> set sent" for m
  proof -
    from b that obtain t r where "map_of (PartitionMap oc2) (msg_Partition m) = Some t"
      "wi_Message r = m" "CommittedPlusOne t \<le> wi_offset r" by (auto simp: ackable_def)
    then have "baseline oc2 (msg_Partition m) \<le> msg_Offset m" by (simp add: baseline_def)
    then show ?thesis by (simp add: gatherState_baseline [OF g])
  qed
  with b show ?thesis by (auto simp: ackable_def)
qed

text \<open>
  C9. A commit tick offers at most one message per partition, only of partitions the
  consumer owns at that moment, and never one below the partition's committed baseline.
\<close>

theorem commit_ownership:
  assumes "committer_wf oc" "CommitOffsets nx now broker acq oc = (err, sent, oc')"
  shows "distinct (map msg_Partition sent) \<and>
    (\<forall>m \<in> set sent. msg_Partition m \<in> assigned oc \<and> baseline oc (msg_Partition m) \<le> msg_Offset m)"
  using assms(2,1)
  by (cases rule: CommitOffsets_cases) (use gatherState_sent [OF assms(1)] in simp_all)

text \<open>
  C10. The tick reports a held commit guard, in which case it sends nothing and changes
  nothing, or the broker's own answer to the batch it sent, and nothing else: on a
  well-formed committer the acknowledgement loop never dereferences a missing tracker or a
  missing ready item.
\<close>

theorem commit_errors:
  assumes "committer_wf oc" "CommitOffsets nx now broker acq oc = (err, sent, oc')"
  shows "(case err of
      None \<Rightarrow> acq \<and> (sent = [] \<or> broker sent = None)
    | Some ErrGuardTimeout \<Rightarrow> \<not> acq \<and> sent = [] \<and> oc' = oc
    | Some (ErrBrokerCommitFailed e) \<Rightarrow> acq \<and> sent \<noteq> [] \<and> broker sent = Some e
    | Some NilDereference \<Rightarrow> False)"
  using assms(2,1) by (cases rule: CommitOffsets_cases) simp_all


section \<open>Retry\<close>

lemma flushWalk_Ready:
  "flushWalk nx now c l gs (Some rd) = (r, col, n) \<Longrightarrow> \<exists>r'. r = Some r' \<and> wi_offset rd \<le> wi_offset r'"
proof (induction gs arbitrary: rd r col n)
  case (Cons g gs)
  obtain r1 c1 n1 where e: "flushWalk nx now c l gs (Some rd) = (r1, c1, n1)" by (metis prod_cases3)
  obtain r2 c2 n2 where f: "flushWalk nx now c l gs (Some (stampAdvance now g)) = (r2, c2, n2)"
    by (metis prod_cases3)
  from Cons.IH [OF e] Cons.IH [OF f] Cons.prems e f show ?case by (force split: if_splits)
qed simp

lemma flushTracker_Ready:
  assumes "flushTracker nx now t = (t', col)" "Ready t = Some rd"
  shows "\<exists>r'. Ready t' = Some r' \<and> wi_offset rd \<le> wi_offset r'"
  using assms(1)
  by (cases rule: flushTracker_cases) (use assms(2) flushWalk_Ready in auto)

lemma gatherCommits_mem:
  assumes "gatherCommits nx now asg pm = (pm', ms, col)" "(p, t) \<in> set pm" "p \<in> asg"
    "Ready t = Some r" "CommittedPlusOne t \<le> wi_offset r"
  shows "wi_Message r \<in> set ms"
  using assms
  by (induction pm arbitrary: pm' ms col)
    (auto simp: gatherTracker_def Let_def split: prod.splits option.splits)

lemma gatherState_mem:
  assumes "gatherState nx now oc = (ms, oc')" "map_of (PartitionMap oc) p = Some t" "p \<in> assigned oc"
    "flushTracker nx now t = (t', col)" "Ready t' = Some r" "CommittedPlusOne t \<le> wi_offset r"
  shows "wi_Message r \<in> set ms"
proof -
  obtain pm ms1 col where g: "gatherCommits nx now (assigned oc)
      (PartitionMap (flushGapBuffers nx now oc)) = (pm, ms1, col)" by (metis prod_cases3)
  have "(p, t') \<in> set (PartitionMap (flushGapBuffers nx now oc))"
    using map_of_SomeD [OF assms(2)] assms(4) by force
  moreover have "CommittedPlusOne t' = CommittedPlusOne t"
    using flushTracker_baseline [of nx now t] assms(4) by simp
  ultimately have "wi_Message r \<in> set ms1"
    using gatherCommits_mem [OF g] assms(3,5,6) by simp
  with assms(1) g show ?thesis by (simp add: gatherState_def)
qed

text \<open>
  C12. A batch the broker rejects is not lost: if nothing else happens before the next tick,
  that tick offers, for every partition of the rejected batch, the same offset or a higher
  one.
\<close>

theorem commit_retry:
  assumes "committer_wf oc"
    "CommitOffsets nx now broker True oc = (Some (ErrBrokerCommitFailed e), sent, oc')"
    "CommitOffsets nx now' broker' True oc' = (err', sent', oc'')"
  shows "\<forall>m \<in> set sent. \<exists>m' \<in> set sent'. msg_Partition m' = msg_Partition m \<and> msg_Offset m \<le> msg_Offset m'"
proof
  fix m assume m: "m \<in> set sent"
  from assms(2,1) have g: "gatherState nx now oc = (sent, oc')"
    by (cases rule: CommitOffsets_cases) auto
  note wf' = CommitOffsets_wf [OF assms(1,2)]
  from assms(3) wf' have g': "\<exists>o2. gatherState nx now' oc' = (sent', o2)"
    by (cases rule: CommitOffsets_cases) auto
  then obtain o2 where g': "gatherState nx now' oc' = (sent', o2)" by blast
  from gatherState_batch [OF assms(1) g] m gatherState_frame [OF g] obtain t r where
    t: "map_of (PartitionMap oc') (msg_Partition m) = Some t" "Ready t = Some r" "wi_Message r = m"
      "CommittedPlusOne t \<le> wi_offset r" "msg_Partition m \<in> assigned oc'"
    by (auto simp: ackable_def)
  obtain t' col where f: "flushTracker nx now' t = (t', col)" by fastforce
  from flushTracker_Ready [OF f t(2)] obtain r' where
    r': "Ready t' = Some r'" "wi_offset r \<le> wi_offset r'" by blast
  have "own_items (msg_Partition m) t"
    using wf' t(1) by (auto simp: committer_wf_def intro: all_trackers_lookup)
  then have "own_items (msg_Partition m) t'" by (rule items.flush [OF _ f])
  with r'(1) have "wi_partition r' = msg_Partition m" by (simp add: holds_items_def held_def)
  moreover have "wi_Message r' \<in> set sent'"
    using gatherState_mem [OF g' t(1,5) f r'(1)] t(4) r'(2) by simp
  ultimately show "\<exists>m' \<in> set sent'. msg_Partition m' = msg_Partition m \<and> msg_Offset m \<le> msg_Offset m'"
    using r'(2) t(3) by blast
qed

section \<open>Instances\<close>

abbreviation exTick :: "commit_error option \<times> unit message list \<times> unit committer" where
  "exTick \<equiv> CommitOffsets exNexus 40 (\<lambda>_. None) True exCommitter"

abbreviation exRejected :: "commit_error option \<times> unit message list \<times> unit committer" where
  "exRejected \<equiv> CommitOffsets exNexus 40 (\<lambda>_. Some ''down'') True exCommitter"

lemma exTick_None: "exTick = (None, fst (snd exTick), snd (snd exTick))"
proof -
  have "fst exTick = None" by code_simp
  then show ?thesis by (metis prod.collapse)
qed

lemma exRejected_Some:
  "exRejected = (Some (ErrBrokerCommitFailed ''down''), fst (snd exRejected), snd (snd exRejected))"
  using exCommitter_failed by (metis prod.collapse)

theorem commit_ownership_witness:
  "committer_wf exCommitter \<and> map msg_Offset (fst (snd exTick)) = [7] \<and>
   distinct (map msg_Partition (fst (snd exTick))) \<and>
   list_all (\<lambda>m. msg_Partition m \<in> assigned exCommitter \<and>
      baseline exCommitter (msg_Partition m) \<le> msg_Offset m) (fst (snd exTick))"
proof -
  have "map msg_Offset (fst (snd exTick)) = [7]" by code_simp
  with commit_ownership [OF exCommitter_wf exTick_None] exCommitter_wf show ?thesis
    unfolding list_all_iff by blast
qed

theorem commit_errors_witness:
  "committer_wf exCommitter \<and> fst exRejected = Some (ErrBrokerCommitFailed ''down'') \<and>
   fst (snd exRejected) \<noteq> []"
  using commit_errors [OF exCommitter_wf exRejected_Some] exCommitter_wf exCommitter_failed by simp


theorem commit_retry_witness:
  "fst (snd exRejected) \<noteq> [] \<and>
   list_all (\<lambda>m. list_ex (\<lambda>m'. msg_Partition m' = msg_Partition m \<and> msg_Offset m \<le> msg_Offset m')
        (fst (snd (CommitOffsets exNexus 50 (\<lambda>_. None) True (snd (snd exRejected))))))
     (fst (snd exRejected))"
proof -
  have "fst (snd exRejected) \<noteq> []" by code_simp
  moreover have "CommitOffsets exNexus 50 (\<lambda>_. None) True (snd (snd exRejected)) = (e, s, c) \<Longrightarrow>
    fst (snd (CommitOffsets exNexus 50 (\<lambda>_. None) True (snd (snd exRejected)))) = s" for e s c
    by simp
  ultimately show ?thesis
    unfolding list_all_iff list_ex_iff
    using commit_retry [OF exCommitter_wf exRejected_Some] by (metis prod_cases3)
qed

end
