(* ===== verification/Committer_Runs.thy ===== *)
theory Committer_Runs
  imports Commit_Tick
begin

text \<open>
  Runs of the committer: any interleaving of arrivals, ingest batches, commit ticks, drains,
  ownership marks and baseline resets. Two invariants of the committer's own model test are
  proved of every run: acknowledged commits of a partition strictly increase between
  resets, and every work item that arrives is held or released exactly once.
\<close>

section \<open>Events\<close>

datatype 'a committer_event =
    Arrive "'a work_item"
  | Ingest time
  | Tick time "'a message list \<Rightarrow> string option" bool
  | Drain time "'a message list \<Rightarrow> string option" bool "nat option"
  | Assigned time partition
  | Revoked time partition
  | ResetTo "(partition \<times> int) list"

text \<open>One event: the new committer and the messages whose commit the broker accepted.\<close>

definition accepted :: "('a message list \<Rightarrow> string option) \<Rightarrow> 'a message list \<Rightarrow> 'a message list" where
  "accepted broker sent = (if broker sent = None then sent else [])"

fun committerStep ::
  "nexus \<Rightarrow> 'a committer_event \<Rightarrow> 'a committer \<times> 'a message list \<Rightarrow> 'a committer \<times> 'a message list" where
  "committerStep nx (Arrive w) (oc, acks) = (CollectAndCommit w oc, acks)"
| "committerStep nx (Ingest now) (oc, acks) = (ingestBatch nx now oc, acks)"
| "committerStep nx (Tick now broker acq) (oc, acks) =
     (let (err, sent, oc') = CommitOffsets nx now broker acq oc in (oc', acks @ accepted broker sent))"
| "committerStep nx (Drain now broker acq tmo) (oc, acks) =
     (let (err, sent, oc') = DrainCommitter nx now broker acq tmo oc in (oc', acks @ accepted broker sent))"
| "committerStep nx (Assigned now p) (oc, acks) = (MarkPartitionAssigned now p oc, acks)"
| "committerStep nx (Revoked now p) (oc, acks) = (MarkPartitionRevoked now p oc, acks)"
| "committerStep nx (ResetTo pbs) (oc, acks) = (ResetCommittedOffsets nx pbs oc, acks)"

text \<open>A drain is a run of ingest batches followed by one tick.\<close>

lemma funpow_ingestBatch_wf: "committer_wf oc \<Longrightarrow> committer_wf ((ingestBatch nx now ^^ k) oc)"
  by (induction k) (simp_all add: ingestBatch_wf)

lemma ingestUntilEmpty_batches: "\<exists>k. ingestUntilEmpty nx now oc = (ingestBatch nx now ^^ k) oc"
proof (induction nx now oc rule: ingestUntilEmpty.induct)
  case (1 nx now oc)
  show ?case
  proof (cases "commitsIn oc = []")
    case True
    then show ?thesis by (intro exI [of _ 0]) (simp add: ingestUntilEmpty.simps)
  next
    case False
    with 1 obtain k where "ingestUntilEmpty nx now (ingestBatch nx now oc) =
      (ingestBatch nx now ^^ k) (ingestBatch nx now oc)" by blast
    with False have "ingestUntilEmpty nx now oc = (ingestBatch nx now ^^ Suc k) oc"
      by (subst ingestUntilEmpty.simps) (simp add: funpow_swap1)
    then show ?thesis by blast
  qed
qed

lemma surfaceFinalCommit_tick:
  "surfaceFinalCommit nx now broker acq oc = (err, sent, oc') \<Longrightarrow>
   \<exists>err0. CommitOffsets nx now broker acq oc = (err0, sent, oc')"
  by (auto simp: surfaceFinalCommit_def split: prod.splits option.splits commit_error.splits)

lemma DrainCommitter_batches:
  assumes "DrainCommitter nx now broker acq tmo oc = (err, sent, oc')"
  obtains k d err0 where
    "CommitOffsets nx now broker acq (((ingestBatch nx now ^^ k) (oc\<lparr>drained := False\<rparr>))\<lparr>drained := d\<rparr>) = (err0, sent, oc')"
proof (cases "commitsIn oc = [] \<or> tmo = None")
  case True
  obtain k where k: "ingestUntilEmpty nx now (oc\<lparr>drained := False\<rparr>) = (ingestBatch nx now ^^ k) (oc\<lparr>drained := False\<rparr>)"
    using ingestUntilEmpty_batches by blast
  show ?thesis
  proof (cases "commitsIn oc = []")
    case empty: True
    with assms obtain e where "surfaceFinalCommit nx now broker acq (oc\<lparr>drained := False\<rparr>) = (e, sent, oc')"
      by (auto simp: DrainCommitter_def split: prod.splits)
    with surfaceFinalCommit_tick obtain e0 where
      "CommitOffsets nx now broker acq (oc\<lparr>drained := False\<rparr>) = (e0, sent, oc')" by blast
    then show ?thesis by (intro that [where k = 0 and d = False]) simp
  next
    case False
    with True assms k obtain e where "surfaceFinalCommit nx now broker acq
      (((ingestBatch nx now ^^ k) (oc\<lparr>drained := False\<rparr>))\<lparr>drained := False\<rparr>) = (e, sent, oc')"
      by (auto simp: DrainCommitter_def Let_def split: prod.splits)
    with surfaceFinalCommit_tick that show ?thesis by blast
  qed
next
  case False
  then obtain k where "tmo = Some k" "commitsIn oc \<noteq> []" by auto
  with assms obtain e where
    c: "CommitOffsets nx now broker acq ((ingestBatch nx now ^^ k) (oc\<lparr>drained := False\<rparr>)) = (e, sent, oc')"
    by (auto simp: DrainCommitter_def Let_def split: prod.splits)
  let ?b = "(ingestBatch nx now ^^ k) (oc\<lparr>drained := False\<rparr>)"
  have "?b\<lparr>drained := drained ?b\<rparr> = ?b" by simp
  with c show ?thesis by (intro that [where k = k and d = "drained ?b"]) simp
qed

lemma DrainCommitter_wf:
  assumes "committer_wf oc" "DrainCommitter nx now broker acq tmo oc = (err, sent, oc')"
  shows "committer_wf oc'"
  using assms(2)
proof (rule DrainCommitter_batches)
  fix k d err0
  assume "CommitOffsets nx now broker acq
    (((ingestBatch nx now ^^ k) (oc\<lparr>drained := False\<rparr>))\<lparr>drained := d\<rparr>) = (err0, sent, oc')"
  then show ?thesis by (rule CommitOffsets_wf [rotated]) (simp add: funpow_ingestBatch_wf assms(1))
qed

lemma committerStep_wf: "committer_wf (fst s) \<Longrightarrow> committer_wf (fst (committerStep nx e s))"
proof (cases s)
  case (Pair oc acks)
  moreover assume "committer_wf (fst s)"
  ultimately show ?thesis
    by (cases e) (auto simp: CollectAndCommit_wf ingestBatch_wf MarkPartitionAssigned_wf
        MarkPartitionRevoked_wf ResetCommittedOffsets_wf
        dest: CommitOffsets_wf DrainCommitter_wf split: prod.splits)
qed

section \<open>Baselines along a run\<close>

lemma checkAndAdvance_baseline:
  "checkAndAdvance nx now w t = (t', col) \<Longrightarrow> CommittedPlusOne t' = CommittedPlusOne t"
  by (auto simp: checkAndAdvance_def Let_def split: option.splits if_splits)

lemma processTracker_baseline:
  assumes "processTracker nx now w ot = (t', col)"
  shows "(case ot of None \<Rightarrow> -1 | Some t \<Rightarrow> CommittedPlusOne t) \<le> CommittedPlusOne t'"
  using assms
  by (auto simp: processTracker_def Let_def dest!: checkAndAdvance_baseline split: if_splits option.splits)

lemma processCommit_baseline: "baseline oc p \<le> baseline (processCommit nx now w oc) p"
proof (cases "p = wi_partition w")
  case True
  obtain t' col where t: "processTracker nx now w (map_of (PartitionMap oc) p) = (t', col)" by fastforce
  from processTracker_baseline [OF t] True t show ?thesis by (simp add: baseline_def)
qed (simp add: baseline_def)

lemma fold_processCommit_baseline: "baseline oc p \<le> baseline (fold (processCommit nx now) ws oc) p"
  by (induction ws arbitrary: oc) (auto intro: order_trans processCommit_baseline)

lemma ingestBatch_baseline: "baseline oc p \<le> baseline (ingestBatch nx now oc) p"
  using fold_processCommit_baseline
    [of "oc\<lparr>commitsIn := drop readBatchSize (commitsIn oc)\<rparr>" p nx now "take readBatchSize (commitsIn oc)"]
  by (auto simp: ingestBatch_def Let_def)

lemma funpow_ingestBatch_baseline: "baseline oc p \<le> baseline ((ingestBatch nx now ^^ k) oc) p"
  by (induction k) (auto intro: order_trans ingestBatch_baseline)

lemma resetPartitions_baseline:
  "p \<notin> fst ` set pbs \<Longrightarrow> baseline (resetPartitions nx pbs oc) p = baseline oc p"
  by (induction nx pbs oc rule: resetPartitions.induct) (auto simp: baseline_def split: prod.splits)

lemma ResetCommittedOffsets_baseline:
  "p \<notin> fst ` set pbs \<Longrightarrow> baseline (ResetCommittedOffsets nx pbs oc) p = baseline oc p"
  by (simp add: ResetCommittedOffsets_def resetPartitions_baseline)

lemma MarkPartition_baseline [simp]:
  "baseline (MarkPartitionAssigned now q oc) = baseline oc"
  "baseline (MarkPartitionRevoked now q oc) = baseline oc"
  by (auto simp: baseline_def MarkPartitionAssigned_def MarkPartitionRevoked_def fun_eq_iff update_conv'
      split: option.splits)

lemma CommitOffsets_accepted:
  assumes "committer_wf oc" "CommitOffsets nx now broker acq oc = (err, sent, oc')"
  shows "distinct (map msg_Partition (accepted broker sent)) \<and>
    (\<forall>m \<in> set (accepted broker sent).
       baseline oc (msg_Partition m) \<le> msg_Offset m \<and> baseline oc' (msg_Partition m) = msg_Offset m + 1) \<and>
    (\<forall>p. p \<notin> msg_Partition ` set (accepted broker sent) \<longrightarrow> baseline oc' p = baseline oc p)"
  using assms(2,1)
proof (cases rule: CommitOffsets_cases)
  case (sent oc2)
  note s = gatherState_sent [OF assms(1) sent(2)]
  have a: "ackable sent oc2" using gatherState_batch [OF assms(1) sent(2)] by simp
  have "baseline oc' p = baseline oc p" if "p \<notin> msg_Partition ` set sent" for p
    using ackCommits_other [OF sent(5) that] gatherState_baseline [OF sent(2)]
    by (simp add: baseline_def fun_eq_iff)
  moreover have "baseline oc' (msg_Partition m) = msg_Offset m + 1" if "m \<in> set sent" for m
    using ackCommits_committed [OF a sent(5) that] by (auto simp: baseline_def committedAt_def)
  ultimately show ?thesis using s sent by (simp add: accepted_def)
qed (simp_all add: accepted_def gatherState_baseline)

section \<open>Commits increase\<close>

text \<open>
  The accepted commits of a partition so far, which all lie below its baseline, and the
  events that do not reset it.
\<close>

definition acksOf :: "partition \<Rightarrow> 'a message list \<Rightarrow> int list" where
  "acksOf p acks = map msg_Offset (filter (\<lambda>m. msg_Partition m = p) acks)"

definition monotone_log :: "partition \<Rightarrow> 'a committer \<times> 'a message list \<Rightarrow> bool" where
  "monotone_log p s \<longleftrightarrow> committer_wf (fst s) \<and> sorted_wrt (<) (acksOf p (snd s)) \<and>
     (\<forall>k \<in> set (acksOf p (snd s)). k < baseline (fst s) p)"

fun keepsBaseline :: "partition \<Rightarrow> 'a committer_event \<Rightarrow> bool" where
  "keepsBaseline p (ResetTo pbs) = (p \<notin> fst ` set pbs)"
| "keepsBaseline p _ = True"

lemma monotone_log_mono:
  "monotone_log p (oc, acks) \<Longrightarrow> committer_wf oc' \<Longrightarrow> baseline oc p \<le> baseline oc' p \<Longrightarrow> monotone_log p (oc', acks)"
  by (fastforce simp: monotone_log_def)

lemma distinct_filter_single:
  "distinct (map f xs) \<Longrightarrow> filter (\<lambda>x. f x = y) xs = [] \<or> (\<exists>x \<in> set xs. f x = y \<and> filter (\<lambda>x. f x = y) xs = [x])"
proof (induction xs)
  case (Cons a xs)
  show ?case
  proof (cases "f a = y")
    case True
    with Cons.prems have "filter (\<lambda>x. f x = y) xs = []" by (auto simp: filter_empty_conv image_iff)
    with True show ?thesis by simp
  next
    case False
    with Cons show ?thesis by auto
  qed
qed simp

lemma monotone_log_tick:
  assumes "monotone_log p (oc, acks)" "CommitOffsets nx now broker acq oc = (err, sent, oc')"
  shows "monotone_log p (oc', acks @ accepted broker sent)"
proof -
  have wf: "committer_wf oc" using assms(1) by (simp add: monotone_log_def)
  note a = CommitOffsets_accepted [OF wf assms(2)] and wf' = CommitOffsets_wf [OF wf assms(2)]
  from distinct_filter_single [OF a [THEN conjunct1], of p] show ?thesis
  proof (elim conjE disjE bexE)
    assume none: "filter (\<lambda>m. msg_Partition m = p) (accepted broker sent) = []"
    then have "p \<notin> msg_Partition ` set (accepted broker sent)" by (auto simp: filter_empty_conv)
    with a have b: "baseline oc' p = baseline oc p" by blast
    have "acksOf p (acks @ accepted broker sent) = acksOf p acks" by (simp add: acksOf_def none)
    with b assms(1) wf' show ?thesis by (simp add: monotone_log_def)
  next
    fix m
    assume m: "m \<in> set (accepted broker sent)" "msg_Partition m = p"
      and one: "filter (\<lambda>m. msg_Partition m = p) (accepted broker sent) = [m]"
    from a m have b: "baseline oc p \<le> msg_Offset m" "baseline oc' p = msg_Offset m + 1" by blast+
    have old: "sorted_wrt (<) (acksOf p acks)" "\<forall>k \<in> set (acksOf p acks). k < msg_Offset m"
      using assms(1) b(1) by (auto simp: monotone_log_def)
    have "acksOf p (acks @ accepted broker sent) = acksOf p acks @ [msg_Offset m]"
      by (simp add: acksOf_def one)
    with b(2) old wf' show ?thesis by (auto simp: monotone_log_def sorted_wrt_append)
  qed
qed

lemma monotone_log_drain:
  assumes "monotone_log p (oc, acks)" "DrainCommitter nx now broker acq tmo oc = (err, sent, oc')"
  shows "monotone_log p (oc', acks @ accepted broker sent)"
  using assms(2)
proof (rule DrainCommitter_batches)
  fix k d err0
  let ?oc = "((ingestBatch nx now ^^ k) (oc\<lparr>drained := False\<rparr>))\<lparr>drained := d\<rparr>"
  assume c: "CommitOffsets nx now broker acq ?oc = (err0, sent, oc')"
  have "committer_wf oc" using assms(1) by (simp add: monotone_log_def)
  then have "monotone_log p (?oc, acks)"
    using funpow_ingestBatch_baseline [of "oc\<lparr>drained := False\<rparr>" p k nx now]
    by (intro monotone_log_mono [OF assms(1)]) (simp_all add: funpow_ingestBatch_wf)
  from monotone_log_tick [OF this c] show ?thesis .
qed

interpretation commitLog: step_system "committerStep nx" "\<lambda>e s. keepsBaseline p e" "monotone_log p" for nx p
proof
  fix s :: "'a committer \<times> 'a message list" and e :: "'a committer_event"
  assume inv: "monotone_log p s" and e: "keepsBaseline p e"
  obtain oc acks where s: "s = (oc, acks)" by fastforce
  have wf: "committer_wf oc" using inv s by (simp add: monotone_log_def)
  note step = monotone_log_mono [OF inv [unfolded s]]
  show "monotone_log p (committerStep nx e s)"
  proof (cases e)
    case (Arrive w)
    have "monotone_log p (CollectAndCommit w oc, acks)"
      by (rule step) (simp_all add: wf CollectAndCommit_wf CollectAndCommit_def)
    with Arrive s show ?thesis by simp
  next
    case (Ingest now)
    with s step [OF ingestBatch_wf [OF wf] ingestBatch_baseline] show ?thesis by simp
  next
    case (Tick now broker acq)
    obtain err sent oc' where c: "CommitOffsets nx now broker acq oc = (err, sent, oc')" by (metis prod_cases3)
    with Tick s monotone_log_tick [OF inv [unfolded s] c] show ?thesis by simp
  next
    case (Drain now broker acq tmo)
    obtain err sent oc' where c: "DrainCommitter nx now broker acq tmo oc = (err, sent, oc')" by (metis prod_cases3)
    with Drain s monotone_log_drain [OF inv [unfolded s] c] show ?thesis by simp
  next
    case (Assigned now q)
    with s step [OF MarkPartitionAssigned_wf [OF wf]] show ?thesis by simp
  next
    case (Revoked now q)
    with s step [OF MarkPartitionRevoked_wf [OF wf]] show ?thesis by simp
  next
    case (ResetTo pbs)
    with e have "p \<notin> fst ` set pbs" by simp
    with s ResetTo step [OF ResetCommittedOffsets_wf [OF wf]] show ?thesis
      by (simp add: ResetCommittedOffsets_baseline)
  qed
qed

lemma run_ok_keeps: "\<forall>e \<in> set es. keepsBaseline p e \<Longrightarrow> commitLog.run_ok nx p es s"
  by (induction es arbitrary: s) simp_all

text \<open>
  C13. Commit monotonicity: in every run of the committer, however arrivals, ingest, ticks,
  drains and ownership marks interleave, the commits of a partition that the broker accepts
  between two resets of its baseline are strictly increasing.
\<close>

theorem commits_increase:
  assumes "committer_wf oc" "\<forall>e \<in> set es. keepsBaseline p e"
  shows "sorted_wrt (<) (acksOf p (snd (fold (committerStep nx) es (oc, []))))"
  using commitLog.run_inv [of p "(oc, [])" nx es] run_ok_keeps [OF assms(2)] assms(1)
  by (simp add: monotone_log_def acksOf_def)

definition exEvents :: "unit committer_event list" where
  "exEvents = [Arrive (exItem 1 0 5 (-1) True), Arrive (exItem 2 0 7 6 False), Arrive (exItem 3 0 6 5 False),
     Ingest 30, Tick 40 (\<lambda>_. Some ''down'') True, Tick 50 (\<lambda>_. None) True,
     Arrive (exItem 1 0 9 8 False), Ingest 60, Tick 70 (\<lambda>_. None) True,
     Arrive (exItem 2 0 8 7 False), Drain 80 (\<lambda>_. None) True None]"

theorem commits_increase_witness:
  "acksOf 0 (snd (fold (committerStep exNexus) exEvents (exOwner, []))) = [7, 9] \<and>
   sorted_wrt (<) (acksOf 0 (snd (fold (committerStep exNexus) exEvents (exOwner, []))))"
proof
  show "acksOf 0 (snd (fold (committerStep exNexus) exEvents (exOwner, []))) = [7, 9]" by code_simp
  show "sorted_wrt (<) (acksOf 0 (snd (fold (committerStep exNexus) exEvents (exOwner, []))))"
    by (rule commits_increase [OF exOwner_wf]) (simp add: exEvents_def)
qed

end
