(* ===== verification/Committer_Ledger.thy ===== *)
theory Committer_Ledger
  imports Committer_Runs
begin

text \<open>
  The ledger of the committer: what happens to the work items it is given. A step keeps
  every item inside (in the ingest channel or in a tracker) or hands it to the metrics
  collector, never twice; an item can only disappear when another item of the same
  partition and offset stays.
\<close>

section \<open>Multisets of items\<close>

definition place :: "nat \<times> 'a message \<times> int \<times> bool \<Rightarrow> partition \<times> int" where
  "place x = (msg_Partition (fst (snd x)), msg_Offset (fst (snd x)))"

lemma place_core [simp]: "place (core w) = (wi_partition w, wi_offset w)"
  by (simp add: place_def core_def)

lemma fst_core [simp]: "fst (core w) = wi_ptr w"
  by (simp add: core_def)

definition unique :: "('b \<Rightarrow> 'c) \<Rightarrow> 'b multiset \<Rightarrow> bool" where
  "unique f M \<longleftrightarrow> (\<forall>x. count (image_mset f M) x \<le> 1)"

lemma unique_mset: "unique f (mset xs) \<longleftrightarrow> distinct (map f xs)"
  unfolding unique_def distinct_count_atmost_1
  by (metis count_eq_zero_iff le_SucE le_zero_eq less_or_eq_imp_le less_one linorder_not_less
      mset_map One_nat_def order_antisym_conv set_mset_mset zero_le)

lemma unique_mono: "N \<subseteq># M \<Longrightarrow> unique f M \<Longrightarrow> unique f N"
  unfolding unique_def by (meson image_mset_subseteq_mono le_trans mset_subset_eq_count)

definition keeps :: "(nat \<times> 'a message \<times> int \<times> bool) multiset \<Rightarrow> (nat \<times> 'a message \<times> int \<times> bool) multiset \<Rightarrow> bool" where
  "keeps M N \<longleftrightarrow> N \<subseteq># M \<and> (unique place M \<longrightarrow> N = M) \<and> place ` set_mset N = place ` set_mset M"

lemma keeps_refl [simp]: "keeps M M"
  by (simp add: keeps_def)

lemma keeps_trans: "keeps L M \<Longrightarrow> keeps M N \<Longrightarrow> keeps L N"
  unfolding keeps_def by (metis subset_mset.trans)

lemma keeps_add: "keeps M N \<Longrightarrow> keeps M' N' \<Longrightarrow> keeps (M + M') (N + N')"
  unfolding keeps_def
  by (metis (no_types, lifting) image_Un mset_subset_eq_add_left mset_subset_eq_add_right
      set_mset_union subset_mset.add_mono unique_mono)

section \<open>The items inside\<close>

definition heldAll :: "(partition \<times> 'a tracker) list \<Rightarrow> 'a work_item list" where
  "heldAll pm = concat (map (\<lambda>(p, t). held t) pm)"

definition inside :: "'a committer \<Rightarrow> 'a work_item list" where
  "inside oc = commitsIn oc @ heldAll (PartitionMap oc)"

lemma heldAll_simps [simp]: "heldAll [] = []" "heldAll ((p, t) # pm) = held t @ heldAll pm"
  by (simp_all add: heldAll_def)

lemma heldAll_update:
  "distinct (map fst pm) \<Longrightarrow>
   mset (heldAll (AList.update p t pm)) + mset (heldOpt (map_of pm p)) = mset (heldAll pm) + mset (held t)"
  by (induction pm) (auto simp: update_Some_unfold ac_simps)

definition conserves :: "'a committer \<Rightarrow> 'a committer \<Rightarrow> bool" where
  "conserves oc oc' \<longleftrightarrow> (\<exists>col. collected oc' = collected oc @ col \<and>
     keeps (cores (inside oc)) (cores (inside oc') + cores col))"

lemma conserves_refl [simp]: "conserves oc oc"
  by (simp add: conserves_def)

lemma conserves_trans:
  assumes "conserves a b" "conserves b c"
  shows "conserves a c"
proof -
  obtain col1 col2 where ab: "collected b = collected a @ col1" "keeps (cores (inside a)) (cores (inside b) + cores col1)"
    and bc: "collected c = collected b @ col2" "keeps (cores (inside b)) (cores (inside c) + cores col2)"
    using assms by (auto simp: conserves_def)
  from keeps_trans [OF ab(2) keeps_add [OF bc(2) keeps_refl, of "cores col1"]]
  have "keeps (cores (inside a)) (cores (inside c) + cores (col1 @ col2))" by (simp add: ac_simps)
  with ab(1) bc(1) show ?thesis unfolding conserves_def by (intro exI [of _ "col1 @ col2"]) simp
qed

lemma conserves_inside: "conserves oc oc' \<Longrightarrow> cores (inside oc') \<subseteq># cores (inside oc)"
  by (auto simp: conserves_def keeps_def intro: subset_mset.trans [OF mset_subset_eq_add_left])

lemma conserves_unique: "conserves oc oc' \<Longrightarrow> unique f (cores (inside oc)) \<Longrightarrow> unique f (cores (inside oc'))"
  by (blast intro: unique_mono conserves_inside)

section \<open>Operation by operation\<close>

text \<open>Replacing the tracker of one partition by one that has handed over \<open>col\<close>.\<close>

lemma multiset_replace:
  fixes A :: "'b multiset"
  assumes "A + H = B + T" "T + c = M + H"
  shows "A + c = M + B"
proof -
  have "(A + c) + H = (A + H) + c" by (simp add: ac_simps)
  also have "\<dots> = B + (T + c)" by (simp add: assms(1) ac_simps)
  also have "\<dots> = (M + B) + H" by (simp add: assms(2) ac_simps)
  finally show ?thesis by (rule add_right_imp_eq)
qed

lemma update_cores:
  assumes "distinct (map fst pm)" "cores (held t') + cores col = M + cores (heldOpt (map_of pm p))"
  shows "cores (heldAll (AList.update p t' pm)) + cores col = M + cores (heldAll pm)"
  by (rule multiset_replace [OF _ assms(2)])
    (use heldAll_update [OF assms(1), of p t', THEN arg_cong, of "image_mset core"] in simp)

lemma update_conserves:
  assumes "distinct (map fst (PartitionMap oc))"
    "cores (held t') + cores col = cores (heldOpt (map_of (PartitionMap oc) p))"
  shows "conserves oc (collectAll nx col (oc\<lparr>PartitionMap := AList.update p t' (PartitionMap oc)\<rparr>))"
  using update_cores [of "PartitionMap oc" t' col "{#}" p] assms
  by (auto simp: conserves_def inside_def add.assoc)

lemma processCommit_ledger:
  assumes "committer_wf oc"
  shows "\<exists>col. collected (processCommit nx now w oc) = collected oc @ col \<and>
    cores (heldAll (PartitionMap (processCommit nx now w oc))) + cores col =
    add_mset (core w) (cores (heldAll (PartitionMap oc)))"
proof -
  obtain t' col where t: "processTracker nx now w (map_of (PartitionMap oc) (wi_partition w)) = (t', col)"
    by fastforce
  have "distinct (map fst (PartitionMap oc))" using assms by (simp add: committer_wf_def)
  from update_cores [OF this, where M = "{#core w#}"] processTracker_cores [OF t]
  show ?thesis using t by simp
qed

lemma fold_processCommit_ledger:
  "committer_wf oc \<Longrightarrow> \<exists>col. collected (fold (processCommit nx now) ws oc) = collected oc @ col \<and>
    cores (heldAll (PartitionMap (fold (processCommit nx now) ws oc))) + cores col =
    cores ws + cores (heldAll (PartitionMap oc))"
proof (induction ws arbitrary: oc)
  case (Cons w ws)
  let ?oc = "processCommit nx now w oc"
  obtain c1 where c1: "collected ?oc = collected oc @ c1"
    "cores (heldAll (PartitionMap ?oc)) + cores c1 = add_mset (core w) (cores (heldAll (PartitionMap oc)))"
    using processCommit_ledger [OF Cons.prems] by blast
  obtain c2 where c2: "collected (fold (processCommit nx now) ws ?oc) = collected ?oc @ c2"
    "cores (heldAll (PartitionMap (fold (processCommit nx now) ws ?oc))) + cores c2 =
     cores ws + cores (heldAll (PartitionMap ?oc))"
    using Cons.IH [OF processCommit_wf [OF Cons.prems]] by blast
  have "cores (heldAll (PartitionMap (fold (processCommit nx now) ws ?oc))) + cores (c1 @ c2) =
    cores ws + (cores (heldAll (PartitionMap ?oc)) + cores c1)"
    using c2(2) by (simp del: processCommit_simps add: add.assoc [symmetric])
  then show ?case using c1 c2(1)
    by (intro exI [of _ "c1 @ c2"]) (simp del: processCommit_simps)
qed simp

lemma flushTracker_keeps:
  assumes "own_items p t" "flushTracker nx now t = (t', col)"
  shows "keeps (cores (held t)) (cores (held t') + cores col)"
proof -
  have own: "\<forall>w \<in> set (GapBuffer t). wi_partition w = p"
    using assms(1) by (simp add: holds_items_def held_def)
  have dropped: "droppedTwins t = {#}" if "unique place (cores (held t))"
  proof -
    have "unique place (cores (GapBuffer t))" using that by (rule unique_mono [rotated]) (simp add: held_def)
    then have "distinct (map (\<lambda>w. (wi_partition w, wi_offset w)) (GapBuffer t))"
      using unique_mset [of place "map core (GapBuffer t)"] by (simp add: comp_def)
    then have "distinct (map wi_offset (GapBuffer t))"
      using own by (auto simp: distinct_map inj_on_def)
    then show ?thesis by (simp add: droppedTwins_def sortGapBuffer_distinct)
  qed
  have "place ` set_mset (cores (held t') + cores col) = place ` set_mset (cores (held t))"
    using assms(2)
  proof (cases rule: flushTracker_cases)
    case (walk r n)
    let ?s = "sortGapBuffer (GapBuffer t)"
    have sub: "set ?s \<subseteq> set (GapBuffer t)" using set_mset_mono [OF sortGapBuffer_subset] by fastforce
    have pair: "place ` core ` A = Pair p ` wi_offset ` A" if "A \<subseteq> set (GapBuffer t)" for A
      using own that unfolding image_image by (intro image_cong) auto
    have "place ` core ` set ?s = place ` core ` set (GapBuffer t)"
      by (simp only: pair [OF sub] pair [OF subset_refl] sortGapBuffer_offsets)
    moreover have "cores (held t') + cores col = cores (readyList (Ready t)) + cores ?s"
      using flushWalk_cores [OF walk(3)] walk(4) by (simp add: held_def ac_simps)
    ultimately show ?thesis by (simp add: held_def image_Un)
  qed (simp_all add: held_def)
  moreover have "cores (held t') + cores col = cores (held t)" if "unique place (cores (held t))"
    using flushTracker_cores [OF assms(2)] dropped [OF that] by simp
  ultimately show ?thesis
    unfolding keeps_def using flushTracker_cores_subset [OF assms(2)] by blast
qed

lemma flushAll_keeps:
  "\<forall>(p, t) \<in> set pm. own_items p t \<Longrightarrow>
   keeps (cores (heldAll pm))
     (cores (heldAll (map (\<lambda>(p, t). (p, fst (flushTracker nx now t))) pm)) +
      cores (concat (map (\<lambda>(p, t). snd (flushTracker nx now t)) pm)))"
proof (induction pm)
  case (Cons pt pm)
  obtain p t where pt: "pt = (p, t)" by fastforce
  obtain t' col where f: "flushTracker nx now t = (t', col)" by fastforce
  have "own_items p t" using Cons.prems pt by simp
  from keeps_add [OF flushTracker_keeps [OF this f] Cons.IH] Cons.prems show ?case
    by (simp add: pt f ac_simps)
qed simp

lemma flushGapBuffers_conserves: "committer_wf oc \<Longrightarrow> conserves oc (flushGapBuffers nx now oc)"
  using keeps_add [OF keeps_refl flushAll_keeps, of "PartitionMap oc" "cores (commitsIn oc)" nx now]
  by (simp add: conserves_def inside_def committer_wf_def all_trackers_def add.assoc)

lemma inside_drained [simp]: "inside (oc\<lparr>drained := d\<rparr>) = inside oc"
  by (simp add: inside_def)

lemma conserves_drained [simp]:
  "conserves a (oc\<lparr>drained := d\<rparr>) = conserves a oc"
  "conserves (oc\<lparr>drained := d\<rparr>) a = conserves oc a"
  by (simp_all add: conserves_def)

lemma ingestBatch_conserves:
  assumes "committer_wf oc"
  shows "conserves oc (ingestBatch nx now oc)"
proof -
  define batch rest where "batch = take readBatchSize (commitsIn oc)" and "rest = drop readBatchSize (commitsIn oc)"
  define oc2 where "oc2 = fold (processCommit nx now) batch (oc\<lparr>commitsIn := rest\<rparr>)"
  have split: "commitsIn oc = batch @ rest" by (simp add: batch_def rest_def)
  have wf: "committer_wf (oc\<lparr>commitsIn := rest\<rparr>)" using assms by simp
  from fold_processCommit_ledger [OF this, of nx now batch] obtain col where
    col: "collected oc2 = collected oc @ col"
      "cores (heldAll (PartitionMap oc2)) + cores col = cores batch + cores (heldAll (PartitionMap oc))"
    by (auto simp: oc2_def)
  have "cores (inside oc) = cores (inside oc2) + cores col"
    using col(2) by (simp add: inside_def split oc2_def add.assoc)
  with col(1) have "conserves oc oc2" unfolding conserves_def by (intro exI [of _ col]) simp
  moreover have "conserves oc2 (flushGapBuffers nx now oc2)"
    unfolding oc2_def by (rule flushGapBuffers_conserves [OF fold_processCommit_wf [OF wf]])
  ultimately have "conserves oc (flushGapBuffers nx now oc2)" by (rule conserves_trans)
  moreover have "ingestBatch nx now oc = oc \<or> ingestBatch nx now oc = flushGapBuffers nx now oc2 \<or>
    ingestBatch nx now oc = (flushGapBuffers nx now oc2)\<lparr>drained := True\<rparr>"
    unfolding ingestBatch_def Let_def oc2_def batch_def rest_def by presburger
  ultimately show ?thesis by (elim disjE) simp_all
qed

lemma funpow_ingestBatch_conserves:
  "committer_wf oc \<Longrightarrow> conserves oc ((ingestBatch nx now ^^ k) oc)"
  by (induction k) (auto intro: conserves_trans ingestBatch_conserves funpow_ingestBatch_wf)

lemma resetPartitions_conserves:
  "committer_wf oc \<Longrightarrow> conserves oc (resetPartitions nx pbs oc)"
proof (induction pbs arbitrary: oc)
  case (Cons pb pbs)
  obtain p b where pb: "pb = (p, b)" by fastforce
  obtain t' col where t: "resetTracker nx b (map_of (PartitionMap oc) p) = (t', col)" by fastforce
  let ?oc = "collectAll nx col (oc\<lparr>PartitionMap := AList.update p t' (PartitionMap oc)\<rparr>)"
  have "conserves oc ?oc"
    using Cons.prems resetTracker_cores [OF t] by (intro update_conserves) (simp_all add: committer_wf_def)
  moreover have "committer_wf ?oc"
    using ResetCommittedOffsets_wf [OF Cons.prems, of nx "[(p, b)]"] t by (simp add: ResetCommittedOffsets_def)
  ultimately show ?case using Cons.IH [of ?oc] conserves_trans pb t by fastforce
qed simp

lemma heldAll_revoke:
  "map_of pm p = Some t \<Longrightarrow> distinct (map fst pm) \<Longrightarrow>
   mset (heldAll (AList.update p (t\<lparr>Assignment := Revoke\<rparr>) pm)) = mset (heldAll pm)"
  using heldAll_update [of pm p "t\<lparr>Assignment := Revoke\<rparr>"] by (simp add: held_def)

lemma MarkPartition_conserves:
  "conserves oc (MarkPartitionAssigned now p oc)"
  "committer_wf oc \<Longrightarrow> conserves oc (MarkPartitionRevoked now p oc)"
  by (auto simp: conserves_def inside_def MarkPartitionAssigned_def MarkPartitionRevoked_def
      heldAll_revoke committer_wf_def split: option.split)

section \<open>The tick\<close>

lemma gatherCommits_cores:
  assumes "gatherCommits nx now asg pm = (pm', ms, cols)" "\<forall>(p, t) \<in> set pm. distinct (map wi_ptr (GapBuffer t))"
  shows "cores (heldAll pm') + cores cols = cores (heldAll pm)"
  using assms
proof (induction pm arbitrary: pm' ms cols)
  case (Cons pt pm)
  obtain p t where pt: "pt = (p, t)" by fastforce
  obtain t1 m col1 where g: "gatherTracker nx now (p \<in> asg) t = (t1, m, col1)" by (metis prod_cases3)
  obtain pm1 ms1 cols1 where gs: "gatherCommits nx now asg pm = (pm1, ms1, cols1)" by (metis prod_cases3)
  have res: "pm' = (p, t1) # pm1" "cols = col1 @ cols1" using Cons.prems(1) pt g gs by simp_all
  have "cores (held t1) + cores col1 = cores (held t)"
    using gatherTracker_cores [OF g] Cons.prems(2) pt by simp
  moreover have "cores (heldAll pm1) + cores cols1 = cores (heldAll pm)"
    using Cons.IH [OF gs] Cons.prems(2) by simp
  ultimately show ?case by (simp add: res pt) (metis (no_types, lifting) add.assoc add.left_commute)
qed simp

lemma heldAll_member: "(p, t) \<in> set pm \<Longrightarrow> mset (held t) \<subseteq># mset (heldAll pm)"
  by (induction pm) (auto intro: subset_mset.trans [OF _ mset_subset_eq_add_right])

lemma unique_ptr_tracker:
  assumes "unique fst (cores (inside oc))" "(p, t) \<in> set (PartitionMap oc)"
  shows "distinct (map wi_ptr (GapBuffer t))"
proof -
  have "mset (GapBuffer t) \<subseteq># mset (held t)" by (simp add: held_def)
  also have "mset (held t) \<subseteq># mset (heldAll (PartitionMap oc))"
    using assms(2) by (rule heldAll_member)
  also have "\<dots> \<subseteq># mset (inside oc)" by (simp add: inside_def)
  finally have "unique fst (cores (GapBuffer t))"
    using assms(1) by (meson image_mset_subseteq_mono unique_mono)
  then show ?thesis using unique_mset [of fst "map core (GapBuffer t)"] by (simp add: comp_def)
qed

lemma gatherState_conserves:
  assumes "committer_wf oc" "unique fst (cores (inside oc))" "gatherState nx now oc = (ms, oc')"
  shows "conserves oc oc'"
proof -
  define oc1 where "oc1 = flushGapBuffers nx now oc"
  have c1: "conserves oc oc1" unfolding oc1_def by (rule flushGapBuffers_conserves [OF assms(1)])
  obtain pm ms1 col where g: "gatherCommits nx now (assigned oc1) (PartitionMap oc1) = (pm, ms1, col)"
    by (metis prod_cases3)
  have oc': "oc' = collectAll nx col (oc1\<lparr>PartitionMap := pm\<rparr>)"
    using assms(3) g by (simp add: gatherState_def oc1_def Let_def)
  have "unique fst (cores (inside oc1))" using conserves_unique [OF c1 assms(2)] .
  then have "cores (heldAll pm) + cores col = cores (heldAll (PartitionMap oc1))"
    by (intro gatherCommits_cores [OF g]) (auto intro: unique_ptr_tracker)
  then have "conserves oc1 oc'" by (auto simp: conserves_def oc' inside_def add.assoc)
  with c1 show ?thesis by (rule conserves_trans)
qed

lemma ackCommits_conserves:
  assumes "committer_wf oc" "ackable ms oc" "ackCommits nx ms oc = Some oc'"
  shows "conserves oc oc'"
  using assms
proof (induction ms arbitrary: oc)
  case (Cons m ms)
  from Cons.prems(2) show ?case
  proof (rule ackable_step [where nx = nx])
    fix t r t'
    let ?oc = "collectAll nx [r] (oc\<lparr>PartitionMap := AList.update (msg_Partition m) t' (PartitionMap oc)\<rparr>)"
    assume t: "map_of (PartitionMap oc) (msg_Partition m) = Some t" "ackTracker m t = Some (t', [r])"
      and eq: "ackCommits nx (m # ms) oc = ackCommits nx ms ?oc" and ok: "ackable ms ?oc"
    have "own_items (msg_Partition m) t"
      using Cons.prems(1) t(1) by (auto simp: committer_wf_def intro: all_trackers_lookup)
    then have "own_items (msg_Partition m) t'"
      by (intro holds_items_cores [OF cores_add_subset [OF ackTracker_cores [OF t(2)]]])
        (auto simp: holds_items_def)
    with Cons.prems(1) have wf: "committer_wf ?oc" by (simp add: committer_wf_update)
    have "conserves oc ?oc"
      using Cons.prems(1) ackTracker_cores [OF t(2)] t(1)
      by (intro update_conserves) (simp_all add: committer_wf_def)
    moreover have "conserves ?oc oc'" using Cons.IH [OF wf ok] Cons.prems(3) eq by simp
    ultimately show ?case by (rule conserves_trans)
  qed
qed simp

lemma CommitOffsets_conserves:
  assumes "committer_wf oc" "unique fst (cores (inside oc))" "CommitOffsets nx now broker acq oc = (err, sent, oc')"
  shows "conserves oc oc'"
  using assms(3,1)
proof (cases rule: CommitOffsets_cases)
  case (sent oc2)
  have "conserves oc oc2" by (rule gatherState_conserves [OF assms(1,2) sent(2)])
  moreover have "conserves oc2 oc'"
    using ackCommits_conserves sent(5) gatherState_wf [OF assms(1) sent(2)] gatherState_batch [OF assms(1) sent(2)]
    by blast
  ultimately show ?thesis by (rule conserves_trans)
qed (use gatherState_conserves [OF assms(1,2)] in simp_all)

lemma DrainCommitter_conserves:
  assumes "committer_wf oc" "unique fst (cores (inside oc))" "DrainCommitter nx now broker acq tmo oc = (err, sent, oc')"
  shows "conserves oc oc'"
  using assms(3)
proof (rule DrainCommitter_batches)
  fix k d err0
  let ?oc = "((ingestBatch nx now ^^ k) (oc\<lparr>drained := False\<rparr>))\<lparr>drained := d\<rparr>"
  assume c: "CommitOffsets nx now broker acq ?oc = (err0, sent, oc')"
  have wf: "committer_wf (oc\<lparr>drained := False\<rparr>)" using assms(1) by simp
  have cons: "conserves oc ?oc"
    using funpow_ingestBatch_conserves [OF wf, where nx = nx and now = now and k = k] by simp
  have "committer_wf ?oc" by (simp add: funpow_ingestBatch_wf assms(1))
  from CommitOffsets_conserves [OF this conserves_unique [OF cons assms(2)] c] cons
  show ?thesis by (rule conserves_trans [rotated])
qed

section \<open>Accounting along a run\<close>

fun arrivals :: "'a committer_event list \<Rightarrow> 'a work_item list" where
  "arrivals [] = []"
| "arrivals (Arrive w # es) = w # arrivals es"
| "arrivals (e # es) = arrivals es"

text \<open>
  The pool hands out an item only while no one holds it: an arriving item is not already
  inside the committer.
\<close>

fun fresh_run :: "nexus \<Rightarrow> 'a committer_event list \<Rightarrow> 'a committer \<times> 'a message list \<Rightarrow> bool" where
  "fresh_run nx [] s = True"
| "fresh_run nx (e # es) s =
     ((case e of Arrive w \<Rightarrow> wi_ptr w \<notin> wi_ptr ` set (inside (fst s)) | _ \<Rightarrow> True) \<and>
      fresh_run nx es (committerStep nx e s))"

lemma committerStep_conserves:
  assumes "committer_wf oc" "unique fst (cores (inside oc))" "arrivals [e] = []"
  shows "conserves oc (fst (committerStep nx e (oc, acks)))"
proof (cases e)
  case (Tick now broker acq)
  then show ?thesis using CommitOffsets_conserves [OF assms(1,2)] by (auto split: prod.split)
next
  case (Drain now broker acq tmo)
  then show ?thesis using DrainCommitter_conserves [OF assms(1,2)] by (auto split: prod.split)
qed (use assms in \<open>simp_all add: ingestBatch_conserves MarkPartition_conserves
      ResetCommittedOffsets_def resetPartitions_conserves\<close>)

lemma arrive_inside:
  "cores (inside (CollectAndCommit w oc)) = add_mset (core w) (cores (inside oc))"
  "collected (CollectAndCommit w oc) = collected oc"
  by (simp_all add: CollectAndCommit_def inside_def)

lemma arrive_unique:
  assumes "unique fst (cores (inside oc))" "wi_ptr w \<notin> wi_ptr ` set (inside oc)"
  shows "unique fst (cores (inside (CollectAndCommit w oc)))"
  using assms unique_mset [of fst "map core (inside oc)"] unique_mset [of fst "map core (w # inside oc)"]
  by (simp add: arrive_inside comp_def)

lemma run_ledger:
  assumes "committer_wf oc" "unique fst (cores (inside oc))" "fresh_run nx es (oc, acks)"
    "fold (committerStep nx) es (oc, acks) = (oc', acks')"
  shows "\<exists>col. collected oc' = collected oc @ col \<and>
    keeps (cores (inside oc) + cores (arrivals es)) (cores (inside oc') + cores col)"
  using assms
proof (induction es arbitrary: oc acks)
  case (Cons e es)
  obtain oc1 acks1 where st: "committerStep nx e (oc, acks) = (oc1, acks1)" by fastforce
  have wf1: "committer_wf oc1" using committerStep_wf [of "(oc, acks)" nx e] Cons.prems(1) st by simp
  have run: "fresh_run nx es (oc1, acks1)" "fold (committerStep nx) es (oc1, acks1) = (oc', acks')"
    using Cons.prems(3,4) st by simp_all
  show ?case
  proof (cases "\<exists>w. e = Arrive w")
    case True
    then obtain w where e: "e = Arrive w" by blast
    with st have oc1: "oc1 = CollectAndCommit w oc" by simp
    have "unique fst (cores (inside oc1))"
      unfolding oc1 using Cons.prems(2,3) e by (intro arrive_unique) auto
    from Cons.IH [OF wf1 this run] show ?thesis by (simp add: oc1 arrive_inside e)
  next
    case False
    then have none: "arrivals [e] = []" "arrivals (e # es) = arrivals es" by (cases e; simp)+
    have c: "conserves oc oc1"
      using committerStep_conserves [OF Cons.prems(1,2) none(1), of nx acks] st by simp
    then obtain c1 where c1: "collected oc1 = collected oc @ c1"
      "keeps (cores (inside oc)) (cores (inside oc1) + cores c1)" by (auto simp: conserves_def)
    from Cons.IH [OF wf1 conserves_unique [OF c Cons.prems(2)] run] obtain c2 where
      c2: "collected oc' = collected oc1 @ c2"
        "keeps (cores (inside oc1) + cores (arrivals es)) (cores (inside oc') + cores c2)" by blast
    have "keeps (cores (inside oc) + cores (arrivals es)) (cores (inside oc') + cores (c1 @ c2))"
      using keeps_trans [OF keeps_add [OF c1(2) keeps_refl, of "cores (arrivals es)"],
          of "cores (inside oc') + cores c2 + cores c1"] keeps_add [OF c2(2) keeps_refl, of "cores c1"]
      by (simp add: ac_simps)
    with c1(1) c2(1) none(2) show ?thesis by (intro exI [of _ "c1 @ c2"]) simp
  qed
qed simp

text \<open>
  C14. Work item accounting: in every run in which the pool hands out no item that is still
  inside, the items inside the committer and those handed to the metrics collector are, with
  multiplicity, among those it was given, so none is released twice; every partition and
  offset that came in is still inside or was handed over; and when no offset came in twice
  nothing at all is lost.
\<close>

theorem items_accounted:
  assumes "committer_wf oc" "distinct (map wi_ptr (inside oc))" "fresh_run nx es (oc, acks)"
    "fold (committerStep nx) es (oc, acks) = (oc', acks')"
  shows "\<exists>col. collected oc' = collected oc @ col \<and>
    cores (inside oc') + cores col \<subseteq># cores (inside oc) + cores (arrivals es) \<and>
    PartitionOffset ` (set (inside oc') \<union> set col) = PartitionOffset ` (set (inside oc) \<union> set (arrivals es)) \<and>
    (distinct (map PartitionOffset (inside oc @ arrivals es)) \<longrightarrow>
       cores (inside oc') + cores col = cores (inside oc) + cores (arrivals es))"
proof -
  have u: "unique fst (cores (inside oc))"
    using assms(2) unique_mset [of fst "map core (inside oc)"] by (simp add: comp_def)
  have po: "PartitionOffset = (\<lambda>w :: 'a work_item. (wi_partition w, wi_offset w))"
    by (simp add: fun_eq_iff PartitionOffset_def)
  have pl: "place ` core ` A = PartitionOffset ` A" for A :: "'a work_item set"
    by (auto simp: PartitionOffset_def image_iff)
  have "unique place (cores (inside oc) + cores (arrivals es))"
    if "distinct (map PartitionOffset (inside oc @ arrivals es))"
    using that unique_mset [of place "map core (inside oc @ arrivals es)"]
    by (simp add: comp_def po)
  with run_ledger [OF assms(1) u assms(3,4)] show ?thesis
    by (auto simp: keeps_def image_Un pl)
qed

theorem items_accounted_witness:
  "(\<exists>col. collected (fst (fold (committerStep exNexus) exEvents (exOwner, []))) = collected exOwner @ col \<and>
     cores (inside (fst (fold (committerStep exNexus) exEvents (exOwner, [])))) + cores col =
       cores (inside exOwner) + cores (arrivals exEvents)) \<and>
   map wi_offset (arrivals exEvents) = [5, 7, 6, 9, 8]"
proof -
  have "distinct (map wi_ptr (inside exOwner))" by code_simp
  moreover have "fresh_run exNexus exEvents (exOwner, [])" by code_simp
  moreover have "distinct (map PartitionOffset (inside exOwner @ arrivals exEvents))" by code_simp
  moreover have "map wi_offset (arrivals exEvents) = [5, 7, 6, 9, 8]" by code_simp
  ultimately show ?thesis
    using items_accounted [OF exOwner_wf, of exNexus exEvents "[]"] by (metis prod.collapse)
qed

end
