(* ===== verification/Prev_Offsets.thy ===== *)
theory Prev_Offsets
  imports Demux_Prelude
begin

text \<open>
  The previous-offset tracker (demux/pipeline/prev/prev_partition_offsets.go), which stamps
  each message with its predecessor in the partition's delivery stream, and the interface
  it offers to the pipeline: within one ownership epoch the stamps link the delivered
  offsets into one ascending chain.
\<close>

section \<open>Operations\<close>

type_synonym PartitionOffsets = "(partition \<times> int) list"

datatype offset_error =
    ErrNegativeOffset int partition
  | ErrDuplicateOffset int partition
  | ErrOffsetRegression int int partition

definition NewPartitionOffsets :: PartitionOffsets where
  "NewPartitionOffsets = []"

text \<open>The previous offset and the first flag, or an error; the tracker is updated.\<close>

definition GetPrevious ::
  "partition \<Rightarrow> int \<Rightarrow> PartitionOffsets \<Rightarrow> (offset_error + int \<times> bool) \<times> PartitionOffsets" where
  "GetPrevious p k po =
     (if k < 0 then (Inl (ErrNegativeOffset k p), po)
      else
        (case map_of po p of
           Some prevOffset \<Rightarrow>
             if k > prevOffset then (Inr (prevOffset, False), AList.update p k po)
             else if k = prevOffset then (Inl (ErrDuplicateOffset k p), po)
             else (Inl (ErrOffsetRegression prevOffset k p), po)
         | None \<Rightarrow> (Inr (k - 1, True), AList.update p k po)))"

definition Reset :: "partition list \<Rightarrow> PartitionOffsets \<Rightarrow> PartitionOffsets" where
  "Reset partitions po = (if length partitions = 0 then [] else fold AList.delete partitions po)"

section \<open>Behaviour\<close>

lemma map_of_delete_keys: "map_of (fold AList.delete ps po) q = (if q \<in> set ps then None else map_of po q)"
  by (induction ps arbitrary: po) (auto simp: delete_conv')

lemma Reset_lookup:
  "map_of (Reset ps po) q = (if ps = [] \<or> q \<in> set ps then None else map_of po q)"
  by (simp add: Reset_def map_of_delete_keys)

lemma GetPrevious_InrD:
  assumes "GetPrevious p k po = (Inr (prev, fst_flag), po')"
  shows "0 \<le> k" "prev < k" "po' = AList.update p k po" "fst_flag \<longleftrightarrow> map_of po p = None"
    "fst_flag \<Longrightarrow> prev = k - 1" "\<not> fst_flag \<Longrightarrow> map_of po p = Some prev"
  using assms by (auto simp: GetPrevious_def split: if_splits option.splits)

section \<open>The stream of one epoch\<close>

text \<open>Stamping a sequence of messages, as the polling loop does until the first error.\<close>

fun stampStream :: "(partition \<times> int) list \<Rightarrow> PartitionOffsets \<Rightarrow> (partition \<times> int \<times> int \<times> bool) list \<times> PartitionOffsets" where
  "stampStream [] po = ([], po)"
| "stampStream ((p, k) # ms) po =
     (case GetPrevious p k po of
        (Inl e, po') \<Rightarrow> ([], po')
      | (Inr (prev, first), po') \<Rightarrow>
          (let (ss, po'') = stampStream ms po' in ((p, k, prev, first) # ss, po'')))"

text \<open>
  The chain of one partition from the last accepted offset on: each stamp names the
  offset before it, only a stream with no predecessor starts with the first flag.
\<close>

fun linkedFrom :: "int option \<Rightarrow> (int \<times> int \<times> bool) list \<Rightarrow> bool" where
  "linkedFrom q [] = True"
| "linkedFrom q ((k, prev, first) # ss) =
     (0 \<le> k \<and> prev < k \<and> (case q of None \<Rightarrow> first \<and> prev = k - 1 | Some j \<Rightarrow> \<not> first \<and> prev = j) \<and>
      linkedFrom (Some k) ss)"

definition streamOf :: "partition \<Rightarrow> (partition \<times> int \<times> int \<times> bool) list \<Rightarrow> (int \<times> int \<times> bool) list" where
  "streamOf p ss = map snd (filter (\<lambda>s. fst s = p) ss)"

lemma stamps_linked: "linkedFrom (map_of po p) (streamOf p (fst (stampStream ms po)))"
proof (induction ms po rule: stampStream.induct)
  case (2 q k ms po)
  show ?case
  proof (cases "GetPrevious q k po")
    case (Pair r po')
    show ?thesis
    proof (cases r)
      case (Inl e)
      with Pair show ?thesis by (simp add: streamOf_def)
    next
      case (Inr s)
      obtain prev first where s: "s = (prev, first)" by fastforce
      note g = GetPrevious_InrD [OF Pair [unfolded Inr s]]
      have IH: "linkedFrom (map_of po' p) (streamOf p (fst (stampStream ms po')))"
        by (rule 2 [OF Pair [symmetric] Inr s [symmetric]])
      show ?thesis
      proof (cases "q = p")
        case True
        with IH g Pair Inr s show ?thesis
          by (cases first) (auto simp: streamOf_def split: option.splits prod.splits)
      next
        case False
        with IH g(3) Pair Inr s show ?thesis by (auto simp: streamOf_def split: prod.splits)
      qed
    qed
  qed
qed (simp add: streamOf_def)

text \<open>
  C17. The tracker accepts exactly the offsets that continue a partition's stream: an offset
  is refused, leaving the tracker as it was, iff it is negative or not above the last one
  accepted in this epoch; an accepted one is stamped with that last offset, or as the first
  of the epoch, and becomes the last one. Hence, whatever partitions a delivered sequence
  interleaves, the stamps of each partition form one strictly ascending chain that continues
  from the partition's last offset, and only a stream that starts after a reset starts with a
  first flag.
\<close>

theorem GetPrevious_spec:
  "(case GetPrevious p k po of
      (Inl e, po') \<Rightarrow> po' = po \<and>
        (k < 0 \<and> e = ErrNegativeOffset k p \<or>
         0 \<le> k \<and> map_of po p = Some k \<and> e = ErrDuplicateOffset k p \<or>
         (\<exists>q. 0 \<le> k \<and> map_of po p = Some q \<and> k < q \<and> e = ErrOffsetRegression q k p))
    | (Inr (prev, first), po') \<Rightarrow> 0 \<le> k \<and> map_of po' p = Some k \<and>
        (\<forall>q. q \<noteq> p \<longrightarrow> map_of po' q = map_of po q) \<and>
        (case map_of po p of None \<Rightarrow> first \<and> prev = k - 1 | Some q \<Rightarrow> \<not> first \<and> prev = q \<and> q < k)) \<and>
   linkedFrom (map_of po p) (streamOf p (fst (stampStream ms po)))"
  using stamps_linked [of po p ms] by (auto simp: GetPrevious_def split: option.splits)

theorem GetPrevious_spec_witness:
  "GetPrevious 1 9 [(0, 3), (1, 7)] = (Inr (7, False), [(0, 3), (1, 9)]) \<and>
   map_of (snd (GetPrevious 1 9 [(0, 3), (1, 7)])) 0 = map_of [(0, 3), (1, 7)] 0 \<and>
   streamOf 1 (fst (stampStream [(1, 9), (0, 4), (1, 12)] [(0, 3), (1, 7)])) = [(9, 7, False), (12, 9, False)] \<and>
   linkedFrom (Some 7) [(9, 7, False), (12, 9, False)]"
proof -
  have g: "GetPrevious 1 9 [(0, 3), (1, 7)] = (Inr (7, False), [(0, 3), (1, 9)])" by code_simp
  have s: "streamOf 1 (fst (stampStream [(1, 9), (0, 4), (1, 12)] [(0, 3), (1, 7)])) = [(9, 7, False), (12, 9, False)]"
    by code_simp
  from GetPrevious_spec [where p = 1 and k = 9 and po = "[(0, 3), (1, 7)]" and ms = "[(1, 9), (0, 4), (1, 12)]"] g s
  show ?thesis by simp
qed

end
