(* ===== verification/Demux_Config.thy ===== *)
theory Demux_Config
  imports Demux_Prelude
begin

text \<open>
  The tuning parameters (demux/config/demux_config.go and demux_config_defaults.go): the
  defaults and bounds of every field, the panics of the validation as error values, and
  the sizes other components derive from a configuration. \<open>skip\<close> is the value of
  \<open>isValidationSkipped\<close>.
\<close>

section \<open>The constants\<close>

definition minute :: duration where [simp]: "minute = 60 * second"

text \<open>Concurrency and buffers per key.\<close>

definition concurrentKeys :: int where [simp]: "concurrentKeys = 250"
definition concurrentKeysMin :: int where [simp]: "concurrentKeysMin = 1"
definition concurrentKeysMax :: int where [simp]: "concurrentKeysMax = 5000"
definition perKeyBufferLen :: int where [simp]: "perKeyBufferLen = 16"
definition perKeyBufferLenMin :: int where [simp]: "perKeyBufferLenMin = 1"
definition perKeyBufferLenMax :: int where [simp]: "perKeyBufferLenMax = 64"

text \<open>Polling, commits and drains.\<close>

definition pollTimeout :: duration where [simp]: "pollTimeout = 100 * millisecond"
definition pollTimeoutMinimum :: duration where [simp]: "pollTimeoutMinimum = 20 * millisecond"
definition pollTimeoutMax :: duration where [simp]: "pollTimeoutMax = 2 * second"
definition commitInterval :: duration where [simp]: "commitInterval = 5 * second"
definition commitIntervalMinimum :: duration where [simp]: "commitIntervalMinimum = 250 * millisecond"
definition commitIntervalMax :: duration where [simp]: "commitIntervalMax = 15 * second"
definition drainTimeout :: duration where [simp]: "drainTimeout = 20 * second"
definition drainTimeoutMinimum :: duration where [simp]: "drainTimeoutMinimum = 2 * second"
definition drainTimeoutMax :: duration where [simp]: "drainTimeoutMax = 55 * second"
definition awaitAssignmentsTimeout :: duration where [simp]: "awaitAssignmentsTimeout = 50 * second"
definition awaitAssignmentsTimeoutMinimum :: duration where [simp]: "awaitAssignmentsTimeoutMinimum = 5 * second"
definition awaitAssignmentsTimeoutMax :: duration where [simp]: "awaitAssignmentsTimeoutMax = 5 * minute"

text \<open>The ingest channel and the gap buffers.\<close>

definition commitIngestChannelLenCalcMin :: int where [simp]: "commitIngestChannelLenCalcMin = 5000"
definition commitIngestChannelLenCalcMax :: int where [simp]: "commitIngestChannelLenCalcMax = 100000"
definition commitIngestChannelLenMin :: int where [simp]: "commitIngestChannelLenMin = 1000"
definition commitIngestChannelLenMax :: int where [simp]: "commitIngestChannelLenMax = 200000"
definition commitPartitionSliceLen :: int where [simp]: "commitPartitionSliceLen = 400"
definition commitPartitionSliceLenMin :: int where [simp]: "commitPartitionSliceLenMin = 50"
definition commitPartitionSliceLenMax :: int where [simp]: "commitPartitionSliceLenMax = 2000"

text \<open>Queries, safety valves and shards.\<close>

definition queryTimeout :: duration where [simp]: "queryTimeout = 5 * second"
definition queryTimeoutMinimum :: duration where [simp]: "queryTimeoutMinimum = 1 * second"
definition queryTimeoutMax :: duration where [simp]: "queryTimeoutMax = 10 * second"
definition acquireWorkerTimeoutCircuitBreaker :: duration where [simp]: "acquireWorkerTimeoutCircuitBreaker = minute"
definition acquireWorkerTimeoutCircuitBreakerMinimum :: duration where [simp]: "acquireWorkerTimeoutCircuitBreakerMinimum = 15 * second"
definition acquireWorkerTimeoutCircuitBreakerMax :: duration where [simp]: "acquireWorkerTimeoutCircuitBreakerMax = 15 * minute"
definition workerShardsCount :: int where [simp]: "workerShardsCount = 16"
definition workerShardsCountMax :: int where [simp]: "workerShardsCountMax = 64"
definition rebalancePausePollingTimeout :: duration where [simp]: "rebalancePausePollingTimeout = 30 * second"
definition rebalancePausePollingTimeoutMinimum :: duration where [simp]: "rebalancePausePollingTimeoutMinimum = 10 * second"
definition rebalancePausePollingTimeoutMax :: duration where [simp]: "rebalancePausePollingTimeoutMax = 10 * minute"
definition acquireCommitGuardTimeout :: duration where [simp]: "acquireCommitGuardTimeout = 10 * second"
definition acquireCommitGuardTimeoutMinimum :: duration where [simp]: "acquireCommitGuardTimeoutMinimum = 100 * millisecond"
definition acquireCommitGuardTimeoutMax :: duration where [simp]: "acquireCommitGuardTimeoutMax = 30 * second"

text \<open>
  The environment variable that switches validation off. \<open>EqualFold\<close> compares without
  regard to case; no letter of the word it is compared with has a case variant outside ASCII.
\<close>

definition SkipValidationEnvVar :: string where "SkipValidationEnvVar = ''LLINGR_DEMUX_SKIP_CONFIG_VALIDATION''"

definition foldCase :: "char \<Rightarrow> char" where
  "foldCase ch = (let n = of_char ch :: nat in if 65 \<le> n \<and> n \<le> 90 then char_of (n + 32) else ch)"

definition EqualFold :: "string \<Rightarrow> string \<Rightarrow> bool" where
  "EqualFold s t \<longleftrightarrow> map foldCase s = map foldCase t"

definition isValidationSkipped :: "(string \<Rightarrow> string) \<Rightarrow> bool" where
  "isValidationSkipped getenv \<longleftrightarrow> EqualFold (getenv SkipValidationEnvVar) ''true''"

section \<open>The record and its defaults\<close>

record DemuxConfig =
  ConcurrentKeys :: int
  PerKeyBufferLen :: int
  PollTimeout :: duration
  AutoCommitInterval :: duration
  DrainTimeout :: duration
  AwaitAssignmentsTimeout :: duration
  CommitIngestChannelLen :: int
  CommitPartitionSliceLen :: int
  QueryTimeout :: duration
  AcquireWorkerTimeoutCircuitBreaker :: duration
  WorkerShardsCount :: int
  RebalancePausePollingTimeout :: duration
  AcquireCommitGuardTimeout :: duration

text \<open>The field a panic names, with the value and the bound it violates.\<close>

datatype config_error =
    NoLessThan string int int
  | NoMoreThan string int int
  | NotPowerOfTwo int

definition andThen :: "'e + 'a \<Rightarrow> ('a \<Rightarrow> 'e + 'b) \<Rightarrow> 'e + 'b" where
  "andThen r f = (case r of Inl e \<Rightarrow> Inl e | Inr x \<Rightarrow> f x)"

lemma andThen_simps [simp]: "andThen (Inl e) f = Inl e" "andThen (Inr x) f = f x"
  by (simp_all add: andThen_def)

lemma andThen_Inr: "andThen r f = Inr y \<longleftrightarrow> (\<exists>x. r = Inr x \<and> f x = Inr y)"
  by (simp add: andThen_def split: sum.split)

text \<open>
  The shape every field but the shard count has: a value below one is replaced by the
  default, any other has to lie between the bounds unless validation is skipped.
\<close>

definition boundedField :: "bool \<Rightarrow> string \<Rightarrow> int \<Rightarrow> int \<Rightarrow> int \<Rightarrow> int \<Rightarrow> config_error + int" where
  "boundedField skip name dflt lo hi v =
     (if v < 1 then Inr dflt
      else if v < lo \<and> \<not> skip then Inl (NoLessThan name v lo)
      else if v > hi \<and> \<not> skip then Inl (NoMoreThan name v hi)
      else Inr v)"

text \<open>\<open>bits.OnesCount\<close> of the standard library: the number of one bits.\<close>

fun onesCount :: "nat \<Rightarrow> nat" where
  "onesCount n = (if n = 0 then 0 else n mod 2 + onesCount (n div 2))"

declare onesCount.simps [simp del]

definition isPowerOfTwo :: "int \<Rightarrow> bool" where
  "isPowerOfTwo value \<longleftrightarrow> value \<ge> 2 \<and> onesCount (nat value) = 1"

definition shardsField :: "bool \<Rightarrow> int \<Rightarrow> config_error + int" where
  "shardsField skip v =
     (if v < 1 then Inr workerShardsCount
      else if \<not> isPowerOfTwo v then Inl (NotPowerOfTwo v)
      else if v > workerShardsCountMax \<and> \<not> skip then Inl (NoMoreThan ''WorkerShardsCount'' v workerShardsCountMax)
      else Inr v)"

definition ingestChannelLen :: "int \<Rightarrow> int" where
  "ingestChannelLen keys =
     (if keys < 50 then commitIngestChannelLenCalcMin
      else if keys > 1000 then commitIngestChannelLenCalcMax
      else keys * 100)"

definition SetDemuxConfigDefaults :: "bool \<Rightarrow> DemuxConfig \<Rightarrow> config_error + DemuxConfig" where
  "SetDemuxConfigDefaults skip c =
     andThen (boundedField skip ''ConcurrentKeys'' concurrentKeys concurrentKeysMin concurrentKeysMax (ConcurrentKeys c)) (\<lambda>keys.
     andThen (boundedField skip ''PerKeyBufferLen'' perKeyBufferLen perKeyBufferLenMin perKeyBufferLenMax (PerKeyBufferLen c)) (\<lambda>bufLen.
     andThen (boundedField skip ''PollTimeout'' pollTimeout pollTimeoutMinimum pollTimeoutMax (PollTimeout c)) (\<lambda>poll.
     andThen (boundedField skip ''AutoCommitInterval'' commitInterval commitIntervalMinimum commitIntervalMax (AutoCommitInterval c)) (\<lambda>commit.
     andThen (boundedField skip ''QueryTimeout'' queryTimeout queryTimeoutMinimum queryTimeoutMax (QueryTimeout c)) (\<lambda>query.
     andThen (boundedField skip ''DrainTimeout'' drainTimeout drainTimeoutMinimum drainTimeoutMax (DrainTimeout c)) (\<lambda>drain.
     andThen (boundedField skip ''AwaitAssignmentsTimeout'' awaitAssignmentsTimeout awaitAssignmentsTimeoutMinimum
       awaitAssignmentsTimeoutMax (AwaitAssignmentsTimeout c)) (\<lambda>await.
     andThen (boundedField skip ''CommitIngestChannelLen'' (ingestChannelLen keys) commitIngestChannelLenMin
       commitIngestChannelLenMax (CommitIngestChannelLen c)) (\<lambda>ingest.
     andThen (boundedField skip ''CommitPartitionSliceLen'' commitPartitionSliceLen commitPartitionSliceLenMin
       commitPartitionSliceLenMax (CommitPartitionSliceLen c)) (\<lambda>slice.
     andThen (boundedField skip ''AcquireWorkerTimeoutCircuitBreaker'' acquireWorkerTimeoutCircuitBreaker
       acquireWorkerTimeoutCircuitBreakerMinimum acquireWorkerTimeoutCircuitBreakerMax (AcquireWorkerTimeoutCircuitBreaker c)) (\<lambda>acquire.
     andThen (shardsField skip (WorkerShardsCount c)) (\<lambda>shards.
     andThen (boundedField skip ''RebalancePausePollingTimeout'' rebalancePausePollingTimeout
       rebalancePausePollingTimeoutMinimum rebalancePausePollingTimeoutMax (RebalancePausePollingTimeout c)) (\<lambda>pause.
     andThen (boundedField skip ''AcquireCommitGuardTimeout'' acquireCommitGuardTimeout acquireCommitGuardTimeoutMinimum
       acquireCommitGuardTimeoutMax (AcquireCommitGuardTimeout c)) (\<lambda>guard.
       Inr \<lparr>ConcurrentKeys = keys, PerKeyBufferLen = bufLen, PollTimeout = poll,
         AutoCommitInterval = commit, DrainTimeout = drain, AwaitAssignmentsTimeout = await,
         CommitIngestChannelLen = ingest, CommitPartitionSliceLen = slice, QueryTimeout = query,
         AcquireWorkerTimeoutCircuitBreaker = acquire, WorkerShardsCount = shards,
         RebalancePausePollingTimeout = pause, AcquireCommitGuardTimeout = guard\<rparr>)))))))))))))"

section \<open>Derived sizes\<close>

text \<open>A division by a shard count of zero would panic: \<open>None\<close>.\<close>

definition CalcWorkerChannelsMapSize :: "DemuxConfig \<Rightarrow> int option" where
  "CalcWorkerChannelsMapSize c =
     (if WorkerShardsCount c = 0 then None
      else
        (let cnt = 2 * (ConcurrentKeys c sdiv WorkerShardsCount c) in
         Some (if cnt \<le> 64 then 128 else if cnt \<le> 128 then 256 else if cnt \<le> 256 then 512
           else if cnt \<le> 512 then 1024 else if cnt \<le> 1024 then 2048 else 4096)))"

definition cmpOr :: "int \<Rightarrow> int \<Rightarrow> int" where
  "cmpOr a b = (if a \<noteq> 0 then a else b)"

definition CalcMinimumIdleWorkers :: "DemuxConfig \<Rightarrow> int" where
  "CalcMinimumIdleWorkers c =
     (let shardsCount = cmpOr (WorkerShardsCount c) workerShardsCount;
          keys = cmpOr (ConcurrentKeys c) concurrentKeys
      in (shardsCount + keys - 1) sdiv shardsCount)"

section \<open>Powers of two\<close>

lemma onesCount_small [simp]: "onesCount 0 = 0" "onesCount (Suc 0) = 1"
  by (simp add: onesCount.simps) (simp add: onesCount.simps [of "Suc 0"] onesCount.simps [of 0])

lemma onesCount_double: "onesCount (2 * n) = onesCount n"
  by (cases "n = 0") (simp_all add: onesCount.simps [of "2 * n"])

lemma onesCount_power: "onesCount (2 ^ k) = 1"
  by (induction k) (simp_all add: onesCount_double)

lemma onesCount_0: "onesCount n = 0 \<longleftrightarrow> n = 0"
proof (induction n rule: onesCount.induct)
  case (1 n)
  show ?case
  proof (cases "n = 0")
    case False
    with 1 have "n mod 2 + onesCount (n div 2) = 0 \<longleftrightarrow> n mod 2 = 0 \<and> n div 2 = 0" by simp
    with False show ?thesis by (subst onesCount.simps) presburger
  qed simp
qed

lemma onesCount_1: "onesCount n = 1 \<Longrightarrow> \<exists>k. n = 2 ^ k"
proof (induction n rule: onesCount.induct)
  case (1 n)
  have n: "n \<noteq> 0" using 1(2) by (intro notI) simp
  then have sum: "n mod 2 + onesCount (n div 2) = 1" using 1(2) onesCount.simps [of n] by simp
  show ?case
  proof (cases "n mod 2 = 0")
    case True
    with 1(1) n sum obtain k where "n div 2 = 2 ^ k" by auto
    with True have "n = 2 ^ Suc k" by (auto simp: mult.commute dest: mod_0_imp_dvd)
    then show ?thesis by blast
  next
    case False
    with sum have "onesCount (n div 2) = 0" "n mod 2 = 1" by auto
    then have "n = 2 ^ 0" by (simp add: onesCount_0)
    then show ?thesis by blast
  qed
qed

lemma isPowerOfTwo_iff: "isPowerOfTwo v \<longleftrightarrow> (\<exists>k \<ge> 1. v = 2 ^ k)"
proof
  assume v: "isPowerOfTwo v"
  then obtain k where "nat v = 2 ^ k" using onesCount_1 [of "nat v"] by (auto simp: isPowerOfTwo_def)
  with v have k: "v = 2 ^ k" by (auto simp: isPowerOfTwo_def nat_eq_iff)
  moreover have "k \<noteq> 0" using v k by (cases k) (auto simp: isPowerOfTwo_def)
  ultimately show "\<exists>k \<ge> 1. v = 2 ^ k" by (intro exI [of _ k]) simp
next
  assume "\<exists>k \<ge> 1. v = 2 ^ k"
  then obtain k where "1 \<le> k" "v = 2 ^ k" by blast
  then show "isPowerOfTwo v"
    using onesCount_power [of k] self_le_power [of "2 :: int" k]
    by (simp add: isPowerOfTwo_def nat_power_eq)
qed

section \<open>What a validated configuration satisfies\<close>

definition config_valid :: "DemuxConfig \<Rightarrow> bool" where
  "config_valid c \<longleftrightarrow>
     1 \<le> ConcurrentKeys c \<and> ConcurrentKeys c \<le> 5000 \<and>
     1 \<le> PerKeyBufferLen c \<and> PerKeyBufferLen c \<le> 64 \<and>
     20 * millisecond \<le> PollTimeout c \<and> PollTimeout c \<le> 2 * second \<and>
     250 * millisecond \<le> AutoCommitInterval c \<and> AutoCommitInterval c \<le> 15 * second \<and>
     2 * second \<le> DrainTimeout c \<and> DrainTimeout c \<le> 55 * second \<and>
     5 * second \<le> AwaitAssignmentsTimeout c \<and> AwaitAssignmentsTimeout c \<le> 300 * second \<and>
     1000 \<le> CommitIngestChannelLen c \<and> CommitIngestChannelLen c \<le> 200000 \<and>
     50 \<le> CommitPartitionSliceLen c \<and> CommitPartitionSliceLen c \<le> 2000 \<and>
     1 * second \<le> QueryTimeout c \<and> QueryTimeout c \<le> 10 * second \<and>
     15 * second \<le> AcquireWorkerTimeoutCircuitBreaker c \<and> AcquireWorkerTimeoutCircuitBreaker c \<le> 900 * second \<and>
     isPowerOfTwo (WorkerShardsCount c) \<and> WorkerShardsCount c \<le> 64 \<and>
     10 * second \<le> RebalancePausePollingTimeout c \<and> RebalancePausePollingTimeout c \<le> 600 * second \<and>
     100 * millisecond \<le> AcquireCommitGuardTimeout c \<and> AcquireCommitGuardTimeout c \<le> 30 * second"

lemma boundedField_Inr:
  "boundedField False name dflt lo hi v = Inr x \<Longrightarrow> lo \<le> dflt \<Longrightarrow> dflt \<le> hi \<Longrightarrow> lo \<le> x \<and> x \<le> hi"
  by (auto simp: boundedField_def split: if_splits)

lemma boundedField_valid: "1 \<le> lo \<Longrightarrow> lo \<le> v \<Longrightarrow> v \<le> hi \<Longrightarrow> boundedField skip name dflt lo hi v = Inr v"
  by (auto simp: boundedField_def)

lemma isPowerOfTwo_power: "1 \<le> k \<Longrightarrow> isPowerOfTwo (2 ^ k)"
  unfolding isPowerOfTwo_iff by blast

lemma isPowerOfTwo_numerals [simp]:
  "isPowerOfTwo 16" "isPowerOfTwo 32" "isPowerOfTwo 128" "isPowerOfTwo 256" "isPowerOfTwo 512"
  "isPowerOfTwo 1024" "isPowerOfTwo 2048" "isPowerOfTwo 4096"
  using isPowerOfTwo_power [of 4] isPowerOfTwo_power [of 5] isPowerOfTwo_power [of 7]
    isPowerOfTwo_power [of 8] isPowerOfTwo_power [of 9] isPowerOfTwo_power [of 10]
    isPowerOfTwo_power [of 11] isPowerOfTwo_power [of 12] by simp_all

lemma shardsField_Inr: "shardsField False v = Inr x \<Longrightarrow> isPowerOfTwo x \<and> x \<le> 64"
  by (auto simp: shardsField_def split: if_splits)

lemma shardsField_valid: "isPowerOfTwo v \<Longrightarrow> v \<le> 64 \<Longrightarrow> shardsField skip v = Inr v"
  by (auto simp: shardsField_def isPowerOfTwo_def)

lemma ingestChannelLen_bounds: "1000 \<le> ingestChannelLen k \<and> ingestChannelLen k \<le> 200000"
  by (auto simp: ingestChannelLen_def)

lemma SetDemuxConfigDefaults_fields:
  assumes "SetDemuxConfigDefaults skip c = Inr c'"
  shows
    "boundedField skip ''ConcurrentKeys'' concurrentKeys concurrentKeysMin concurrentKeysMax (ConcurrentKeys c) = Inr (ConcurrentKeys c')"
    "boundedField skip ''PerKeyBufferLen'' perKeyBufferLen perKeyBufferLenMin perKeyBufferLenMax (PerKeyBufferLen c) = Inr (PerKeyBufferLen c')"
    "boundedField skip ''PollTimeout'' pollTimeout pollTimeoutMinimum pollTimeoutMax (PollTimeout c) = Inr (PollTimeout c')"
    "boundedField skip ''AutoCommitInterval'' commitInterval commitIntervalMinimum commitIntervalMax (AutoCommitInterval c) = Inr (AutoCommitInterval c')"
    "boundedField skip ''QueryTimeout'' queryTimeout queryTimeoutMinimum queryTimeoutMax (QueryTimeout c) = Inr (QueryTimeout c')"
    "boundedField skip ''DrainTimeout'' drainTimeout drainTimeoutMinimum drainTimeoutMax (DrainTimeout c) = Inr (DrainTimeout c')"
    "boundedField skip ''AwaitAssignmentsTimeout'' awaitAssignmentsTimeout awaitAssignmentsTimeoutMinimum
       awaitAssignmentsTimeoutMax (AwaitAssignmentsTimeout c) = Inr (AwaitAssignmentsTimeout c')"
    "boundedField skip ''CommitIngestChannelLen'' (ingestChannelLen (ConcurrentKeys c')) commitIngestChannelLenMin
       commitIngestChannelLenMax (CommitIngestChannelLen c) = Inr (CommitIngestChannelLen c')"
    "boundedField skip ''CommitPartitionSliceLen'' commitPartitionSliceLen commitPartitionSliceLenMin
       commitPartitionSliceLenMax (CommitPartitionSliceLen c) = Inr (CommitPartitionSliceLen c')"
    "boundedField skip ''AcquireWorkerTimeoutCircuitBreaker'' acquireWorkerTimeoutCircuitBreaker
       acquireWorkerTimeoutCircuitBreakerMinimum acquireWorkerTimeoutCircuitBreakerMax (AcquireWorkerTimeoutCircuitBreaker c) = Inr (AcquireWorkerTimeoutCircuitBreaker c')"
    "shardsField skip (WorkerShardsCount c) = Inr (WorkerShardsCount c')"
    "boundedField skip ''RebalancePausePollingTimeout'' rebalancePausePollingTimeout
       rebalancePausePollingTimeoutMinimum rebalancePausePollingTimeoutMax (RebalancePausePollingTimeout c) = Inr (RebalancePausePollingTimeout c')"
    "boundedField skip ''AcquireCommitGuardTimeout'' acquireCommitGuardTimeout acquireCommitGuardTimeoutMinimum
       acquireCommitGuardTimeoutMax (AcquireCommitGuardTimeout c) = Inr (AcquireCommitGuardTimeout c')"
  using assms by (auto simp: SetDemuxConfigDefaults_def andThen_Inr)

lemma SetDemuxConfigDefaults_valid:
  assumes "SetDemuxConfigDefaults False c = Inr c'"
  shows "config_valid c'"
proof -
  note f = SetDemuxConfigDefaults_fields [OF assms]
  show ?thesis
    using f(1-10,12,13) [THEN boundedField_Inr] shardsField_Inr [OF f(11)]
      ingestChannelLen_bounds [of "ConcurrentKeys c'"]
    by (simp add: config_valid_def second_def millisecond_def)
qed

text \<open>
  Derived sizes of a valid configuration: the idle workers kept per shard are the ceiling of
  the concurrent keys per shard, and the worker map size is a power of two.
\<close>

lemma derived_sizes:
  assumes "config_valid c"
  shows "ConcurrentKeys c \<le> CalcMinimumIdleWorkers c * WorkerShardsCount c \<and>
    (CalcMinimumIdleWorkers c - 1) * WorkerShardsCount c < ConcurrentKeys c \<and>
    (\<exists>n. CalcWorkerChannelsMapSize c = Some n \<and> isPowerOfTwo n \<and> 128 \<le> n \<and> n \<le> 4096)"
proof -
  have s: "2 \<le> WorkerShardsCount c" and k: "1 \<le> ConcurrentKeys c"
    using assms by (simp_all add: config_valid_def isPowerOfTwo_def)
  define q where "q = (WorkerShardsCount c + ConcurrentKeys c - 1) div WorkerShardsCount c"
  have q: "CalcMinimumIdleWorkers c = q"
    using s k by (simp add: CalcMinimumIdleWorkers_def cmpOr_def q_def signed_divide_int_def Let_def)
  have "(WorkerShardsCount c + ConcurrentKeys c - 1) mod WorkerShardsCount c < WorkerShardsCount c"
    "0 \<le> (WorkerShardsCount c + ConcurrentKeys c - 1) mod WorkerShardsCount c" using s by simp_all
  moreover have "WorkerShardsCount c + ConcurrentKeys c - 1 =
    q * WorkerShardsCount c + (WorkerShardsCount c + ConcurrentKeys c - 1) mod WorkerShardsCount c"
    by (simp add: q_def)
  ultimately have "ConcurrentKeys c \<le> q * WorkerShardsCount c" "(q - 1) * WorkerShardsCount c < ConcurrentKeys c"
    by (simp_all add: algebra_simps)
  then show ?thesis using s by (auto simp: q CalcWorkerChannelsMapSize_def Let_def)
qed

text \<open>
  C18. Validation is sound and stable: unless the environment switches it off, a configuration
  it accepts has every field within its documented bounds and a shard count that is a power of
  two, and validating it again changes nothing. The sizes derived from it fit: the idle workers
  of all shards together serve every concurrent key, with less than one worker per shard to
  spare, and the worker map size is a power of two, with no division by zero.
\<close>

theorem config_validated:
  assumes "\<not> isValidationSkipped getenv" "SetDemuxConfigDefaults (isValidationSkipped getenv) c = Inr c'"
  shows "config_valid c' \<and> SetDemuxConfigDefaults skip c' = Inr c' \<and>
    ConcurrentKeys c' \<le> CalcMinimumIdleWorkers c' * WorkerShardsCount c' \<and>
    (CalcMinimumIdleWorkers c' - 1) * WorkerShardsCount c' < ConcurrentKeys c' \<and>
    (\<exists>n. CalcWorkerChannelsMapSize c' = Some n \<and> isPowerOfTwo n \<and> 128 \<le> n \<and> n \<le> 4096)"
proof -
  have valid: "config_valid c'" using SetDemuxConfigDefaults_valid assms by simp
  then have "SetDemuxConfigDefaults skip c' = Inr c'"
    by (simp add: SetDemuxConfigDefaults_def config_valid_def boundedField_valid shardsField_valid
        second_def millisecond_def)
  with valid derived_sizes [OF valid] show ?thesis by blast
qed

definition exConfig :: DemuxConfig where
  "exConfig = \<lparr>ConcurrentKeys = 500, PerKeyBufferLen = 0, PollTimeout = 0, AutoCommitInterval = 0,
     DrainTimeout = 0, AwaitAssignmentsTimeout = 0, CommitIngestChannelLen = 0,
     CommitPartitionSliceLen = 0, QueryTimeout = 0, AcquireWorkerTimeoutCircuitBreaker = 0,
     WorkerShardsCount = 32, RebalancePausePollingTimeout = 0, AcquireCommitGuardTimeout = 0\<rparr>"

definition exValidated :: DemuxConfig where
  "exValidated = exConfig\<lparr>PerKeyBufferLen := 16, PollTimeout := 100000000, AutoCommitInterval := 5000000000,
     DrainTimeout := 20000000000, AwaitAssignmentsTimeout := 50000000000, CommitIngestChannelLen := 50000,
     CommitPartitionSliceLen := 400, QueryTimeout := 5000000000,
     AcquireWorkerTimeoutCircuitBreaker := 60000000000, RebalancePausePollingTimeout := 30000000000,
     AcquireCommitGuardTimeout := 10000000000\<rparr>"

lemma exConfig_accepted: "SetDemuxConfigDefaults False exConfig = Inr exValidated"
  by (simp add: SetDemuxConfigDefaults_def boundedField_def shardsField_def ingestChannelLen_def
      exConfig_def exValidated_def second_def millisecond_def)

lemma exValidated_valid: "config_valid exValidated"
  by (simp add: config_valid_def exConfig_def exValidated_def second_def millisecond_def)

theorem config_validated_witness:
  "\<not> isValidationSkipped (\<lambda>_. ''false'') \<and> isValidationSkipped (\<lambda>_. ''True'') \<and>
   SetDemuxConfigDefaults False exConfig = Inr exValidated \<and> config_valid exValidated \<and>
   SetDemuxConfigDefaults True exValidated = Inr exValidated \<and> CalcMinimumIdleWorkers exValidated = 16 \<and>
   ConcurrentKeys exValidated \<le> CalcMinimumIdleWorkers exValidated * WorkerShardsCount exValidated"
proof -
  have env: "\<not> isValidationSkipped (\<lambda>_. ''false'')" "isValidationSkipped (\<lambda>_. ''True'')"
    "CalcMinimumIdleWorkers exValidated = 16" by code_simp+
  have "SetDemuxConfigDefaults (isValidationSkipped (\<lambda>_. ''false'')) exConfig = Inr exValidated"
    by (simp add: env exConfig_accepted)
  from config_validated [OF env(1) this, of True] env exConfig_accepted show ?thesis by blast
qed

end
