(* ===== verification/Fnv_Hash.thy ===== *)
theory Fnv_Hash
  imports Demux_Config "HOL-Library.Word"
begin

text \<open>
  The shard hash (demux/pipeline/fnv/fnv_hash.go): 32-bit FNV-1a over the bytes of the
  partition key, masked to the number of shards. The multiplication wraps at 32 bits.
\<close>

definition offsetBasis :: "32 word" where
  "offsetBasis = 2166136261"

definition primeFactor :: "32 word" where
  "primeFactor = 16777619"

fun hashBytes :: "32 word \<Rightarrow> string \<Rightarrow> 32 word" where
  "hashBytes h [] = h"
| "hashBytes h (b # bs) = hashBytes ((h XOR of_char b) * primeFactor) bs"

definition HashIndex :: "string \<Rightarrow> 32 word \<Rightarrow> 32 word" where
  "HashIndex partitionKey bitMask = hashBytes offsetBasis partitionKey AND bitMask"

text \<open>The mask \<open>SendToWorkerForProcessing\<close> derives from the number of shards.\<close>

definition shardMask :: "nat \<Rightarrow> 32 word" where
  "shardMask shards = of_nat (shards - 1)"

lemma hashBytes_append: "hashBytes h (xs @ ys) = hashBytes (hashBytes h xs) ys"
  by (induction xs arbitrary: h) simp_all

lemma shardMask_power: "k < 32 \<Longrightarrow> shardMask (2 ^ k) = mask k"
  by (simp add: shardMask_def mask_eq_exp_minus_1 of_nat_diff)

text \<open>
  C19. The shard of a key: with a validated configuration the index is always inside the
  array of shards, so routing never panics, and it is the FNV-1a hash modulo the number of
  shards, so a key has one shard.
\<close>

theorem HashIndex_in_range:
  assumes "config_valid c"
  shows "unat (HashIndex key (shardMask (nat (WorkerShardsCount c)))) < nat (WorkerShardsCount c) \<and>
    unat (HashIndex key (shardMask (nat (WorkerShardsCount c)))) =
      unat (hashBytes offsetBasis key) mod nat (WorkerShardsCount c)"
proof -
  from assms obtain k where k: "WorkerShardsCount c = 2 ^ k" "(2 :: int) ^ k \<le> 64"
    by (auto simp: config_valid_def isPowerOfTwo_iff)
  have "k < 32"
  proof (rule ccontr)
    assume "\<not> k < 32"
    then have "(2 :: int) ^ 32 \<le> 2 ^ k" by (intro power_increasing) auto
    with k(2) show False by simp
  qed
  then have "shardMask (nat (WorkerShardsCount c)) = mask k"
    by (simp add: k(1) nat_power_eq shardMask_power)
  then have "unat (HashIndex key (shardMask (nat (WorkerShardsCount c)))) =
    unat (take_bit k (hashBytes offsetBasis key))"
    by (simp add: HashIndex_def take_bit_eq_mask)
  also have "\<dots> = take_bit k (unat (hashBytes offsetBasis key))" by (rule unsigned_take_bit_eq)
  finally have "unat (HashIndex key (shardMask (nat (WorkerShardsCount c)))) =
    unat (hashBytes offsetBasis key) mod 2 ^ k"
    by (simp only: take_bit_eq_mod)
  then show ?thesis by (simp add: k(1) nat_power_eq)
qed

theorem HashIndex_in_range_witness:
  "config_valid exValidated \<and> unat (HashIndex ''order-42'' (shardMask (nat (WorkerShardsCount exValidated)))) < 32"
proof -
  have "WorkerShardsCount exValidated = 32" by code_simp
  with HashIndex_in_range [OF exValidated_valid, of "''order-42''"] exValidated_valid show ?thesis by simp
qed

text \<open>The published FNV-1a test vectors for the empty string, \<open>a\<close> and \<open>foobar\<close>.\<close>

lemma hashBytes_vectors:
  "hashBytes offsetBasis '''' = 0x811c9dc5"
  "hashBytes offsetBasis ''a'' = 0xe40c292c"
  "hashBytes offsetBasis ''foobar'' = 0xbf9cf968"
  by code_simp+

end
