(* ===== verification/Work_Items_Pool.thy ===== *)
theory Work_Items_Pool
  imports Work_Items Demux_Config
begin

text \<open>
  The pool of work items (demux/alloc/work_items_pool.go) over \<open>sync.Pool\<close>: \<open>Get\<close> returns
  some pooled item or a new one, which of them is the argument \<open>pick\<close>. \<open>nextPtr\<close> is the
  address the allocator would give next. The sizing of the pool is with it.
\<close>

section \<open>Operations\<close>

record 'a pool =
  freeItems :: "'a work_item list"
  nextPtr :: nat

definition zeroMetrics :: metrics where
  "zeroMetrics = \<lparr>met_Traits = 0, met_QueueDepth = 0, met_Partition = 0, met_Offset = 0,
     met_ProcessDuration = 0, met_WriteDeadLetterDuration = 0, met_ProcessStartTime = zeroTime,
     met_ReadTime = zeroTime, met_WatermarkAdvanceTime = zeroTime, met_WorkerPool = 0\<rparr>"

definition newWorkItem :: "nat \<Rightarrow> 'a work_item" where
  "newWorkItem a = \<lparr>wi_ptr = a,
     wi_Message = \<lparr>msg_Key = '''', msg_Partition = 0, msg_Offset = 0, msg_Traits = 0, msg_Payload = None\<rparr>,
     wi_Metrics = zeroMetrics, wi_Ctx = None, wi_PreviousOffset = -1, wi_First = False, wi_WorkerPool = 0\<rparr>"

definition Borrow :: "nat option \<Rightarrow> 'a pool \<Rightarrow> 'a work_item \<times> 'a pool" where
  "Borrow pick pl =
     (case pick of
        Some i \<Rightarrow>
          if i < length (freeItems pl)
          then (freeItems pl ! i, pl\<lparr>freeItems := take i (freeItems pl) @ drop (Suc i) (freeItems pl)\<rparr>)
          else (newWorkItem (nextPtr pl), pl\<lparr>nextPtr := Suc (nextPtr pl)\<rparr>)
      | None \<Rightarrow> (newWorkItem (nextPtr pl), pl\<lparr>nextPtr := Suc (nextPtr pl)\<rparr>))"

text \<open>The field resets of \<open>Return\<close>; \<open>Metrics.WorkerPool\<close> is not among them.\<close>

definition resetItem :: "'a work_item \<Rightarrow> 'a work_item" where
  "resetItem w = w\<lparr>
     wi_Message := (wi_Message w)\<lparr>msg_Traits := 0, msg_Partition := 0, msg_Offset := 0,
       msg_Key := '''', msg_Payload := None\<rparr>,
     wi_Metrics := (wi_Metrics w)\<lparr>met_Traits := 0, met_QueueDepth := 0, met_Partition := 0,
       met_Offset := 0, met_ProcessDuration := 0, met_WriteDeadLetterDuration := 0,
       met_ReadTime := zeroTime, met_ProcessStartTime := zeroTime,
       met_WatermarkAdvanceTime := zeroTime\<rparr>,
     wi_Ctx := None, wi_PreviousOffset := -1, wi_First := False, wi_WorkerPool := 0\<rparr>"

definition Return :: "'a work_item \<Rightarrow> 'a pool \<Rightarrow> 'a pool" where
  "Return w pl = pl\<lparr>freeItems := resetItem w # freeItems pl\<rparr>"

definition CalcWorkItemPoolSize :: "DemuxConfig \<Rightarrow> int" where
  "CalcWorkItemPoolSize c =
     (let messagesInGapBuffers = ConcurrentKeys c * (50 + 25);
          messagesInPipeline = ConcurrentKeys c * PerKeyBufferLen c;
          poolSize = messagesInPipeline + messagesInGapBuffers
      in if poolSize < 5000 then 5000 else if poolSize > 100000 then 100000 else poolSize)"

text \<open>\<open>warmPool\<close>: the items are all taken before any is put back.\<close>

fun borrowMany :: "nat \<Rightarrow> 'a pool \<Rightarrow> 'a work_item list \<times> 'a pool" where
  "borrowMany 0 pl = ([], pl)"
| "borrowMany (Suc n) pl =
     (let (w, pl1) = Borrow None pl; (ws, pl2) = borrowMany n pl1 in (w # ws, pl2))"

definition warmPool :: "DemuxConfig \<Rightarrow> 'a pool \<Rightarrow> 'a pool" where
  "warmPool c pl =
     (let (ws, pl') = borrowMany (nat (CalcWorkItemPoolSize c)) pl
      in pl'\<lparr>freeItems := rev ws @ freeItems pl'\<rparr>)"

definition NewWorkItemsPool :: "DemuxConfig \<Rightarrow> 'a pool" where
  "NewWorkItemsPool c = warmPool c \<lparr>freeItems = [], nextPtr = 0\<rparr>"

section \<open>Exclusive ownership\<close>

text \<open>An item with nothing left of its last use but the worker pool number.\<close>

definition blank :: "'a work_item \<Rightarrow> bool" where
  "blank w \<longleftrightarrow> w\<lparr>wi_Metrics := (wi_Metrics w)\<lparr>met_WorkerPool := 0\<rparr>\<rparr> = newWorkItem (wi_ptr w)"

definition pool_inv :: "nat set \<Rightarrow> 'a pool \<Rightarrow> bool" where
  "pool_inv used pl \<longleftrightarrow> distinct (map wi_ptr (freeItems pl)) \<and> wi_ptr ` set (freeItems pl) \<inter> used = {} \<and>
     (\<forall>a \<in> wi_ptr ` set (freeItems pl) \<union> used. a < nextPtr pl) \<and> (\<forall>w \<in> set (freeItems pl). blank w)"

lemma blank_new [simp]: "blank (newWorkItem a)"
  by (simp add: blank_def newWorkItem_def zeroMetrics_def)

lemma newWorkItem_ptr [simp]: "wi_ptr (newWorkItem a) = a"
  by (simp add: newWorkItem_def)

lemma resetItem_blank: "blank (resetItem w)"
  by (cases w; cases "wi_Message w"; cases "wi_Metrics w")
    (simp add: blank_def newWorkItem_def zeroMetrics_def resetItem_def)

lemma resetItem_ptr [simp]: "wi_ptr (resetItem w) = wi_ptr w"
  by (simp add: resetItem_def)

lemma Borrow_new:
  assumes "pool_inv used pl"
  shows "pool_inv (insert (nextPtr pl) used) (pl\<lparr>nextPtr := Suc (nextPtr pl)\<rparr>) \<and> nextPtr pl \<notin> used"
proof -
  have lt: "\<forall>a \<in> wi_ptr ` set (freeItems pl) \<union> used. a < nextPtr pl" using assms by (simp add: pool_inv_def)
  then have "nextPtr pl \<notin> wi_ptr ` set (freeItems pl)" "nextPtr pl \<notin> used" by auto
  with assms lt show ?thesis unfolding pool_inv_def by (simp add: less_Suc_eq)
qed

lemma Borrow_pooled:
  assumes "pool_inv used pl" "i < length (freeItems pl)"
  shows "pool_inv (insert (wi_ptr (freeItems pl ! i)) used)
      (pl\<lparr>freeItems := take i (freeItems pl) @ drop (Suc i) (freeItems pl)\<rparr>) \<and>
    wi_ptr (freeItems pl ! i) \<notin> used \<and> blank (freeItems pl ! i)"
proof -
  define xs x ys where "xs = take i (freeItems pl)" and "x = freeItems pl ! i" and "ys = drop (Suc i) (freeItems pl)"
  have "freeItems pl = xs @ x # ys"
    unfolding xs_def x_def ys_def using assms(2) by (rule id_take_nth_drop)
  with assms(1) show ?thesis
    unfolding xs_def [symmetric] x_def [symmetric] ys_def [symmetric]
    by (auto simp: pool_inv_def)
qed

lemma Borrow_inv:
  assumes "pool_inv used pl" "Borrow pick pl = (w, pl')"
  shows "wi_ptr w \<notin> used" "blank w" "pool_inv (insert (wi_ptr w) used) pl'"
  using Borrow_new [OF assms(1)] Borrow_pooled [OF assms(1)] assms(2)
  by (auto simp: Borrow_def split: option.splits if_splits)

lemma Return_inv:
  assumes "pool_inv used pl" "wi_ptr w \<in> used"
  shows "pool_inv (used - {wi_ptr w}) (Return w pl)"
  using assms resetItem_blank [of w] by (auto simp: pool_inv_def Return_def)

lemma borrowMany_inv:
  "pool_inv used pl \<Longrightarrow> borrowMany n pl = (ws, pl') \<Longrightarrow>
   pool_inv (used \<union> wi_ptr ` set ws) pl' \<and> distinct (map wi_ptr ws) \<and> wi_ptr ` set ws \<inter> used = {} \<and>
   (\<forall>w \<in> set ws. blank w) \<and> length ws = n"
proof (induction n arbitrary: used pl ws pl')
  case (Suc n)
  let ?pl1 = "pl\<lparr>nextPtr := Suc (nextPtr pl)\<rparr>"
  obtain ws1 where b: "borrowMany n ?pl1 = (ws1, pl')" "ws = newWorkItem (nextPtr pl) # ws1"
    using Suc.prems(2) by (auto simp: Borrow_def split: prod.splits)
  from Suc.IH [OF conjunct1 [OF Borrow_new [OF Suc.prems(1)]] b(1)] Borrow_new [OF Suc.prems(1)] b(2)
  show ?case by (auto simp: Un_commute)
qed simp

lemma NewWorkItemsPool_inv:
  "pool_inv {} (NewWorkItemsPool c :: 'a pool) \<and>
   length (freeItems (NewWorkItemsPool c :: 'a pool)) = nat (CalcWorkItemPoolSize c)"
proof -
  obtain ws pl' where b: "borrowMany (nat (CalcWorkItemPoolSize c)) \<lparr>freeItems = [], nextPtr = 0\<rparr> = (ws :: 'a work_item list, pl')"
    by fastforce
  have free: "borrowMany n pl = (vs, pl2) \<Longrightarrow> freeItems pl2 = freeItems (pl :: 'a pool)" for n pl vs pl2
    by (induction n arbitrary: pl vs) (auto simp: Borrow_def split: prod.splits)
  have "pool_inv {} (\<lparr>freeItems = [], nextPtr = 0\<rparr> :: 'a pool)" by (simp add: pool_inv_def)
  from borrowMany_inv [OF this b] free [OF b] b show ?thesis
    by (auto simp: NewWorkItemsPool_def warmPool_def pool_inv_def rev_map [symmetric])
qed


definition exPool :: "unit pool" where
  "exPool = \<lparr>freeItems = [newWorkItem 2, newWorkItem 1], nextPtr = 3\<rparr>"


end
