(* ===== verification/Circuit_Breaker.thy ===== *)
theory Circuit_Breaker
  imports Demux_Prelude
begin

text \<open>
  The circuit breaker (demux/circuitbreaker/circuit_breaker.go). Its channels are their
  contents: \<open>trip\<close> is the one-slot election buffer, \<open>cancelled\<close> and \<open>tripped\<close> the
  cancelled context and the closed latch, \<open>emergencyShutdown\<close> what was sent to the host
  application and whether the channel was closed.
\<close>

section \<open>State and operations\<close>

record CircuitBreaker =
  cb_trip :: "string option"
  cb_cancelled :: bool
  cb_tripped :: bool
  cb_reason :: "string option"
  cb_emergencyShutdown :: "string list"
  cb_closed :: bool

definition NewCircuitBreaker :: CircuitBreaker where
  "NewCircuitBreaker = \<lparr>cb_trip = None, cb_cancelled = False, cb_tripped = False, cb_reason = None,
     cb_emergencyShutdown = [], cb_closed = False\<rparr>"

definition signalMessage :: "string \<Rightarrow> string" where
  "signalMessage reason =
     ''circuit-breaker: triggered and completed protective shutdown, reason: '' @ reason"

text \<open>\<open>None\<close> is the nil error.\<close>

definition TriggerEmergencyShutdown :: "string option \<Rightarrow> CircuitBreaker \<Rightarrow> CircuitBreaker" where
  "TriggerEmergencyShutdown r cb =
     (let reason = (case r of Some e \<Rightarrow> e | None \<Rightarrow> ''unspecified emergency shutdown'') in
      case cb_trip cb of
        Some _ \<Rightarrow> cb
      | None \<Rightarrow> cb\<lparr>cb_trip := Some reason, cb_reason := Some reason, cb_cancelled := True,
                   cb_tripped := True,
                   cb_emergencyShutdown := cb_emergencyShutdown cb @ [signalMessage reason],
                   cb_closed := True\<rparr>)"

definition MainCtxDone :: "CircuitBreaker \<Rightarrow> bool" where
  "MainCtxDone cb = cb_cancelled cb"

definition Reason :: "CircuitBreaker \<Rightarrow> string option" where
  "Reason cb = (if cb_tripped cb then cb_reason cb else None)"

section \<open>Behaviour\<close>

text \<open>The states a breaker can be in: untouched, or tripped once with one reason.\<close>

definition breaker_wf :: "CircuitBreaker \<Rightarrow> bool" where
  "breaker_wf cb \<longleftrightarrow> cb = NewCircuitBreaker \<or>
     (\<exists>e. cb = \<lparr>cb_trip = Some e, cb_cancelled = True, cb_tripped = True, cb_reason = Some e,
                cb_emergencyShutdown = [signalMessage e], cb_closed = True\<rparr>)"

lemma Trigger_wf: "breaker_wf cb \<Longrightarrow> breaker_wf (TriggerEmergencyShutdown r cb)"
  by (auto simp: breaker_wf_def TriggerEmergencyShutdown_def NewCircuitBreaker_def Let_def)

lemma Trigger_tripped: "cb_trip cb = Some e \<Longrightarrow> TriggerEmergencyShutdown r cb = cb"
  by (simp add: TriggerEmergencyShutdown_def Let_def)

lemma fold_Trigger_tripped: "cb_trip cb = Some e \<Longrightarrow> fold TriggerEmergencyShutdown rs cb = cb"
  by (induction rs) (simp_all add: Trigger_tripped)

text \<open>
  C20. The first trigger wins: after any sequence of triggers, by whichever callers, the
  breaker is tripped iff there was at least one, its reason is that of the first, the
  processing context is cancelled, and the host application is told exactly once.
\<close>

theorem breaker_first_wins:
  "(let cb = fold TriggerEmergencyShutdown rs NewCircuitBreaker in
    case rs of
      [] \<Rightarrow> Reason cb = None \<and> \<not> MainCtxDone cb \<and> cb_emergencyShutdown cb = []
    | r # _ \<Rightarrow>
        (let e = (case r of Some e \<Rightarrow> e | None \<Rightarrow> ''unspecified emergency shutdown'') in
         Reason cb = Some e \<and> MainCtxDone cb \<and> cb_emergencyShutdown cb = [signalMessage e] \<and> cb_closed cb))"
proof (cases rs)
  case (Cons r rs')
  have "fold TriggerEmergencyShutdown rs' (TriggerEmergencyShutdown r NewCircuitBreaker) =
    TriggerEmergencyShutdown r NewCircuitBreaker"
    by (rule fold_Trigger_tripped) (simp add: TriggerEmergencyShutdown_def NewCircuitBreaker_def Let_def)
  with Cons show ?thesis
    by (simp add: TriggerEmergencyShutdown_def NewCircuitBreaker_def Reason_def MainCtxDone_def Let_def)
qed (simp add: NewCircuitBreaker_def Reason_def MainCtxDone_def)

end
