(* ===== verification/Worker.thy ===== *)
theory Worker
  imports Work_Items Circuit_Breaker
begin

text \<open>
  What a worker does with one work item (demux/pipeline/worker.go, \<open>process\<close>,
  \<open>writeDeadLetter\<close>, \<open>triggerCircuitBreaker\<close> and the closure \<open>processWorkItem\<close>, and
  demux/deadletter/deadletter_writer.go). The host application's two callbacks are the
  results they come back with; a recovered panic is one of them. Clock readings are
  arguments.
\<close>

section \<open>Operations\<close>

datatype call_result = Returned | Failed string | Panicked string

datatype process_error = ProcessFailed string | ProcessPanicked string

datatype dead_letter_error =
    DeadLetterPanicRecovered partition int string
  | DeadLetterWriteFailed partition int string

text \<open>\<open>DeadLetter.Write\<close>, with the result of the registered sink.\<close>

definition deadLetterWrite :: "call_result \<Rightarrow> 'a work_item \<Rightarrow> dead_letter_error option" where
  "deadLetterWrite sink w =
     (let (p, k) = PartitionOffset w in
      case sink of
        Panicked v \<Rightarrow> Some (DeadLetterPanicRecovered p k v)
      | Failed e \<Rightarrow> Some (DeadLetterWriteFailed p k e)
      | Returned \<Rightarrow> None)"

definition onMessageTraits :: "(traits \<Rightarrow> traits) \<Rightarrow> 'a work_item \<Rightarrow> 'a work_item" where
  "onMessageTraits f w = w\<lparr>wi_Message := (wi_Message w)\<lparr>msg_Traits := f (msg_Traits (wi_Message w))\<rparr>\<rparr>"

text \<open>
  \<open>process\<close>: \<open>start\<close> is the clock at the call and \<open>finish\<close> the clock in the deferred
  function.
\<close>

definition process ::
  "nexus \<Rightarrow> time \<Rightarrow> time \<Rightarrow> call_result \<Rightarrow> 'a work_item \<Rightarrow> process_error option \<times> 'a work_item" where
  "process nx start finish r w =
     (let err = (case r of Returned \<Rightarrow> None | Failed e \<Rightarrow> Some (ProcessFailed e)
                 | Panicked v \<Rightarrow> Some (ProcessPanicked v));
          w1 = (case r of Panicked v \<Rightarrow> onMessageTraits (SetProcessPanic nx) w | _ \<Rightarrow> w);
          w2 = w1\<lparr>wi_Metrics := (wi_Metrics w1)\<lparr>met_ProcessDuration := finish - start,
                 met_ProcessStartTime := start\<rparr>\<rparr>
      in (err, case err of None \<Rightarrow> w2 | Some _ \<Rightarrow> onMessageTraits (SetProcessError nx) w2))"

definition writeDeadLetter ::
  "nexus \<Rightarrow> time \<Rightarrow> call_result \<Rightarrow> 'a work_item \<Rightarrow> dead_letter_error option \<times> 'a work_item" where
  "writeDeadLetter nx now sink w =
     (let w1 = onMessageTraits (SetDeadLetter nx) w;
          errDL = deadLetterWrite sink w1;
          m = wi_Metrics w1
      in (errDL, w1\<lparr>wi_Metrics := m\<lparr>met_WriteDeadLetterDuration :=
                      (now - met_ProcessStartTime m) - met_ProcessDuration m\<rparr>\<rparr>))"

text \<open>
  The closure \<open>processWorkItem\<close>. \<open>shardDone\<close> is the shard's flag that the circuit breaker
  has tripped. The item is skipped, reported to the circuit breaker, or handed to the
  committer.
\<close>

datatype 'a outcome =
    Skipped
  | Tripped "partition \<times> int \<times> dead_letter_error"
  | Committed "'a work_item"

definition processWorkItem ::
  "nexus \<Rightarrow> bool \<Rightarrow> time \<Rightarrow> time \<Rightarrow> call_result \<Rightarrow> time \<Rightarrow> call_result \<Rightarrow> 'a work_item \<Rightarrow> 'a outcome" where
  "processWorkItem nx shardDone start finish r now sink w =
     (if shardDone then Skipped
      else
        (case process nx start finish r w of
           (None, w1) \<Rightarrow> Committed w1
         | (Some errP, w1) \<Rightarrow>
             (case writeDeadLetter nx now sink w1 of
                (Some errDL, w2) \<Rightarrow> (let (p, k) = PartitionOffset w2 in Tripped (p, k, errDL))
              | (None, w2) \<Rightarrow> Committed w2)))"

section \<open>Behaviour\<close>

lemma onMessageTraits_simps [simp, wi_simps]:
  "wi_ptr (onMessageTraits f w) = wi_ptr w"
  "wi_partition (onMessageTraits f w) = wi_partition w"
  "wi_offset (onMessageTraits f w) = wi_offset w"
  "msg_Traits (wi_Message (onMessageTraits f w)) = f (msg_Traits (wi_Message w))"
  "wi_Metrics (onMessageTraits f w) = wi_Metrics w"
  "wi_PreviousOffset (onMessageTraits f w) = wi_PreviousOffset w"
  "wi_First (onMessageTraits f w) = wi_First w"
  by (simp_all add: onMessageTraits_def)

lemmas worker_defs = processWorkItem_def process_def writeDeadLetter_def deadLetterWrite_def
  PartitionOffset_def

text \<open>What a worker does not touch: the address, the position and the stamps of an item.\<close>

definition sameStamp :: "'a work_item \<Rightarrow> 'a work_item \<Rightarrow> bool" where
  "sameStamp w w' \<longleftrightarrow> wi_ptr w' = wi_ptr w \<and> wi_partition w' = wi_partition w \<and> wi_offset w' = wi_offset w \<and>
     wi_PreviousOffset w' = wi_PreviousOffset w \<and> wi_First w' = wi_First w"

lemma processWorkItem_stamp:
  "processWorkItem nx d start finish r now sink w = Committed w' \<Longrightarrow> sameStamp w w'"
  by (cases r; cases sink) (auto simp: worker_defs sameStamp_def Let_def split: if_splits)

text \<open>
  C22. No item reaches the committer unless the application accounted for it: a work item is
  handed over iff the breaker has not tripped and the message was processed, or its
  processing failed and it was written to the dead-letter sink; a message that can neither
  be processed nor dead-lettered trips the breaker and is not committed.
\<close>

theorem worker_commits_only_handled:
  "(case processWorkItem nx shardDone start finish r now sink w of
      Skipped \<Rightarrow> shardDone
    | Tripped (p, k, e) \<Rightarrow> \<not> shardDone \<and> r \<noteq> Returned \<and> sink \<noteq> Returned \<and>
        (p, k) = PartitionOffset w \<and> deadLetterWrite sink w = Some e
    | Committed w' \<Rightarrow> \<not> shardDone \<and> (r = Returned \<or> sink = Returned) \<and> sameStamp w w' \<and>
        msg_Traits (wi_Message w') =
          (case r of Returned \<Rightarrow> msg_Traits (wi_Message w)
           | Failed _ \<Rightarrow> SetDeadLetter nx (SetProcessError nx (msg_Traits (wi_Message w)))
           | Panicked _ \<Rightarrow> SetDeadLetter nx (SetProcessError nx (SetProcessPanic nx (msg_Traits (wi_Message w))))) \<and>
        met_ProcessDuration (wi_Metrics w') = finish - start \<and>
        met_WriteDeadLetterDuration (wi_Metrics w') =
          (if r = Returned then met_WriteDeadLetterDuration (wi_Metrics w) else now - finish))"
  by (cases r; cases sink) (simp_all add: worker_defs sameStamp_def Let_def)

text \<open>The worker leaves the traits of the metrics alone: the flags it sets are the message's.\<close>

lemma processWorkItem_metrics_traits:
  "processWorkItem nx d start finish r now sink w = Committed w' \<Longrightarrow> wi_traits w' = wi_traits w"
  by (cases r; cases sink) (auto simp: worker_defs Let_def split: if_splits)

end
