(* ===== verification/Processor.thy ===== *)
theory Processor
  imports Work_Items_Pool Prev_Offsets
begin

text \<open>
  The entry of the pipeline (demux/pipeline/processor.go): a polled payload becomes a work
  item, stamped with its predecessor. \<open>extractEnvelope\<close> is the adapter's callback, a
  parameter. The acquisition of a worker slot is in Demux_Pipeline.
\<close>

record envelope =
  env_Key :: string
  env_Partition :: partition
  env_Offset :: int
  env_Ctx :: "ctx option"

text \<open>
  \<open>toWorkItem\<close> on the item that \<open>Borrow\<close> returned. On an error the item is filled all the
  same; the caller drops it.
\<close>

definition toWorkItem ::
  "('a \<Rightarrow> envelope) \<Rightarrow> 'a \<Rightarrow> 'a work_item \<Rightarrow> PartitionOffsets \<Rightarrow>
   offset_error option \<times> 'a work_item \<times> PartitionOffsets" where
  "toWorkItem extractEnvelope payload w po =
     (let e = extractEnvelope payload;
          (r, po') = GetPrevious (env_Partition e) (env_Offset e) po;
          (prev, first, err) = (case r of Inl er \<Rightarrow> (-1, False, Some er) | Inr (pv, f) \<Rightarrow> (pv, f, None))
      in (err,
          w\<lparr>wi_PreviousOffset := prev, wi_First := first, wi_Ctx := env_Ctx e,
            wi_Message := (wi_Message w)\<lparr>msg_Key := env_Key e, msg_Partition := env_Partition e,
              msg_Offset := env_Offset e, msg_Payload := Some payload\<rparr>\<rparr>,
          po'))"

definition ResetPrevOffsets :: "partition list \<Rightarrow> PartitionOffsets \<Rightarrow> PartitionOffsets" where
  "ResetPrevOffsets partitions po = Reset partitions po"

lemma toWorkItem_Some:
  assumes "toWorkItem extractEnvelope payload w0 po = (None, w, po')"
  shows "GetPrevious (wi_partition w) (wi_offset w) po = (Inr (wi_PreviousOffset w, wi_First w), po')"
    "wi_partition w = env_Partition (extractEnvelope payload)" "wi_offset w = env_Offset (extractEnvelope payload)"
    "wi_ptr w = wi_ptr w0"
  using assms by (auto simp: toWorkItem_def Let_def split: prod.splits sum.splits)

text \<open>A refused message leaves the tracker of predecessors as it was.\<close>

lemma toWorkItem_error:
  "toWorkItem extractEnvelope payload w0 po = (Some e, w, po') \<Longrightarrow> po' = po"
  by (auto simp: toWorkItem_def GetPrevious_def Let_def split: prod.splits sum.splits if_splits option.splits)

end
