(* ===== verification/Commit_Safety.thy ===== *)
theory Commit_Safety
  imports Committer_Runs Processor Worker
begin

text \<open>
  At-least-once delivery of the whole pipeline. The broker's log, the fetch position, the
  messages in flight, the committer and the broker's committed position form one state;
  records are appended and compacted, messages are delivered through the real stamping and
  completed through the real worker, and the committer's operations interleave with all of
  it in any order, across any number of ownership epochs. In every reachable state every
  record below the committed position has been processed or dead-lettered.
\<close>

section \<open>The world of one consumer group\<close>

record 'a world =
  committerOf :: "'a committer"
  prevs :: PartitionOffsets
  inflight :: "'a work_item list"
  recs :: "partition \<Rightarrow> int set"
  logEnd :: "partition \<Rightarrow> int"
  handled :: "(partition \<times> int) set"
  fetchPos :: "partition \<Rightarrow> int"
  brokerPos :: "partition \<Rightarrow> int"

text \<open>
  \<open>recs\<close> are the records a partition's log still has, \<open>logEnd\<close> its end offset, \<open>handled\<close>
  the records some consumer processed or dead-lettered, \<open>fetchPos\<close> where the client fetches
  next and \<open>brokerPos\<close> the position the group has committed.
\<close>

definition covers :: "'a world \<Rightarrow> partition \<Rightarrow> int \<Rightarrow> bool" where
  "covers s p k \<longleftrightarrow> k < max 0 (logEnd s p) \<and> (\<forall>j \<in> recs s p. 0 \<le> j \<and> j \<le> k \<longrightarrow> (p, j) \<in> handled s)"

definition delivered :: "'a world \<Rightarrow> partition \<Rightarrow> 'a work_item \<Rightarrow> bool" where
  "delivered s p w \<longleftrightarrow> wi_offset w < logEnd s p \<and>
     (\<forall>j \<in> recs s p. \<not> (wi_PreviousOffset w < j \<and> j < wi_offset w)) \<and>
     (wi_First w \<longrightarrow> covers s p (wi_offset w - 1))"

definition truthful :: "'a world \<Rightarrow> partition \<Rightarrow> 'a work_item \<Rightarrow> bool" where
  "truthful s p w \<longleftrightarrow> delivered s p w \<and> (p, wi_offset w) \<in> handled s"

section \<open>Steps\<close>

text \<open>
  The outcome of a commit at the broker: for any of the offered messages the position may
  have moved, whatever answer came back.
\<close>

definition positionsAfter :: "'a message list \<Rightarrow> (partition \<Rightarrow> int) \<Rightarrow> (partition \<Rightarrow> int) \<Rightarrow> bool" where
  "positionsAfter sent b b' \<longleftrightarrow>
     (\<forall>p. b' p = b p \<or> (\<exists>m \<in> set sent. msg_Partition m = p \<and> b' p = msg_Offset m + 1))"

inductive world_step :: "nexus \<Rightarrow> 'a world \<Rightarrow> 'a world \<Rightarrow> bool" for nx where
  append: "0 \<le> k \<Longrightarrow> logEnd s p \<le> k \<Longrightarrow>
    world_step nx s (s\<lparr>recs := (recs s)(p := insert k (recs s p)), logEnd := (logEnd s)(p := k + 1)\<rparr>)"
| compact: "world_step nx s (s\<lparr>recs := (recs s)(p := recs s p - gone)\<rparr>)"
| deliver: "toWorkItem extractEnvelope payload w0 (prevs s) = (None, w, po) \<Longrightarrow>
    wi_offset w \<in> recs s (wi_partition w) \<Longrightarrow> fetchPos s (wi_partition w) \<le> wi_offset w \<Longrightarrow>
    recs s (wi_partition w) \<inter> {fetchPos s (wi_partition w) ..< wi_offset w} = {} \<Longrightarrow>
    world_step nx s (s\<lparr>prevs := po, inflight := w # inflight s,
      fetchPos := (fetchPos s)(wi_partition w := wi_offset w + 1)\<rparr>)"
| complete: "w \<in> set (inflight s) \<Longrightarrow>
    processWorkItem nx shardDone start finish r now sink w = Committed w' \<Longrightarrow>
    world_step nx s (s\<lparr>inflight := remove1 w (inflight s),
      handled := insert (wi_partition w, wi_offset w) (handled s),
      committerOf := CollectAndCommit w' (committerOf s)\<rparr>)"
| abandon: "world_step nx s (s\<lparr>inflight := remove1 w (inflight s)\<rparr>)"
| elsewhere: "world_step nx s (s\<lparr>handled := insert (p, k) (handled s)\<rparr>)"
| other_commit: "covers s p (b - 1) \<Longrightarrow> world_step nx s (s\<lparr>brokerPos := (brokerPos s)(p := b)\<rparr>)"
| fetch_from: "ps \<noteq> [] \<Longrightarrow> (\<And>p. p \<in> set ps \<Longrightarrow> start p \<le> brokerPos s p) \<Longrightarrow>
    world_step nx s (s\<lparr>prevs := ResetPrevOffsets ps (prevs s),
      fetchPos := (\<lambda>p. if p \<in> set ps then start p else fetchPos s p)\<rparr>)"
| baselines: "(\<And>p b. (p, b) \<in> set pbs \<Longrightarrow> b < 0 \<or> b \<le> brokerPos s p) \<Longrightarrow>
    world_step nx s (s\<lparr>committerOf := ResetCommittedOffsets nx pbs (committerOf s)\<rparr>)"
| mark_assigned: "world_step nx s (s\<lparr>committerOf := MarkPartitionAssigned now p (committerOf s)\<rparr>)"
| mark_revoked: "world_step nx s (s\<lparr>committerOf := MarkPartitionRevoked now p (committerOf s)\<rparr>)"
| ingest: "world_step nx s (s\<lparr>committerOf := ingestBatch nx now (committerOf s)\<rparr>)"
| tick: "CommitOffsets nx now broker acq (committerOf s) = (err, sent, oc) \<Longrightarrow>
    positionsAfter sent (brokerPos s) b \<Longrightarrow>
    world_step nx s (s\<lparr>committerOf := oc, brokerPos := b\<rparr>)"
| drain: "DrainCommitter nx now broker acq tmo (committerOf s) = (derr, sent, oc) \<Longrightarrow>
    positionsAfter sent (brokerPos s) b \<Longrightarrow>
    world_step nx s (s\<lparr>committerOf := oc, brokerPos := b\<rparr>)"

text \<open>
  A start: a new committer, nothing in flight, and a committed position below which every
  record is accounted for.
\<close>

definition world_init :: "'a world \<Rightarrow> bool" where
  "world_init s \<longleftrightarrow> (\<exists>now. committerOf s = NewCommitter now) \<and> prevs s = NewPartitionOffsets \<and> inflight s = [] \<and>
     (\<forall>p. recs s p \<subseteq> {0 ..< logEnd s p} \<and> covers s p (brokerPos s p - 1) \<and> fetchPos s p \<le> brokerPos s p)"

inductive world_reach :: "nexus \<Rightarrow> 'a world \<Rightarrow> bool" for nx where
  start: "world_init s \<Longrightarrow> world_reach nx s"
| step: "world_reach nx s \<Longrightarrow> world_step nx s s' \<Longrightarrow> world_reach nx s'"

section \<open>The contract between stream and tracker\<close>

lemma truthful_core: "core w = core w' \<Longrightarrow> truthful s p w \<Longrightarrow> truthful s p w'"
  by (simp add: truthful_def delivered_def core_def)

text \<open>The broker's log gives the three proofs of contiguity the tracker relies on.\<close>

interpretation cover: coverage "covers s p" "truthful s p" for s :: "'a world" and p
proof
  fix w w' :: "'a work_item" and k
  show "core w = core w' \<Longrightarrow> truthful s p w \<Longrightarrow> truthful s p w'" by (rule truthful_core)
  show "k < 0 \<Longrightarrow> covers s p k" by (auto simp: covers_def)
  show "covers s p (wi_offset w - 1) \<Longrightarrow> truthful s p w \<Longrightarrow> covers s p (wi_offset w)"
  proof -
    assume c: "covers s p (wi_offset w - 1)" and t: "truthful s p w"
    have "(p, j) \<in> handled s" if "j \<in> recs s p" "0 \<le> j" "j \<le> wi_offset w" for j
      using c t that by (cases "j = wi_offset w") (auto simp: covers_def truthful_def)
    then show ?thesis using t by (auto simp: covers_def truthful_def delivered_def)
  qed
  show "covers s p k \<Longrightarrow> truthful s p w \<Longrightarrow> wi_PreviousOffset w \<le> k \<Longrightarrow> covers s p (wi_offset w)"
  proof -
    assume c: "covers s p k" and t: "truthful s p w" and le: "wi_PreviousOffset w \<le> k"
    have "(p, j) \<in> handled s" if j: "j \<in> recs s p" "0 \<le> j" "j \<le> wi_offset w" for j
    proof (cases "j \<le> k \<or> j = wi_offset w")
      case True
      with c t j show ?thesis by (auto simp: covers_def truthful_def)
    next
      case False
      with le j have "wi_PreviousOffset w < j" "j < wi_offset w" by auto
      with t j(1) show ?thesis by (auto simp: truthful_def delivered_def)
    qed
    then show ?thesis using t by (auto simp: covers_def truthful_def delivered_def)
  qed
  show "truthful s p w \<Longrightarrow> wi_First w \<Longrightarrow> covers s p (wi_offset w - 1)"
    by (simp add: truthful_def delivered_def)
qed

text \<open>So every operation of the committer keeps every tracker covered.\<close>

interpretation covered: tracker_invariant nx "\<lambda>p. cover.tracker_covered s p"
    "\<lambda>w. truthful s (wi_partition w) w" "\<lambda>p b. covers s p (b - 1)" for nx and s :: "'a world"
proof
  fix w :: "'a work_item" and ot now t' col
  assume "truthful s (wi_partition w) w" "\<And>t. ot = Some t \<Longrightarrow> cover.tracker_covered s (wi_partition w) t"
    "processTracker nx now w ot = (t', col)"
  then show "cover.tracker_covered s (wi_partition w) t'"
    by (intro cover.processTracker_covered [of s "wi_partition w" ot w])
      (auto simp: cover.covered_opt_def split: option.split)
next
  fix p b t' col and ot :: "'a tracker option"
  assume "covers s p (b - 1)" "\<And>t. ot = Some t \<Longrightarrow> cover.tracker_covered s p t" "resetTracker nx b ot = (t', col)"
  then show "cover.tracker_covered s p t'"
    by (intro cover.resetTracker_covered [of s p ot b]) (auto simp: cover.covered_opt_def split: option.split)
next
  fix p t r t' col
  assume c: "cover.tracker_covered s p t" "Ready t = Some r" "ackTracker (wi_Message r) t = Some (t', col)"
  then have "covers s p (msg_Offset (wi_Message r))" by (simp add: cover.tracker_covered_def)
  with c show "cover.tracker_covered s p t'" by (blast intro: cover.ackTracker_covered)
next
  fix p and t :: "'a tracker"
  show "cover.tracker_covered s p t \<Longrightarrow> cover.tracker_covered s p (t\<lparr>Assignment := Revoke\<rparr>)"
    by (simp add: cover.tracker_covered_def held_def)
qed (use cover.flushTracker_covered cover.gatherTracker_covered in blast)+

section \<open>The invariant\<close>

definition committer_safe :: "'a world \<Rightarrow> 'a committer \<Rightarrow> bool" where
  "committer_safe s oc \<longleftrightarrow> committer_wf oc \<and> all_trackers (\<lambda>p. cover.tracker_covered s p) oc \<and>
     (\<forall>w \<in> set (commitsIn oc). truthful s (wi_partition w) w)"

text \<open>
  A partition of the log: its records are below its end, the committed position is
  covered, and the fetch position follows the last stamped offset, or, with no stamp since
  the last reset, everything below it is covered.
\<close>

definition partition_ok :: "'a world \<Rightarrow> partition \<Rightarrow> bool" where
  "partition_ok s p \<longleftrightarrow> recs s p \<subseteq> {0 ..< logEnd s p} \<and> covers s p (brokerPos s p - 1) \<and>
     (map_of (prevs s) p = None \<longrightarrow> covers s p (fetchPos s p - 1)) \<and>
     (\<forall>q. map_of (prevs s) p = Some q \<longrightarrow> fetchPos s p = q + 1)"

definition world_inv :: "'a world \<Rightarrow> bool" where
  "world_inv s \<longleftrightarrow> (\<forall>p. partition_ok s p) \<and>
     (\<forall>w \<in> set (inflight s). delivered s (wi_partition w) w) \<and> committer_safe s (committerOf s)"

lemma world_invD:
  assumes "world_inv s"
  shows "partition_ok s p" "w \<in> set (inflight s) \<Longrightarrow> delivered s (wi_partition w) w"
    "committer_safe s (committerOf s)"
  using assms by (auto simp: world_inv_def)

text \<open>Facts about the log survive every growth of the log and of what is handled.\<close>

definition grows :: "'a world \<Rightarrow> 'a world \<Rightarrow> bool" where
  "grows s s' \<longleftrightarrow> (\<forall>p. covers s p \<le> covers s' p) \<and> (\<forall>p. delivered s p \<le> delivered s' p) \<and>
     handled s \<subseteq> handled s'"

lemma covers_le: "covers s p k \<Longrightarrow> j \<le> k \<Longrightarrow> covers s p j"
  by (auto simp: covers_def)

lemma log_frame [simp]:
  "covers (s\<lparr>committerOf := c\<rparr>) = covers s" "covers (s\<lparr>prevs := po\<rparr>) = covers s"
  "covers (s\<lparr>inflight := ws\<rparr>) = covers s" "covers (s\<lparr>fetchPos := f\<rparr>) = covers s"
  "covers (s\<lparr>brokerPos := b\<rparr>) = covers s"
  by (simp_all add: covers_def fun_eq_iff)

lemma delivered_frame [simp]:
  "delivered (s\<lparr>committerOf := c\<rparr>) = delivered s" "delivered (s\<lparr>prevs := po\<rparr>) = delivered s"
  "delivered (s\<lparr>inflight := ws\<rparr>) = delivered s" "delivered (s\<lparr>fetchPos := f\<rparr>) = delivered s"
  "delivered (s\<lparr>brokerPos := b\<rparr>) = delivered s"
  by (simp_all add: delivered_def fun_eq_iff)

lemma grows_truthful: "grows s s' \<Longrightarrow> truthful s p w \<Longrightarrow> truthful s' p w"
  by (auto simp: grows_def truthful_def)

lemma grows_covers: "grows s s' \<Longrightarrow> covers s p k \<Longrightarrow> covers s' p k"
  by (auto simp: grows_def le_fun_def)

lemma grows_in_flight: "grows s s' \<Longrightarrow> delivered s p w \<Longrightarrow> delivered s' p w"
  by (auto simp: grows_def le_fun_def)

lemma grows_tracker: "grows s s' \<Longrightarrow> cover.tracker_covered s p t \<Longrightarrow> cover.tracker_covered s' p t"
  unfolding cover.tracker_covered_def by (blast intro: grows_truthful grows_covers)

lemma grows_committer: "grows s s' \<Longrightarrow> committer_safe s oc \<Longrightarrow> committer_safe s' oc"
  using grows_tracker [of s s'] grows_truthful [of s s']
  by (fastforce simp: committer_safe_def all_trackers_def)

lemma grows_frame [simp]:
  "grows s (s\<lparr>committerOf := c\<rparr>)" "grows s (s\<lparr>prevs := po\<rparr>)" "grows s (s\<lparr>inflight := ws\<rparr>)"
  "grows s (s\<lparr>fetchPos := f\<rparr>)" "grows s (s\<lparr>brokerPos := b\<rparr>)"
  by (simp_all add: grows_def)

lemma grows_trans: "grows a b \<Longrightarrow> grows b c \<Longrightarrow> grows a c"
  unfolding grows_def by (meson order_trans)

lemma log_grows:
  assumes "\<And>p. logEnd s p \<le> logEnd s' p" "\<And>p j. j \<in> recs s' p \<Longrightarrow> j < logEnd s p \<Longrightarrow> j \<in> recs s p"
    "handled s \<subseteq> handled s'"
  shows "grows s s'"
proof -
  have c: "covers s' p k" if "covers s p k" for p k
    unfolding covers_def
  proof (intro conjI ballI impI)
    show "k < max 0 (logEnd s' p)" using that assms(1) [of p] by (auto simp: covers_def)
    fix j assume "j \<in> recs s' p" "0 \<le> j \<and> j \<le> k"
    moreover from this that have "j < logEnd s p" by (auto simp: covers_def)
    ultimately show "(p, j) \<in> handled s'" using that assms(2,3) by (auto simp: covers_def)
  qed
  have "delivered s' p w" if d: "delivered s p w" for p w
    unfolding delivered_def
  proof (intro conjI ballI impI)
    show "wi_offset w < logEnd s' p" using d assms(1) [of p] by (auto simp: delivered_def)
    show "wi_First w \<Longrightarrow> covers s' p (wi_offset w - 1)" using d c by (auto simp: delivered_def)
    fix j assume j: "j \<in> recs s' p"
    show "\<not> (wi_PreviousOffset w < j \<and> j < wi_offset w)"
    proof
      assume lt: "wi_PreviousOffset w < j \<and> j < wi_offset w"
      with d have "j < logEnd s p" by (simp add: delivered_def)
      with assms(2) j have "j \<in> recs s p" by blast
      with d lt show False by (auto simp: delivered_def)
    qed
  qed
  with c assms(3) show ?thesis by (auto simp: grows_def le_fun_def)
qed

lemma append_grows:
  assumes "logEnd s p \<le> k"
  shows "grows s (s\<lparr>recs := (recs s)(p := insert k (recs s p)), logEnd := (logEnd s)(p := k + 1)\<rparr>)"
  using assms by (intro log_grows) (auto split: if_splits)

lemma compact_grows: "grows s (s\<lparr>recs := (recs s)(p := recs s p - gone)\<rparr>)"
  by (intro log_grows) (auto split: if_splits)

lemma handled_grows: "grows s (s\<lparr>handled := insert x (handled s)\<rparr>)"
  by (intro log_grows) auto

text \<open>A step that only grows the log keeps the invariant.\<close>

lemma grows_inv:
  assumes "world_inv s" "grows s s'" "\<And>p. recs s' p \<subseteq> {0 ..< logEnd s' p}"
    "brokerPos s' = brokerPos s" "prevs s' = prevs s" "fetchPos s' = fetchPos s"
    "set (inflight s') \<subseteq> set (inflight s)" "committerOf s' = committerOf s"
  shows "world_inv s'"
proof -
  have "partition_ok s' p" for p
    using world_invD(1) [OF assms(1), of p] assms(3-6) grows_covers [OF assms(2)]
    by (simp add: partition_ok_def)
  moreover have "delivered s' (wi_partition w) w" if "w \<in> set (inflight s')" for w
    using that assms(7) world_invD(2) [OF assms(1)] grows_in_flight [OF assms(2)] by blast
  moreover have "committer_safe s' (committerOf s')"
    using grows_committer [OF assms(2)] world_invD(3) [OF assms(1)] assms(8) by simp
  ultimately show ?thesis by (simp add: world_inv_def)
qed

lemma recs_in_log: "world_inv s \<Longrightarrow> j \<in> recs s p \<Longrightarrow> 0 \<le> j \<and> j < logEnd s p"
  using world_invD(1) [of s p] by (auto simp: partition_ok_def)

lemma committer_inv:
  assumes "world_inv s" "committer_safe s oc"
  shows "world_inv (s\<lparr>committerOf := oc\<rparr>)"
proof -
  have "committer_safe (s\<lparr>committerOf := oc\<rparr>) oc" by (rule grows_committer [OF _ assms(2)]) simp
  with assms(1) show ?thesis by (simp add: world_inv_def partition_ok_def)
qed

section \<open>Preservation\<close>

lemma deliver_inv:
  assumes inv: "world_inv s" and t: "toWorkItem extractEnvelope payload w0 (prevs s) = (None, w, po)"
    and w: "wi_offset w \<in> recs s (wi_partition w)" "fetchPos s (wi_partition w) \<le> wi_offset w"
      "recs s (wi_partition w) \<inter> {fetchPos s (wi_partition w) ..< wi_offset w} = {}"
  shows "world_inv (s\<lparr>prevs := po, inflight := w # inflight s,
      fetchPos := (fetchPos s)(wi_partition w := wi_offset w + 1)\<rparr>)"
proof -
  let ?p = "wi_partition w" and ?k = "wi_offset w"
  note g = GetPrevious_InrD [OF toWorkItem_Some(1) [OF t]] and ok = world_invD(1) [OF inv]
  have k: "0 \<le> ?k" "?k < logEnd s ?p" using recs_in_log [OF inv w(1)] by simp_all
  have del: "delivered s ?p w"
  proof (cases "wi_First w")
    case True
    with g(4) ok [of ?p] have c: "covers s ?p (fetchPos s ?p - 1)" by (simp add: partition_ok_def)
    have "covers s ?p (?k - 1)"
      unfolding covers_def
    proof (intro conjI ballI impI)
      show "?k - 1 < max 0 (logEnd s ?p)" using k by simp
      fix j assume j: "j \<in> recs s ?p" "0 \<le> j \<and> j \<le> ?k - 1"
      then have "j \<notin> {fetchPos s ?p ..< ?k}" using w(3) by blast
      with j have "j \<le> fetchPos s ?p - 1" by simp
      with c j show "(?p, j) \<in> handled s" by (auto simp: covers_def)
    qed
    with True g(5) k show ?thesis by (auto simp: delivered_def)
  next
    case False
    with g(6) ok [of ?p] have "fetchPos s ?p = wi_PreviousOffset w + 1" by (simp add: partition_ok_def)
    with False w(3) k show ?thesis by (auto simp: delivered_def disjoint_iff)
  qed
  have "committer_safe (s\<lparr>prevs := po, inflight := w # inflight s,
      fetchPos := (fetchPos s)(?p := ?k + 1)\<rparr>) (committerOf s)"
    by (rule grows_committer [of s]) (simp_all add: grows_def world_invD(3) [OF inv])
  moreover have "partition_ok (s\<lparr>prevs := po, inflight := w # inflight s,
      fetchPos := (fetchPos s)(?p := ?k + 1)\<rparr>) q" for q
    using ok [of q] g(3) by (cases "q = ?p") (simp_all add: partition_ok_def)
  ultimately show ?thesis using del world_invD(2) [OF inv] by (auto simp: world_inv_def)
qed

lemma complete_inv:
  assumes inv: "world_inv s" and w: "w \<in> set (inflight s)"
    and c: "processWorkItem nx d start finish r now sink w = Committed w'"
  shows "world_inv (s\<lparr>inflight := remove1 w (inflight s),
      handled := insert (wi_partition w, wi_offset w) (handled s),
      committerOf := CollectAndCommit w' (committerOf s)\<rparr>)"
proof -
  define s1 where "s1 = s\<lparr>inflight := remove1 w (inflight s), handled := insert (wi_partition w, wi_offset w) (handled s)\<rparr>"
  have g: "grows s s1" unfolding s1_def by (intro log_grows) auto
  have inv1: "world_inv s1"
    using recs_in_log [OF inv] by (intro grows_inv [OF inv g]) (auto simp: s1_def dest: subsetD [OF set_remove1_subset])
  have st: "wi_partition w' = wi_partition w" "wi_offset w' = wi_offset w"
    "wi_PreviousOffset w' = wi_PreviousOffset w" "wi_First w' = wi_First w"
    using processWorkItem_stamp [OF c] by (simp_all add: sameStamp_def)
  have "delivered s1 (wi_partition w) w" using grows_in_flight [OF g world_invD(2) [OF inv w]] .
  then have "truthful s1 (wi_partition w') w'"
    by (simp add: truthful_def delivered_def st) (simp add: s1_def)
  with world_invD(3) [OF inv1] have "committer_safe s1 (CollectAndCommit w' (committerOf s1))"
    by (simp add: committer_safe_def CollectAndCommit_def all_trackers_def)
  from committer_inv [OF inv1 this] show ?thesis by (simp add: s1_def)
qed

lemma fetch_from_inv:
  assumes inv: "world_inv s" and ps: "ps \<noteq> []" "\<And>p. p \<in> set ps \<Longrightarrow> start p \<le> brokerPos s p"
  shows "world_inv (s\<lparr>prevs := ResetPrevOffsets ps (prevs s),
      fetchPos := (\<lambda>p. if p \<in> set ps then start p else fetchPos s p)\<rparr>)" (is "world_inv ?s")
proof -
  have "partition_ok ?s p" for p
  proof (cases "p \<in> set ps")
    case True
    then have "start p - 1 \<le> brokerPos s p - 1" using ps(2) [OF True] by simp
    with world_invD(1) [OF inv, of p] have "covers s p (start p - 1)"
      by (auto simp: partition_ok_def intro: covers_le)
    with True world_invD(1) [OF inv, of p] show ?thesis
      by (simp add: partition_ok_def ResetPrevOffsets_def Reset_lookup)
  next
    case False
    with world_invD(1) [OF inv, of p] ps(1) show ?thesis
      by (simp add: partition_ok_def ResetPrevOffsets_def Reset_lookup)
  qed
  moreover have "committer_safe ?s (committerOf s)"
    by (rule grows_committer [of s]) (simp_all add: grows_def world_invD(3) [OF inv])
  ultimately show ?thesis using world_invD(2) [OF inv] by (simp add: world_inv_def)
qed

section \<open>The committer's operations\<close>

lemma commitsIn_resetPartitions [simp]: "commitsIn (resetPartitions nx pbs oc) = commitsIn oc"
  by (induction nx pbs oc rule: resetPartitions.induct) (simp_all add: case_prod_beta)

lemma baselines_safe:
  assumes "world_inv s" "\<And>p b. (p, b) \<in> set pbs \<Longrightarrow> b < 0 \<or> b \<le> brokerPos s p"
  shows "committer_safe s (ResetCommittedOffsets nx pbs (committerOf s))"
proof -
  have ok: "\<forall>(p, b) \<in> set pbs. covers s p (b - 1)"
  proof (intro ballI, clarify)
    fix p b assume "(p, b) \<in> set pbs"
    with assms(2) have "b < 0 \<or> b \<le> brokerPos s p" .
    then show "covers s p (b - 1)"
    proof
      assume "b < 0"
      then show ?thesis by (intro cover.unknown) simp
    next
      assume "b \<le> brokerPos s p"
      with world_invD(1) [OF assms(1), of p] show ?thesis
        by (auto simp: partition_ok_def intro: covers_le [of s p "brokerPos s p - 1"])
    qed
  qed
  from world_invD(3) [OF assms(1)] covered.reset_inv [OF _ ok, of "committerOf s" nx] show ?thesis
    by (simp add: committer_safe_def ResetCommittedOffsets_wf) (simp add: ResetCommittedOffsets_def)
qed

lemma ingest_safe: "committer_safe s oc \<Longrightarrow> committer_safe s (ingestBatch nx now oc)"
  using covered.ingestBatch_inv [of s oc nx now]
  by (auto simp: committer_safe_def ingestBatch_wf dest: in_set_dropD)

lemma funpow_ingest_safe: "committer_safe s oc \<Longrightarrow> committer_safe s ((ingestBatch nx now ^^ k) oc)"
  by (induction k) (simp_all add: ingest_safe)

lemma drained_safe [simp]: "committer_safe s (oc\<lparr>drained := d\<rparr>) = committer_safe s oc"
  by (simp add: committer_safe_def all_trackers_def)

lemma mark_safe:
  "committer_safe s oc \<Longrightarrow> committer_safe s (MarkPartitionAssigned now p oc)"
  "committer_safe s oc \<Longrightarrow> committer_safe s (MarkPartitionRevoked now p oc)"
  using covered.assign_inv [of s oc now p] covered.revoke_inv [of s oc now p]
  by (simp_all add: committer_safe_def MarkPartitionAssigned_wf MarkPartitionRevoked_wf)
    (simp_all add: MarkPartitionAssigned_def MarkPartitionRevoked_def)

text \<open>Whatever a tick offers is covered.\<close>

lemma gather_safe:
  assumes "committer_safe s oc" "gatherState nx now oc = (sent, oc2)"
  shows "committer_safe s oc2 \<and> (\<forall>m \<in> set sent. covers s (msg_Partition m) (msg_Offset m))"
proof -
  have wf: "committer_wf oc" and tr: "all_trackers (\<lambda>p. cover.tracker_covered s p) oc"
    using assms(1) by (simp_all add: committer_safe_def)
  have tr2: "all_trackers (\<lambda>p. cover.tracker_covered s p) oc2" by (rule covered.gatherState_inv [OF tr assms(2)])
  have "covers s (msg_Partition m) (msg_Offset m)" if "m \<in> set sent" for m
  proof -
    from gatherState_batch [OF wf assms(2)] that obtain t r where
      t: "map_of (PartitionMap oc2) (msg_Partition m) = Some t" "Ready t = Some r" "wi_Message r = m"
      by (auto simp: ackable_def)
    from all_trackers_lookup [OF tr2 t(1)] t(2,3) show ?thesis by (auto simp: cover.tracker_covered_def)
  qed
  with tr2 gatherState_wf [OF wf assms(2)] gatherState_frame [OF assms(2)] assms(1) show ?thesis
    by (simp add: committer_safe_def)
qed

lemma tick_safe:
  assumes "committer_safe s oc" "CommitOffsets nx now broker acq oc = (err, sent, oc')"
  shows "committer_safe s oc' \<and> (\<forall>m \<in> set sent. covers s (msg_Partition m) (msg_Offset m))"
proof -
  have wf: "committer_wf oc" using assms(1) by (simp add: committer_safe_def)
  from assms(2) wf show ?thesis
  proof (cases rule: CommitOffsets_cases)
    case (sent oc2)
    note g = gather_safe [OF assms(1) sent(2)]
    have "all_trackers (\<lambda>p. cover.tracker_covered s p) oc'"
      using covered.ackCommits_inv [OF _ _ sent(5)] g gatherState_batch [OF wf sent(2)]
      by (simp add: committer_safe_def)
    with g CommitOffsets_wf [OF wf assms(2)] ackCommits_frame [OF sent(5)] show ?thesis
      by (simp add: committer_safe_def)
  qed (use assms(1) gather_safe [OF assms(1)] in auto)
qed

lemma drain_safe:
  assumes "committer_safe s oc" "DrainCommitter nx now broker acq tmo oc = (err, sent, oc')"
  shows "committer_safe s oc' \<and> (\<forall>m \<in> set sent. covers s (msg_Partition m) (msg_Offset m))"
  using assms(2)
proof (rule DrainCommitter_batches)
  fix k d err0
  assume c: "CommitOffsets nx now broker acq
    (((ingestBatch nx now ^^ k) (oc\<lparr>drained := False\<rparr>))\<lparr>drained := d\<rparr>) = (err0, sent, oc')"
  show ?thesis by (rule tick_safe [OF _ c]) (simp add: funpow_ingest_safe assms(1))
qed

section \<open>Reachable worlds\<close>

lemma position_inv:
  assumes "world_inv s" "committer_safe s oc" "\<And>p. covers s p (b p - 1)"
  shows "world_inv (s\<lparr>committerOf := oc, brokerPos := b\<rparr>)"
proof -
  let ?s = "s\<lparr>committerOf := oc, brokerPos := b\<rparr>"
  have "committer_safe ?s oc" by (rule grows_committer [OF _ assms(2)]) (simp add: grows_def)
  moreover have "partition_ok ?s p" for p
    using world_invD(1) [OF assms(1), of p] assms(3) [of p] by (simp add: partition_ok_def)
  ultimately show ?thesis using world_invD(2) [OF assms(1)] by (simp add: world_inv_def)
qed

lemma positionsAfter_covered:
  assumes "world_inv s" "\<forall>m \<in> set sent. covers s (msg_Partition m) (msg_Offset m)"
    "positionsAfter sent (brokerPos s) b"
  shows "covers s p (b p - 1)"
  using assms(2,3) world_invD(1) [OF assms(1), of p]
  by (auto simp: positionsAfter_def partition_ok_def dest: spec [of _ p])

lemma world_step_inv:
  assumes "world_inv s" "world_step nx s s'"
  shows "world_inv s'"
  using assms(2)
proof (cases rule: world_step.cases)
  case (append k p)
  have "recs s' q \<subseteq> {0 ..< logEnd s' q}" for q
    using append recs_in_log [OF assms(1), of _ q] by (cases "q = p") force+
  with append show ?thesis by (intro grows_inv [OF assms(1)]) (simp_all add: append_grows)
next
  case (compact p gone)
  then show ?thesis
    using recs_in_log [OF assms(1)] by (intro grows_inv [OF assms(1)]) (auto simp: compact_grows split: if_splits)
next
  case deliver
  then show ?thesis using deliver_inv [OF assms(1)] by blast
next
  case complete
  then show ?thesis using complete_inv [OF assms(1)] by blast
next
  case (abandon w)
  then show ?thesis
    using recs_in_log [OF assms(1)]
    by (intro grows_inv [OF assms(1)]) (auto dest: subsetD [OF set_remove1_subset])
next
  case elsewhere
  then show ?thesis
    using recs_in_log [OF assms(1)] by (intro grows_inv [OF assms(1)]) (auto simp: handled_grows)
next
  case (other_commit p b)
  have "committerOf s' = committerOf s" "s' = s\<lparr>committerOf := committerOf s, brokerPos := (brokerPos s)(p := b)\<rparr>"
    using other_commit by simp_all
  moreover have "covers s q (((brokerPos s)(p := b)) q - 1)" for q
    using other_commit(2) world_invD(1) [OF assms(1), of q] by (simp add: partition_ok_def)
  ultimately show ?thesis using position_inv [OF assms(1) world_invD(3) [OF assms(1)]] by simp
next
  case fetch_from
  then show ?thesis using fetch_from_inv [OF assms(1)] by blast
next
  case baselines
  then show ?thesis using committer_inv [OF assms(1) baselines_safe [OF assms(1)]] by blast
next
  case mark_assigned
  then show ?thesis using committer_inv [OF assms(1)] mark_safe(1) world_invD(3) [OF assms(1)] by blast
next
  case mark_revoked
  then show ?thesis using committer_inv [OF assms(1)] mark_safe(2) world_invD(3) [OF assms(1)] by blast
next
  case ingest
  then show ?thesis using committer_inv [OF assms(1)] ingest_safe world_invD(3) [OF assms(1)] by blast
next
  case (tick now broker acq err sent oc b)
  note t = tick_safe [OF world_invD(3) [OF assms(1)] tick(2)]
  with tick(1) position_inv [OF assms(1)] positionsAfter_covered [OF assms(1) _ tick(3)] show ?thesis by blast
next
  case (drain now broker acq tmo derr sent oc b)
  note t = drain_safe [OF world_invD(3) [OF assms(1)] drain(2)]
  with drain(1) position_inv [OF assms(1)] positionsAfter_covered [OF assms(1) _ drain(3)] show ?thesis by blast
qed

lemma world_init_inv:
  assumes "world_init s"
  shows "world_inv s"
proof -
  from assms obtain now where oc: "committerOf s = NewCommitter now" by (auto simp: world_init_def)
  have "committer_safe s (committerOf s)"
    by (simp add: oc committer_safe_def NewCommitter_wf) (simp add: NewCommitter_def all_trackers_def)
  moreover have "partition_ok s p" for p
  proof -
    have p: "recs s p \<subseteq> {0 ..< logEnd s p}" "covers s p (brokerPos s p - 1)" "fetchPos s p \<le> brokerPos s p"
      "prevs s = []"
      using assms by (simp_all add: world_init_def NewPartitionOffsets_def)
    have "covers s p (fetchPos s p - 1)" by (rule covers_le [OF p(2)]) (use p(3) in simp)
    with p show ?thesis by (simp add: partition_ok_def)
  qed
  ultimately show ?thesis using assms by (simp add: world_inv_def world_init_def)
qed

lemma world_reach_inv: "world_reach nx s \<Longrightarrow> world_inv s"
  by (induction rule: world_reach.induct) (auto intro: world_init_inv world_step_inv)

text \<open>
  C2. At-least-once: in every reachable state, whatever the interleaving of deliveries,
  completions, compaction, commits that fail or whose acknowledgement is lost, rebalances
  and late completions of earlier epochs, every record the log still has below the
  committed position has been processed or written to the dead-letter sink. Predecessors
  are reset only together with the fetch positions of a non-empty list of partitions.
\<close>

theorem at_least_once:
  assumes "world_reach nx s" "k \<in> recs s p" "k < brokerPos s p"
  shows "(p, k) \<in> handled s"
  using world_invD(1) [OF world_reach_inv [OF assms(1)], of p] assms(2,3)
  by (auto simp: partition_ok_def covers_def)

text \<open>
  C3. No commit is premature: every message a commit tick offers to the broker in a
  reachable state has, at that moment, nothing unhandled at or below its offset, whether the
  broker then accepts it or not.
\<close>

theorem commit_covers:
  assumes "world_reach nx s" "CommitOffsets nx now broker acq (committerOf s) = (err, sent, oc')"
    "m \<in> set sent" "j \<in> recs s (msg_Partition m)" "j \<le> msg_Offset m"
  shows "(msg_Partition m, j) \<in> handled s"
proof -
  note inv = world_reach_inv [OF assms(1)]
  have "covers s (msg_Partition m) (msg_Offset m)"
    using tick_safe [OF world_invD(3) [OF inv] assms(2)] assms(3) by blast
  with recs_in_log [OF inv assms(4)] assms(4,5) show ?thesis by (auto simp: covers_def)
qed

section \<open>A run\<close>

text \<open>
  Offsets 5 and 6 of partition 0 are delivered, 6 completes before 5, and one tick commits
  both.
\<close>

definition exEnv :: "int \<Rightarrow> envelope" where
  "exEnv k = \<lparr>env_Key = ''k'', env_Partition = 0, env_Offset = k, env_Ctx = Some 0\<rparr>"

definition exStamped :: "nat \<Rightarrow> int \<Rightarrow> PartitionOffsets \<Rightarrow> envelope work_item" where
  "exStamped a k po = fst (snd (toWorkItem id (exEnv k) (newWorkItem a) po))"

definition exDone :: "envelope work_item \<Rightarrow> envelope work_item" where
  "exDone w = (case processWorkItem exNexus False 20 23 Returned 23 Returned w of Committed w' \<Rightarrow> w' | _ \<Rightarrow> w)"

definition exW5 :: "envelope work_item" where "exW5 = exStamped 3 5 []"
definition exW6 :: "envelope work_item" where "exW6 = exStamped 4 6 [(0, 5)]"

definition exWorld :: "envelope world" where
  "exWorld = \<lparr>committerOf = NewCommitter 0, prevs = [], inflight = [],
     recs = (\<lambda>p. if p = 0 then {5, 6} else {}), logEnd = (\<lambda>p. if p = 0 then 7 else 0), handled = {},
     fetchPos = (\<lambda>p. if p = 0 then 5 else 0), brokerPos = (\<lambda>p. if p = 0 then 5 else 0)\<rparr>"

definition exOwned :: "envelope world" where
  "exOwned = exWorld\<lparr>committerOf :=
     MarkPartitionAssigned 1 0 (ResetCommittedOffsets exNexus [(0, 5)] (committerOf exWorld))\<rparr>"

definition exFetched :: "envelope world" where
  "exFetched = exOwned\<lparr>prevs := [(0, 6)], inflight := [exW6, exW5], fetchPos := (fetchPos exOwned)(0 := 7)\<rparr>"

definition exCompleted :: "envelope world" where
  "exCompleted = exFetched\<lparr>inflight := [], handled := {(0, 5), (0, 6)},
     committerOf := ingestBatch exNexus 30 (CollectAndCommit (exDone exW5)
       (CollectAndCommit (exDone exW6) (committerOf exOwned)))\<rparr>"

definition exTicked :: "envelope world" where
  "exTicked = exCompleted\<lparr>
     committerOf := snd (snd (CommitOffsets exNexus 40 (\<lambda>_. None) True (committerOf exCompleted))),
     brokerPos := (brokerPos exCompleted)(0 := 7)\<rparr>"

lemma exStamped_ok:
  "toWorkItem id (exEnv 5) (newWorkItem 3) [] = (None, exW5, [(0, 5)])"
  "toWorkItem id (exEnv 6) (newWorkItem 4) [(0, 5)] = (None, exW6, [(0, 6)])"
  by (simp_all add: exW5_def exW6_def exStamped_def toWorkItem_def GetPrevious_def exEnv_def)

lemma exItem_fields [simp]:
  "wi_partition exW5 = 0" "wi_offset exW5 = 5" "wi_partition exW6 = 0" "wi_offset exW6 = 6"
  by (simp_all add: exW5_def exW6_def exStamped_def toWorkItem_def GetPrevious_def exEnv_def)

lemma exDone_ok: "processWorkItem exNexus False 20 23 Returned 23 Returned w = Committed (exDone w)"
  by (simp add: exDone_def worker_defs)

lemma exWorld_reach: "world_reach exNexus exWorld"
  by (rule world_reach.start)
    (auto simp: world_init_def exWorld_def covers_def NewPartitionOffsets_def)

lemma exOwned_reach: "world_reach exNexus exOwned"
proof -
  have "world_reach exNexus (exWorld\<lparr>committerOf := ResetCommittedOffsets exNexus [(0, 5)] (committerOf exWorld)\<rparr>)"
    by (rule world_reach.step [OF exWorld_reach world_step.baselines]) (simp add: exWorld_def)
  from world_reach.step [OF this world_step.mark_assigned [of _ _ 1 0]] show ?thesis by (simp add: exOwned_def)
qed

lemma exFetched_reach: "world_reach exNexus exFetched"
proof -
  have 1: "world_reach exNexus (exOwned\<lparr>prevs := [(0, 5)], inflight := exW5 # inflight exOwned,
      fetchPos := (fetchPos exOwned)(wi_partition exW5 := wi_offset exW5 + 1)\<rparr>)"
    by (rule world_reach.step [OF exOwned_reach world_step.deliver [of id "exEnv 5" "newWorkItem 3"]])
      (simp_all add: exOwned_def exWorld_def exStamped_ok)
  show ?thesis
    using world_reach.step [OF 1 world_step.deliver [of id "exEnv 6" "newWorkItem 4" _ exW6 "[(0, 6)]"]]
    by (simp add: exFetched_def exOwned_def exWorld_def exStamped_ok)
qed

lemma exCompleted_reach: "world_reach exNexus exCompleted"
proof -
  note r1 = world_reach.step [OF exFetched_reach world_step.complete [OF _ exDone_ok, of exW6]]
  note r2 = world_reach.step [OF r1 world_step.complete [OF _ exDone_ok, of exW5]]
  from world_reach.step [OF r2 world_step.ingest [of _ _ 30]] show ?thesis
    by (simp add: exCompleted_def exFetched_def exOwned_def exWorld_def)
qed

lemma exTicked_reach: "world_reach exNexus exTicked"
proof -
  let ?c = "CommitOffsets exNexus 40 (\<lambda>_. None) True (committerOf exCompleted)"
  have "map (\<lambda>m. (msg_Partition m, msg_Offset m)) (fst (snd ?c)) = [(0, 6)]" by code_simp
  then have "positionsAfter (fst (snd ?c)) (brokerPos exCompleted) ((brokerPos exCompleted)(0 := 7))"
    by (auto simp: positionsAfter_def)
  from world_reach.step [OF exCompleted_reach world_step.tick [OF _ this, of exNexus 40 "\<lambda>_. None" True]]
  show ?thesis by (metis exTicked_def prod.collapse)
qed

theorem at_least_once_witness:
  "world_reach exNexus exTicked \<and> brokerPos exTicked 0 = 7 \<and> recs exTicked 0 = {5, 6} \<and>
   (0, 5) \<in> handled exTicked \<and> (0, 6) \<in> handled exTicked"
proof -
  have s: "brokerPos exTicked 0 = 7" "recs exTicked 0 = {5, 6}"
    by (simp_all add: exTicked_def exCompleted_def exFetched_def exOwned_def exWorld_def)
  with at_least_once [OF exTicked_reach, of 5 0] at_least_once [OF exTicked_reach, of 6 0]
    exTicked_reach show ?thesis by simp
qed

theorem commit_covers_witness:
  "world_reach exNexus exCompleted \<and>
   map msg_Offset (fst (snd (CommitOffsets exNexus 40 (\<lambda>_. None) True (committerOf exCompleted)))) = [6] \<and>
   (0, 5) \<in> handled exCompleted"
proof -
  let ?c = "CommitOffsets exNexus 40 (\<lambda>_. None) True (committerOf exCompleted)"
  have sent: "map (\<lambda>m. (msg_Partition m, msg_Offset m)) (fst (snd ?c)) = [(0, 6)]" by code_simp
  then obtain m where m: "fst (snd ?c) = [m]" "msg_Partition m = 0" "msg_Offset m = 6" by auto
  have eq: "?c = (fst ?c, [m], snd (snd ?c))" using m(1) by (metis prod.collapse)
  have "5 \<in> recs exCompleted 0" by (simp add: exCompleted_def exFetched_def exOwned_def exWorld_def)
  then have "(0, 5) \<in> handled exCompleted"
    using commit_covers [OF exCompleted_reach eq, of m 5] m by simp
  with exCompleted_reach m show ?thesis by simp
qed

end
