(* ===== verification/Commit_Watermark.thy ===== *)
theory Commit_Watermark
  imports Committer_Runs
begin

text \<open>
  What the committer promises within one ownership epoch, as an abstract specification: the
  stream of a partition is a sequence of offsets, the items that completed so far are a set
  of positions in it, and the committable prefix ends at the first position missing from
  that set. The trackers, with their ready item, gap buffer and deferred flush, refine that
  specification: a flush brings them to the end of the prefix, a tick offers exactly it, and
  a drain commits it.
\<close>

section \<open>The stream of an epoch\<close>

text \<open>
  \<open>off i\<close> is the offset of the \<open>i\<close>th message of a partition's stream. \<open>item_at\<close> says that a
  work item is that message, with the stamps \<open>GetPrevious\<close> gives it.
\<close>

definition stream :: "(nat \<Rightarrow> int) \<Rightarrow> bool" where
  "stream off \<longleftrightarrow> strict_mono off \<and> 0 \<le> off 0"

definition item_at :: "(nat \<Rightarrow> int) \<Rightarrow> nat \<Rightarrow> 'a work_item \<Rightarrow> bool" where
  "item_at off i w \<longleftrightarrow> wi_offset w = off i \<and> (wi_First w \<longleftrightarrow> i = 0) \<and>
     wi_PreviousOffset w = (if i = 0 then off 0 - 1 else off (i - 1))"

text \<open>The abstract specification: the length of the committable prefix.\<close>

definition watermark :: "nat set \<Rightarrow> nat" where
  "watermark A = (LEAST n. n \<notin> A)"

lemma watermark_eq: "{0 ..< n} \<subseteq> A \<Longrightarrow> n \<notin> A \<Longrightarrow> watermark A = n"
  unfolding watermark_def by (rule Least_equality) (auto simp: subset_iff not_le [symmetric])

lemma stream_less: "stream off \<Longrightarrow> off i < off j \<longleftrightarrow> i < j"
  by (simp add: stream_def strict_mono_less)

lemma stream_eq: "stream off \<Longrightarrow> off i = off j \<longleftrightarrow> i = j"
  by (simp add: stream_def strict_mono_eq)

lemma stream_le: "stream off \<Longrightarrow> off i \<le> off j \<longleftrightarrow> i \<le> j"
  by (simp add: stream_def strict_mono_less_eq)

lemma stream_nonneg: "stream off \<Longrightarrow> 0 \<le> off i"
  using stream_le [of off 0 i] by (simp add: stream_def)

lemma item_at_core [simp]:
  "item_at off i (onTraits f w) = item_at off i w"
  "item_at off i (stampAdvance now w) = item_at off i w"
  by (simp_all add: item_at_def)

lemma item_at_inj: "stream off \<Longrightarrow> item_at off i w \<Longrightarrow> item_at off j w \<Longrightarrow> i = j"
  by (auto simp: item_at_def stream_eq)

section \<open>The refinement relation\<close>

text \<open>
  The buffer holds exactly the items of the positions in \<open>B\<close>, each once.
\<close>

definition buffers :: "(nat \<Rightarrow> int) \<Rightarrow> nat set \<Rightarrow> 'a work_item list \<Rightarrow> bool" where
  "buffers off B ws \<longleftrightarrow> (\<exists>js. list_all2 (item_at off) js ws \<and> distinct js \<and> set js = B)"

text \<open>
  \<open>A\<close> are the positions that completed, \<open>n\<close> the number of positions committed, \<open>r\<close> the
  position after the ready item (or \<open>n\<close> when there is none); \<open>b\<close> is the epoch's baseline.
\<close>

definition refines :: "(nat \<Rightarrow> int) \<Rightarrow> int \<Rightarrow> nat set \<Rightarrow> nat \<Rightarrow> nat \<Rightarrow> 'a tracker \<Rightarrow> bool" where
  "refines off b A n r t \<longleftrightarrow>
     (case Ready t of None \<Rightarrow> r = n | Some w \<Rightarrow> n < r \<and> item_at off (r - 1) w) \<and>
     {0 ..< r} \<subseteq> A \<and> (r = 0 \<longrightarrow> 0 \<notin> A) \<and>
     buffers off (A - {0 ..< r}) (GapBuffer t) \<and>
     CommittedPlusOne t = (if r = 0 then b else if n = 0 then off 0 else off (n - 1) + 1) \<and>
     LastCommittedOffset t = (if n = 0 then -1 else off (n - 1)) \<and>
     (\<not> NeedsGapAdvance t \<longrightarrow> r \<notin> A)"

lemma buffers_Nil [simp]: "buffers off B [] \<longleftrightarrow> B = {}"
  by (auto simp: buffers_def)

lemma buffers_snoc:
  assumes "buffers off B ws" "item_at off i w" "i \<notin> B"
  shows "buffers off (insert i B) (ws @ [w])"
proof -
  from assms(1) obtain js where "list_all2 (item_at off) js ws" "distinct js" "set js = B"
    by (auto simp: buffers_def)
  with assms(2,3) show ?thesis
    unfolding buffers_def by (intro exI [of _ "js @ [i]"]) (auto intro: list_all2_appendI)
qed

lemma list_all2_ex1: "list_all2 P xs ys \<Longrightarrow> y \<in> set ys \<Longrightarrow> \<exists>x \<in> set xs. P x y"
  by (induction rule: list_all2_induct) auto

lemma list_all2_ex2: "list_all2 P xs ys \<Longrightarrow> x \<in> set xs \<Longrightarrow> \<exists>y \<in> set ys. P x y"
  by (induction rule: list_all2_induct) auto

lemma buffers_mem: "buffers off B ws \<Longrightarrow> w \<in> set ws \<Longrightarrow> \<exists>i \<in> B. item_at off i w"
  by (auto simp: buffers_def dest: list_all2_ex1)

lemma buffers_ex: "buffers off B ws \<Longrightarrow> i \<in> B \<Longrightarrow> \<exists>w \<in> set ws. item_at off i w"
  by (auto simp: buffers_def dest: list_all2_ex2)

lemma refinesD:
  assumes "refines off b A n r t"
  shows "Ready t = None \<Longrightarrow> r = n" "Ready t = Some w \<Longrightarrow> n < r \<and> item_at off (r - 1) w" "n \<le> r"
    "{0 ..< r} \<subseteq> A" "i \<notin> A \<Longrightarrow> r \<le> i" "r = 0 \<Longrightarrow> 0 \<notin> A" "buffers off (A - {0 ..< r}) (GapBuffer t)"
    "CommittedPlusOne t = (if r = 0 then b else if n = 0 then off 0 else off (n - 1) + 1)"
    "LastCommittedOffset t = (if n = 0 then -1 else off (n - 1))"
    "\<not> NeedsGapAdvance t \<Longrightarrow> r \<notin> A"
  using assms by (auto simp: refines_def subset_iff not_less [symmetric] split: option.splits)

lemma refines_next:
  "stream off \<Longrightarrow> b \<le> off 0 \<Longrightarrow> refines off b A n r t \<Longrightarrow> CommittedPlusOne t \<le> off r"
  using stream_less [of off "n - 1" r] stream_le [of off 0 r]
  by (auto simp: refines_def split: option.splits if_splits)

section \<open>Arrival\<close>

lemma advance_flag:
  assumes "stream off" "buffers off B (GapBuffer t)" "Suc i \<in> B"
  shows "NeedsGapAdvance (advanceThroughGapBuffer (off i) t)"
proof -
  from buffers_ex [OF assms(2,3)] obtain g where "g \<in> set (GapBuffer t)" "item_at off (Suc i) g" by blast
  then show ?thesis by (auto simp: advanceThroughGapBuffer_def item_at_def)
qed

lemma advance_keeps_flag: "NeedsGapAdvance t \<Longrightarrow> NeedsGapAdvance (advanceThroughGapBuffer k t)"
  by (simp add: advanceThroughGapBuffer_def)

text \<open>The arrival that becomes the ready item.\<close>

lemma refines_ready:
  assumes "stream off" "refines off b A n r t" "item_at off r w"
    and "CommittedPlusOne t' = (if n = 0 then off 0 else CommittedPlusOne t)"
    and t': "Ready t' = Some w" "GapBuffer t' = GapBuffer t" "LastCommittedOffset t' = LastCommittedOffset t"
    and r: "r \<notin> A"
  shows "refines off b (insert r A) n (Suc r) (advanceThroughGapBuffer (off r) t')"
proof -
  have n: "n \<le> r" and sub: "{0 ..< r} \<subseteq> A" and buf: "buffers off (A - {0 ..< r}) (GapBuffer t)"
    using assms(2) by (auto simp: refines_def split: option.splits)
  have "A - {0 ..< r} = insert r A - {0 ..< Suc r}" using r by (auto simp: less_Suc_eq)
  with buf t'(2) have buf': "buffers off (insert r A - {0 ..< Suc r}) (GapBuffer t')" by simp
  have "Suc r \<notin> insert r A" if "\<not> NeedsGapAdvance (advanceThroughGapBuffer (off r) t')"
    using advance_flag [OF assms(1) buf', of r] that by auto
  moreover have "CommittedPlusOne t' = (if n = 0 then off 0 else off (n - 1) + 1)"
    using assms(2,4) n by (auto simp: refines_def split: if_splits)
  ultimately show ?thesis
    using assms(2,3) t' n sub buf' by (auto simp: refines_def less_Suc_eq)
qed

text \<open>The arrival that waits in the buffer.\<close>

lemma refines_buffer:
  assumes "refines off b A n r t" "item_at off i w" "r < i \<or> r = i \<and> NeedsGapAdvance t' \<and> 0 < r" "i \<notin> A"
    and t': "Ready t' = Ready t" "GapBuffer t' = GapBuffer t @ [w]" "CommittedPlusOne t' = CommittedPlusOne t"
      "LastCommittedOffset t' = LastCommittedOffset t" "NeedsGapAdvance t \<longrightarrow> NeedsGapAdvance t'"
  shows "refines off b (insert i A) n r t'"
proof -
  have "insert i A - {0 ..< r} = insert i (A - {0 ..< r})" using assms(3) by auto
  moreover have "buffers off (insert i (A - {0 ..< r})) (GapBuffer t @ [w])"
    using assms(1,2,4) by (intro buffers_snoc) (auto simp: refines_def)
  ultimately show ?thesis
    using assms by (auto simp: refines_def split: option.splits)
qed

lemma refines_arrive:
  assumes st: "stream off" "b \<le> off 0" and ref: "refines off b A n r t" and w: "item_at off i w" "i \<notin> A"
    and p: "processTracker nx now w (Some t) = (t', col)"
  shows "\<exists>r'. refines off b (insert i A) n r' t' \<and> r \<le> r'"
proof -
  have off: "wi_offset w = off i" using w by (simp add: item_at_def)
  have ge: "r \<le> i" by (rule refinesD(5) [OF ref w(2)])
  have c: "CommittedPlusOne t \<le> off r" by (rule refines_next [OF st ref])
  have le: "off r \<le> off i" using ge st(1) by (simp add: stream_le)
  let ?t = "observeOffset (wi_offset w) (Some t)"
  have ref': "refines off b A n r ?t" using ref by (simp add: refines_def)
  show ?thesis
  proof (cases "Ready t")
    case (Some rd)
    then have rd: "wi_offset rd = off (r - 1)" "0 < r" using ref by (auto simp: refines_def item_at_def)
    then have i: "i \<noteq> 0" "off (r - 1) < off i" using ge st(1) by (auto simp: stream_less)
    with w(1) have nf: "\<not> wi_First w" by (simp add: item_at_def)
    show ?thesis
    proof (cases "i = r")
      case True
      then have link: "wi_PreviousOffset w = off (r - 1)" using w(1) i by (simp add: item_at_def)
      have "t' = advanceThroughGapBuffer (off r) (?t\<lparr>Ready := Some (stampAdvance now w)\<rparr>)"
        using p Some rd i off nf link True by (simp add: processTracker_def checkAndAdvance_def)
      moreover have "refines off b (insert r A) n (Suc r) \<dots>"
        using True w rd(2) refinesD(8) [OF ref] by (intro refines_ready [OF st(1) ref']) auto
      ultimately show ?thesis using True by auto
    next
      case False
      with ge have lt: "r < i" by simp
      with i w(1) st(1) rd have "wi_PreviousOffset w \<noteq> off (r - 1)" by (auto simp: item_at_def stream_eq)
      then have "t' = addToGapBuffer nx w ?t"
        using p Some rd i off nf by (simp add: processTracker_def checkAndAdvance_def)
      with refines_buffer [OF ref', of i "onTraits (SetCommitBuffered nx) w" t'] w lt show ?thesis by auto
    qed
  next
    case None
    then have n: "r = n" by (rule refinesD(1) [OF ref])
    show ?thesis
    proof (cases "r = 0")
      case r0: True
      with n have c: "CommittedPlusOne t = b" "LastCommittedOffset t = -1"
        using refinesD(8,9) [OF ref] by simp_all
      show ?thesis
      proof (cases "i = 0")
        case True
        then have f: "wi_First w" "wi_offset w = off 0" using w(1) by (simp_all add: item_at_def)
        have "t' = advanceThroughGapBuffer (off r) (?t\<lparr>CommittedPlusOne := off 0,
            Ready := Some (stampAdvance now (onTraits (SetFirstAfterRebalance nx) w))\<rparr>)"
          using p None f c(1) st(2) r0 by (simp add: processTracker_def checkAndAdvance_def)
        moreover have "refines off b (insert r A) n (Suc r) \<dots>"
          using True w r0 n by (intro refines_ready [OF st(1) ref']) simp_all
        ultimately show ?thesis using True r0 by auto
      next
        case False
        then have lt: "b < off i" "\<not> wi_First w" using w(1) st stream_less [OF st(1), of 0 i]
          by (auto simp: item_at_def)
        then have "t' = addToGapBuffer nx w ?t"
          using p None off c by (simp add: processTracker_def checkAndAdvance_def)
        with refines_buffer [OF ref', of i "onTraits (SetCommitBuffered nx) w" t'] w False r0 show ?thesis by auto
      qed
    next
      case r1: False
      then have lc: "LastCommittedOffset t = off (r - 1)" "CommittedPlusOne t = off (r - 1) + 1" "0 \<le> off (r - 1)"
        using refinesD(8,9) [OF ref] n stream_nonneg [OF st(1)] by simp_all
      have nf: "\<not> wi_First w" "i \<noteq> 0" "wi_PreviousOffset w = off (i - 1)"
        using w(1) ge r1 by (auto simp: item_at_def)
      show ?thesis
      proof (cases "i = r \<and> off i = off (r - 1) + 1")
        case True
        have "t' = advanceThroughGapBuffer (off r) (?t\<lparr>Ready := Some (stampAdvance now w)\<rparr>)"
          using p None off nf lc True by (auto simp: processTracker_def checkAndAdvance_def Let_def)
        moreover have "refines off b (insert r A) n (Suc r) \<dots>"
          using True w n r1 by (intro refines_ready [OF st(1) ref']) simp_all
        ultimately show ?thesis using True by auto
      next
        case False
        have gt: "off (r - 1) + 1 < off i"
        proof (cases "i = r")
          case True
          have "off (r - 1) < off i" using True r1 st(1) by (simp add: stream_less)
          with False True show ?thesis by linarith
        next
          case ne: False
          then have "off (r - 1) < off r" "off r < off i" using ge r1 st(1) by (simp_all add: stream_less)
          then show ?thesis by linarith
        qed
        have link: "off (i - 1) = off (r - 1) \<longleftrightarrow> i = r" using ge r1 st(1) by (auto simp: stream_eq)
        have "t' = (if i = r then (addToGapBuffer nx w ?t)\<lparr>NeedsGapAdvance := True\<rparr> else addToGapBuffer nx w ?t)"
          using p None off nf lc gt link by (auto simp: processTracker_def checkAndAdvance_def Let_def split: if_splits)
        with refines_buffer [OF ref', of i "onTraits (SetCommitBuffered nx) w" t'] w ge r1 show ?thesis by auto
      qed
    qed
  qed
qed

section \<open>Flush\<close>

text \<open>The walk from a ready item: it takes the run of consecutive positions that follows.\<close>

lemma run_Cons:
  assumes "set js = {Suc j .. i} \<union> D" "j \<le> i"
  shows "set (j # js) = {j .. i} \<union> D"
proof -
  have "insert j {Suc j .. i} = {j .. i}" using assms(2) by auto
  then show ?thesis unfolding list.set assms(1) by (metis insert_is_Un sup_assoc)
qed

lemma flushWalk_run:
  assumes "stream off" "flushWalk nx now c l gs (Some rd) = (rdy, col, k)" "item_at off i rd"
    "list_all2 (item_at off) js gs" "sorted_wrt (<) js" "\<forall>j \<in> set js. i < j"
  shows "\<exists>i' rd'. rdy = Some rd' \<and> item_at off i' rd' \<and> i \<le> i' \<and>
    set js = {Suc i .. i'} \<union> set (drop k js) \<and> (\<forall>j \<in> set (drop k js). Suc i' < j)"
  using assms(2-6)
proof (induction gs arbitrary: rd i js rdy col k)
  case Nil
  then show ?case by (intro exI [of _ i] exI [of _ rd]) auto
next
  case (Cons g gs)
  from Cons.prems(3) obtain j js1 where js: "js = j # js1" "item_at off j g" "list_all2 (item_at off) js1 gs"
    by (auto simp: list_all2_Cons2)
  have ij: "i < j" "\<forall>x \<in> set js1. j < x" using Cons.prems(4,5) js(1) by auto
  have o: "wi_offset g = off j" "wi_offset rd = off i" "wi_PreviousOffset g = off (j - 1)"
    using js(2) Cons.prems(2) ij(1) by (auto simp: item_at_def)
  have lt: "off i < off j" using ij(1) assms(1) by (simp add: stream_less)
  show ?case
  proof (cases "j = Suc i")
    case True
    obtain rdy1 col1 k1 where f: "flushWalk nx now c l gs (Some (stampAdvance now g)) = (rdy1, col1, k1)"
      by (metis prod_cases3)
    have res: "rdy = rdy1" "k = Suc k1" using Cons.prems(1) f o lt True by auto
    have st: "item_at off j (stampAdvance now g)" using js(2) by simp
    have sj: "sorted_wrt (<) js1" using Cons.prems(4) js(1) by simp
    from Cons.IH [OF f st js(3) sj ij(2)] obtain i' rd' where
      r: "rdy1 = Some rd'" "item_at off i' rd'" "j \<le> i'" "set js1 = {Suc j .. i'} \<union> set (drop k1 js1)"
        "\<forall>x \<in> set (drop k1 js1). Suc i' < x" by blast
    have "set js = {Suc i .. i'} \<union> set (drop k js)"
      using run_Cons [OF r(4,3)] js(1) res(2) True by (simp only: drop_Suc list.sel)
    moreover have "drop k js = drop k1 js1" "i \<le> i'" using js(1) res(2) r(3) True by simp_all
    ultimately show ?thesis using r(1,2,5) res(1) by metis
  next
    case False
    with o ij assms(1) have "wi_offset rd \<noteq> wi_PreviousOffset g" by (auto simp: stream_eq)
    with Cons.prems(1) o lt have "rdy = Some rd" "k = 0" by auto
    moreover have "\<forall>x \<in> set js. Suc i < x" using False ij js(1) by force
    ultimately show ?thesis using Cons.prems(2) by (intro exI [of _ i] exI [of _ rd]) simp
  qed
qed

text \<open>The walk with no ready item: it starts at position \<open>n\<close> or not at all.\<close>

lemma flushWalk_start:
  assumes st: "stream off" and f: "flushWalk nx now c l gs None = (rdy, col, k)"
    and js: "list_all2 (item_at off) js gs" "sorted_wrt (<) js" "\<forall>j \<in> set js. n \<le> j"
    and c: "0 < n \<and> c = off (n - 1) + 1 \<and> l = off (n - 1) \<or> n = 0 \<and> n \<notin> set js \<and> c \<le> off 0 \<and> l = -1"
  shows "rdy = None \<and> k = 0 \<and> n \<notin> set js \<or>
    (\<exists>i' rd'. rdy = Some rd' \<and> item_at off i' rd' \<and> n \<le> i' \<and>
      set js = {n .. i'} \<union> set (drop k js) \<and> (\<forall>j \<in> set (drop k js). Suc i' < j))"
proof (cases gs)
  case Nil
  with f js show ?thesis by simp
next
  case (Cons g gs1)
  from js(1) Cons obtain j js1 where j: "js = j # js1" "item_at off j g" "list_all2 (item_at off) js1 gs1"
    by (auto simp: list_all2_Cons2)
  have ge: "n \<le> j" "\<forall>x \<in> set js1. j < x" using js(2,3) j(1) by auto
  have o: "wi_offset g = off j" "j \<noteq> 0 \<Longrightarrow> wi_PreviousOffset g = off (j - 1)"
    using j(2) by (auto simp: item_at_def)
  show ?thesis
  proof (cases "j = n")
    case True
    with c j(1) have n: "0 < n" "c = off (n - 1) + 1" "l = off (n - 1)" by auto
    have "c \<le> off n" "0 \<le> l" using n st stream_less [OF st, of "n - 1" n] stream_nonneg [OF st] by auto
    then obtain rdy1 col1 k1 where fw: "flushWalk nx now c l gs1 (Some (stampAdvance now g)) = (rdy1, col1, k1)"
      "rdy = rdy1" "k = Suc k1"
      using f Cons o n True by (auto split: prod.splits)
    have "item_at off n (stampAdvance now g)" using j(2) True by simp
    moreover have "sorted_wrt (<) js1" "\<forall>x \<in> set js1. n < x" using js(2) j(1) ge True by auto
    ultimately obtain i' rd' where
      r: "rdy1 = Some rd'" "item_at off i' rd'" "n \<le> i'" "set js1 = {Suc n .. i'} \<union> set (drop k1 js1)"
        "\<forall>x \<in> set (drop k1 js1). Suc i' < x" using flushWalk_run [OF st fw(1) _ j(3)] by blast
    have "set js = {n .. i'} \<union> set (drop k js)"
      using run_Cons [OF r(4,3)] True j(1) fw(3) by (simp only: drop_Suc list.sel)
    moreover have "drop k js = drop k1 js1" using j(1) fw(3) by simp
    ultimately show ?thesis using r(1,2,3,5) fw(2) by metis
  next
    case False
    with ge have lt: "n < j" by simp
    have "c < off j" "\<not> (0 \<le> l \<and> wi_PreviousOffset g = l)"
    proof -
      have "off n < off j" "0 < n \<Longrightarrow> off (n - 1) \<noteq> off (j - 1)" using lt st by (auto simp: stream_less stream_eq)
      moreover have "0 < n \<Longrightarrow> off (n - 1) < off n" using st by (simp add: stream_less)
      ultimately show "c < off j" "\<not> (0 \<le> l \<and> wi_PreviousOffset g = l)" using c lt o(2) by auto
    qed
    then have "rdy = None" "k = 0" using f Cons o(1) by auto
    moreover have "n \<notin> set js" using lt ge j(1) by auto
    ultimately show ?thesis by blast
  qed
qed

lemma buffers_sorted:
  assumes "stream off" "buffers off B ws"
  shows "\<exists>js. list_all2 (item_at off) js (sortGapBuffer ws) \<and> sorted_wrt (<) js \<and> set js = B"
proof -
  let ?s = "sortGapBuffer ws"
  from assms(2) obtain ks where ks: "list_all2 (item_at off) ks ws" "distinct ks" "set ks = B"
    by (auto simp: buffers_def)
  have "map wi_offset ws = map off ks"
    using ks(1) by (induction rule: list_all2_induct) (auto simp: item_at_def)
  moreover have "inj off" using assms(1) by (simp add: stream_def strict_mono_imp_inj_on)
  ultimately have "distinct (map wi_offset ws)" using ks(2) by (simp add: distinct_map inj_on_def)
  then have ms: "mset ?s = mset ws" by (rule sortGapBuffer_distinct)
  then have "\<forall>w \<in> set ?s. \<exists>i. i \<in> B \<and> item_at off i w"
    using buffers_mem [OF assms(2)] mset_eq_setD [OF ms] by blast
  then obtain idx where idx: "\<forall>w \<in> set ?s. idx w \<in> B \<and> item_at off (idx w) w" by metis
  let ?js = "map idx ?s"
  have "list_all2 (item_at off) ?js ?s" using idx by (simp add: list_all2_conv_all_nth)
  moreover have "sorted_wrt (<) ?js"
    unfolding sorted_wrt_map using sortGapBuffer_strict
  proof (rule sorted_wrt_mono_rel [rotated])
    fix x y assume "x \<in> set ?s" "y \<in> set ?s" "wi_offset x < wi_offset y"
    with idx have "off (idx x) < off (idx y)" by (auto simp: item_at_def)
    then show "idx x < idx y" by (simp add: stream_less [OF assms(1)])
  qed
  moreover have "set ?js = B"
  proof
    show "set ?js \<subseteq> B" using idx by auto
    show "B \<subseteq> set ?js"
    proof
      fix i assume "i \<in> B"
      with buffers_ex [OF assms(2)] obtain w where w: "w \<in> set ?s" "item_at off i w"
        using mset_eq_setD [OF ms] by blast
      with idx have "idx w = i" using item_at_inj [OF assms(1)] by blast
      with w(1) show "i \<in> set ?js" by auto
    qed
  qed
  ultimately show ?thesis by blast
qed

lemma buffers_list: "list_all2 (item_at off) js ws \<Longrightarrow> sorted_wrt (<) js \<Longrightarrow> buffers off (set js) ws"
  unfolding buffers_def using strict_sorted_iff by blast

text \<open>A flush brings the ready item to the end of the committable prefix.\<close>

lemma refines_flush:
  assumes st: "stream off" "b \<le> off 0" and ref: "refines off b A n r t"
    and f: "flushTracker nx now t = (t', col)"
  shows "refines off b A n (watermark A) t' \<and> \<not> NeedsGapAdvance t'"
  using f
proof (cases rule: flushTracker_cases)
  case idle
  then have "watermark A = r" by (intro watermark_eq refinesD(4,10) [OF ref])
  with idle ref show ?thesis by simp
next
  case empty
  then have "r \<notin> A" using refinesD(7) [OF ref] by auto
  moreover from this have "watermark A = r" by (intro watermark_eq refinesD(4) [OF ref])
  ultimately show ?thesis using ref empty by (simp add: refines_def)
next
  case (walk rdy k)
  let ?s = "sortGapBuffer (GapBuffer t)"
  obtain js where js: "list_all2 (item_at off) js ?s" "sorted_wrt (<) js" "set js = A - {0 ..< r}"
    using buffers_sorted [OF st(1) refinesD(7) [OF ref]] by blast
  have sub: "{0 ..< r} \<subseteq> A" by (rule refinesD(4) [OF ref])
  have drop: "list_all2 (item_at off) (drop k js) (drop k ?s)" "sorted_wrt (<) (drop k js)"
    using js by (auto intro: list_all2_dropI sorted_wrt_drop)
  have moved: ?thesis
    if r': "rdy = Some rd'" "item_at off i' rd'" "r \<le> Suc i'" "n \<le> i'" "r = 0 \<Longrightarrow> False"
      "set js = {r .. i'} \<union> set (drop k js)" "\<forall>j \<in> set (drop k js). Suc i' < j" for i' rd'
  proof -
    have "{0 ..< r} \<union> {r .. i'} = {0 .. i'}" using r'(3) by auto
    moreover have "A = {0 ..< r} \<union> set js" using js(3) sub by blast
    ultimately have A: "A = {0 .. i'} \<union> set (drop k js)" using r'(6) by blast
    have pre: "{0 ..< Suc i'} \<subseteq> A" unfolding A by auto
    have nA: "Suc i' \<notin> A" unfolding A using r'(7) by auto
    have wm: "watermark A = Suc i'" by (rule watermark_eq [OF pre nA])
    have rest: "A - {0 ..< Suc i'} = set (drop k js)" unfolding A using r'(7) by fastforce
    have "buffers off (A - {0 ..< Suc i'}) (drop k ?s)"
      unfolding rest using drop by (rule buffers_list)
    moreover have "r \<noteq> 0" using r'(5) by blast
    ultimately show ?thesis using walk r'(1,2,4) pre nA wm refinesD(8,9) [OF ref] by (simp add: refines_def)
  qed
  show ?thesis
  proof (cases "Ready t")
    case (Some rd)
    then have rd: "n < r" "item_at off (r - 1) rd" using refinesD(2) [OF ref Some] by auto
    have gt: "\<forall>j \<in> set js. r - 1 < j" and r: "Suc (r - 1) = r" using js(3) rd(1) by auto
    from flushWalk_run [OF st(1) walk(3) [unfolded Some] rd(2) js(1,2) gt] obtain i' rd' where
      "rdy = Some rd'" "item_at off i' rd'" "r - 1 \<le> i'"
      "set js = {r .. i'} \<union> set (drop k js)" "\<forall>j \<in> set (drop k js). Suc i' < j"
      unfolding r by blast
    moreover from this rd(1) have "r \<le> Suc i'" "n \<le> i'" by linarith+
    ultimately show ?thesis using rd(1) by (intro moved) blast+
  next
    case None
    then have n: "r = n" by (rule refinesD(1) [OF ref])
    have c: "0 < n \<and> CommittedPlusOne t = off (n - 1) + 1 \<and> LastCommittedOffset t = off (n - 1) \<or>
      n = 0 \<and> n \<notin> set js \<and> CommittedPlusOne t \<le> off 0 \<and> LastCommittedOffset t = -1"
      using refinesD(6,8,9) [OF ref] n js(3) st(2) by auto
    have ge: "\<forall>j \<in> set js. n \<le> j" using js(3) n by auto
    from flushWalk_start [OF st(1) walk(3) [unfolded None] js(1,2) ge c]
    consider "rdy = None" "k = 0" "n \<notin> set js"
      | i' rd' where "rdy = Some rd'" "item_at off i' rd'" "n \<le> i'"
        "set js = {n .. i'} \<union> set (drop k js)" "\<forall>j \<in> set (drop k js). Suc i' < j" by blast
    then show ?thesis
    proof cases
      case 1
      then have "r \<notin> A" using js(3) n by auto
      moreover from this have "watermark A = r" by (intro watermark_eq refinesD(4) [OF ref])
      moreover have "buffers off (A - {0 ..< r}) ?s" using buffers_list [OF js(1,2)] js(3) by simp
      ultimately show ?thesis using ref walk 1 None sub n by (simp add: refines_def)
    next
      case 2
      have "n \<in> {n .. i'}" using 2(3) by simp
      then have "n \<in> set js" using 2(4) by blast
      then have "r = 0 \<Longrightarrow> False" using refinesD(6) [OF ref] js(3) n by auto
      with 2 n show ?thesis by (intro moved [OF 2(1,2) _ 2(3) _ _ 2(5)]) simp_all
    qed
  qed
qed

section \<open>Gathering and acknowledging\<close>

text \<open>
  After a flush the repair of a lost successor finds nothing to do: a buffered item that
  could follow the last commit would have been taken by the flush.
\<close>

lemma repairScan_None:
  "\<forall>g \<in> set gs. c < wi_offset g \<and> k < wi_PreviousOffset g \<Longrightarrow> repairScan c k gs None = None"
  by (induction gs) auto

lemma refines_no_repair:
  assumes st: "stream off" and ref: "refines off b A n n t" and n: "n \<notin> A"
  shows "repairSuccessor nx now t = (t, [])"
proof (cases "LastCommittedOffset t < 0")
  case False
  have n0: "0 < n" using False refinesD(9) [OF ref] by (auto split: if_splits)
  have "CommittedPlusOne t < wi_offset g \<and> LastCommittedOffset t < wi_PreviousOffset g" if "g \<in> set (GapBuffer t)" for g
  proof -
    from buffers_mem [OF refinesD(7) [OF ref] that] obtain i where i': "i \<in> A - {0 ..< n}" "item_at off i g" by blast
    moreover have "i \<noteq> n" using n i'(1) by blast
    ultimately have i: "n < i" "item_at off i g" by auto
    have "off (n - 1) < off (i - 1)" "off (n - 1) < off n" "off n < off i"
      using st i(1) n0 by (auto simp: stream_less)
    with i n0 refinesD(8,9) [OF ref] show ?thesis by (simp add: item_at_def)
  qed
  then have "repairScan (CommittedPlusOne t) (LastCommittedOffset t) (GapBuffer t) None = None"
    by (intro repairScan_None) blast
  then show ?thesis by (simp add: repairSuccessor_def)
qed (simp add: repairSuccessor_def)

lemma refines_gather:
  assumes st: "stream off" "b \<le> off 0" and ref: "refines off b A n r t" and r: "r \<notin> A"
    and g: "gatherTracker nx now True t = (t', m, col)"
  shows "t' = t \<and> map_option msg_Offset m = (if n < r then Some (off (r - 1)) else None)"
proof (cases "Ready t")
  case None
  then have "r = n" by (rule refinesD(1) [OF ref])
  moreover from this have "repairSuccessor nx now t = (t, [])"
    using refines_no_repair [OF st(1)] ref r by blast
  ultimately show ?thesis using g None by (simp add: gatherTracker_def)
next
  case (Some w)
  then have w: "n < r" "item_at off (r - 1) w" using refinesD(2) [OF ref] by auto
  have "CommittedPlusOne t \<le> off (r - 1)"
  proof (cases "n = 0")
    case True
    then show ?thesis using refinesD(8) [OF ref] w(1) stream_le [OF st(1), of 0 "r - 1"] by simp
  next
    case False
    then have "off (n - 1) < off (r - 1)" using w(1) by (intro stream_less [OF st(1), THEN iffD2]) simp
    with False w(1) refinesD(8) [OF ref] show ?thesis by simp
  qed
  with w g Some show ?thesis by (auto simp: gatherTracker_def item_at_def)
qed

lemma refines_ack:
  assumes st: "stream off" and ref: "refines off b A n r t" and n: "n < r" and r: "r \<notin> A"
    and c: "committedAt (off (r - 1)) t t'"
  shows "refines off b A r r t'"
proof -
  have "max (LastCommittedOffset t) (off (r - 1)) = off (r - 1)"
    using refinesD(9) [OF ref] stream_nonneg [OF st, of "r - 1"] stream_less [OF st, of "n - 1" "r - 1"] n
    by (auto simp: max_def split: if_splits)
  with ref n r c show ?thesis by (auto simp: refines_def committedAt_def)
qed

section \<open>One partition of the committer\<close>

text \<open>
  Partition \<open>p\<close> of the committer is in the abstract state \<open>(A, n)\<close> of its epoch: the
  positions that completed and the number of positions committed.
\<close>

definition tracks :: "partition \<Rightarrow> (nat \<Rightarrow> int) \<Rightarrow> int \<Rightarrow> nat set \<Rightarrow> nat \<Rightarrow> 'a committer \<Rightarrow> bool" where
  "tracks p off b A n oc \<longleftrightarrow> stream off \<and> b \<le> off 0 \<and>
     (\<exists>t r. map_of (PartitionMap oc) p = Some t \<and> refines off b A n r t)"

text \<open>The completions of partition \<open>p\<close> among the items \<open>ws\<close>: new positions, each once.\<close>

definition completions :: "partition \<Rightarrow> (nat \<Rightarrow> int) \<Rightarrow> nat set \<Rightarrow> nat list \<Rightarrow> 'a work_item list \<Rightarrow> bool" where
  "completions p off A js ws \<longleftrightarrow> list_all2 (item_at off) js (filter (\<lambda>w. wi_partition w = p) ws) \<and>
     distinct js \<and> set js \<inter> A = {}"

lemma tracks_cong: "PartitionMap oc' = PartitionMap oc \<Longrightarrow> tracks p off b A n oc' = tracks p off b A n oc"
  by (simp add: tracks_def)

lemma tracks_flush:
  assumes "tracks p off b A n oc"
  shows "tracks p off b A n (flushGapBuffers nx now oc)"
proof -
  from assms obtain t r where t: "stream off" "b \<le> off 0" "map_of (PartitionMap oc) p = Some t" "refines off b A n r t"
    by (auto simp: tracks_def)
  from refines_flush [OF t(1,2,4) prod.collapse [symmetric], of nx now] t show ?thesis
    by (auto simp: tracks_def map_of_map_snd [where f = "\<lambda>_ t. fst (flushTracker nx now t)"])
qed

lemma tracks_fold:
  "tracks p off b A n oc \<Longrightarrow> completions p off A js ws \<Longrightarrow>
   tracks p off b (A \<union> set js) n (fold (processCommit nx now) ws oc)"
proof (induction ws arbitrary: js A oc)
  case (Cons w ws)
  show ?case
  proof (cases "wi_partition w = p")
    case False
    with Cons.prems have "tracks p off b A n (processCommit nx now w oc)" "completions p off A js ws"
      by (simp_all add: tracks_def completions_def update_conv')
    from Cons.IH [OF this] show ?thesis by simp
  next
    case True
    with Cons.prems(2) obtain j js1 where j: "js = j # js1" "item_at off j w" "j \<notin> A"
      "completions p off (insert j A) js1 ws"
      by (auto simp: completions_def list_all2_Cons2)
    from Cons.prems(1) obtain t r where t: "stream off" "b \<le> off 0" "map_of (PartitionMap oc) p = Some t"
      "refines off b A n r t" by (auto simp: tracks_def)
    from refines_arrive [OF t(1,2,4) j(2,3) prod.collapse [symmetric], of nx now] t True
    have "tracks p off b (insert j A) n (processCommit nx now w oc)"
      by (auto simp: tracks_def update_conv')
    from Cons.IH [OF this j(4)] j(1) show ?thesis by simp
  qed
qed (simp add: completions_def)

lemma completions_append:
  assumes "completions p off A js (ws @ vs)"
  obtains js1 js2 where "js = js1 @ js2" "completions p off A js1 ws" "completions p off (A \<union> set js1) js2 vs"
  using assms that unfolding completions_def filter_append list_all2_append2 by fastforce

lemma tracks_ingest:
  assumes "tracks p off b A n oc" "completions p off A js (commitsIn oc)"
  obtains js1 js2 where "js = js1 @ js2" "tracks p off b (A \<union> set js1) n (ingestBatch nx now oc)"
    "completions p off (A \<union> set js1) js2 (commitsIn (ingestBatch nx now oc))"
proof -
  from assms(2) have "completions p off A js (take readBatchSize (commitsIn oc) @ drop readBatchSize (commitsIn oc))"
    by simp
  then obtain js1 js2 where js: "js = js1 @ js2" "completions p off A js1 (take readBatchSize (commitsIn oc))"
    "completions p off (A \<union> set js1) js2 (drop readBatchSize (commitsIn oc))"
    by (rule completions_append)
  have "tracks p off b A n (oc\<lparr>commitsIn := drop readBatchSize (commitsIn oc)\<rparr>)"
    using assms(1) by (simp add: tracks_def)
  from tracks_flush [OF tracks_fold [OF this js(2), of nx now], of nx now] assms(1) js(2)
  have "tracks p off b (A \<union> set js1) n (ingestBatch nx now oc)"
    by (auto simp: ingestBatch_def Let_def tracks_def completions_def)
  with js that show ?thesis by simp
qed

lemma tracks_ingestUntilEmpty:
  "tracks p off b A n oc \<Longrightarrow> completions p off A js (commitsIn oc) \<Longrightarrow>
   tracks p off b (A \<union> set js) n (ingestUntilEmpty nx now oc)"
proof (induction nx now oc arbitrary: A js rule: ingestUntilEmpty.induct)
  case (1 nx now oc)
  show ?case
  proof (cases "commitsIn oc = []")
    case True
    with 1(2,3) show ?thesis by (subst ingestUntilEmpty.simps) (simp add: completions_def)
  next
    case False
    from 1(2,3) obtain js1 js2 where js: "js = js1 @ js2" "tracks p off b (A \<union> set js1) n (ingestBatch nx now oc)"
      "completions p off (A \<union> set js1) js2 (commitsIn (ingestBatch nx now oc))" by (rule tracks_ingest)
    from 1(1) [OF False js(2,3)] False js(1) show ?thesis
      by (subst ingestUntilEmpty.simps) (simp add: Un_assoc)
  qed
qed

section \<open>The tick and the drain\<close>

definition offersOf :: "partition \<Rightarrow> 'a message list \<Rightarrow> int list" where
  "offersOf p ms = map msg_Offset (filter (\<lambda>m. msg_Partition m = p) ms)"

lemma gatherCommits_offers:
  assumes "gatherCommits nx now asg pm = (pm', ms, col)" "distinct (map fst pm)"
    "\<forall>(q, t) \<in> set pm'. own_items q t" "map_of pm p = Some t" "gatherTracker nx now (p \<in> asg) t = (t', m, c)"
  shows "offersOf p ms = (case m of None \<Rightarrow> [] | Some x \<Rightarrow> [msg_Offset x])"
  using assms
proof (induction pm arbitrary: pm' ms col)
  case (Cons qt pm)
  obtain q u where qt: "qt = (q, u)" by fastforce
  obtain u1 m1 col1 where g: "gatherTracker nx now (q \<in> asg) u = (u1, m1, col1)" by (metis prod_cases3)
  obtain pm1 ms1 cols1 where gs: "gatherCommits nx now asg pm = (pm1, ms1, cols1)" by (metis prod_cases3)
  have res: "pm' = (q, u1) # pm1" "ms = (case m1 of None \<Rightarrow> ms1 | Some x \<Rightarrow> x # ms1)"
    using Cons.prems(1) qt g gs by simp_all
  have own: "\<forall>(q, t) \<in> set pm1. own_items q t" "own_items q u1" using Cons.prems(3) res(1) by simp_all
  have head: "msg_Partition x = q" if "m1 = Some x" for x
    using gatherTracker_message [OF g [unfolded that]] own(2) by (auto simp: holds_items_def held_def)
  have tail: "\<forall>x \<in> set ms1. msg_Partition x \<in> fst ` set pm"
    using gatherCommits_batch [OF gs] Cons.prems(2) own(1) by simp
  show ?case
  proof (cases "q = p")
    case True
    then have "u = t" "p \<notin> fst ` set pm" using Cons.prems(2,4) qt by auto
    then have "filter (\<lambda>m. msg_Partition m = p) ms1 = []" "m1 = m"
      using tail True g Cons.prems(5) by (auto simp: filter_empty_conv)
    with res(2) head True show ?thesis by (simp add: offersOf_def split: option.split)
  next
    case False
    then have "offersOf p ms1 = (case m of None \<Rightarrow> [] | Some x \<Rightarrow> [msg_Offset x])"
      using Cons.IH [OF gs _ own(1) _ Cons.prems(5)] Cons.prems(2,4) qt by simp
    with res(2) head False show ?thesis by (auto simp: offersOf_def split: option.split)
  qed
qed simp

lemma tracks_gather:
  assumes "tracks p off b A n oc" "committer_wf oc" "p \<in> assigned oc" "gatherState nx now oc = (ms, oc')"
  obtains t where "map_of (PartitionMap oc') p = Some t" "refines off b A n (watermark A) t" "watermark A \<notin> A"
    "offersOf p ms = (if n < watermark A then [off (watermark A - 1)] else [])"
proof -
  from assms(1) obtain t r where t: "stream off" "b \<le> off 0" "map_of (PartitionMap oc) p = Some t"
    "refines off b A n r t" by (auto simp: tracks_def)
  let ?t = "fst (flushTracker nx now t)"
  have ref: "refines off b A n (watermark A) ?t" and nA: "watermark A \<notin> A"
    using refines_flush [OF t(1,2,4) prod.collapse [symmetric], of nx now] refinesD(10) by blast+
  obtain t' m c where g: "gatherTracker nx now True ?t = (t', m, c)" by (metis prod_cases3)
  note r = refines_gather [OF t(1,2) ref nA g]
  obtain pm ms1 col where gs: "gatherCommits nx now (assigned oc)
      (PartitionMap (flushGapBuffers nx now oc)) = (pm, ms1, col)" by (metis prod_cases3)
  with assms(4) have oc': "ms = ms1" "PartitionMap oc' = pm" by (auto simp: gatherState_def)
  have "distinct (map fst (PartitionMap (flushGapBuffers nx now oc)))"
    using flushGapBuffers_wf [OF assms(2)] by (simp only: committer_wf_def)
  moreover have "\<forall>(p, t) \<in> set pm. own_items p t"
    using gatherState_wf [OF assms(2,4)] oc'(2) by (simp add: committer_wf_def all_trackers_def)
  moreover have "map_of (PartitionMap (flushGapBuffers nx now oc)) p = Some ?t"
    using t(3) by (simp add: map_of_map_snd [where f = "\<lambda>_ t. fst (flushTracker nx now t)"])
  ultimately have "offersOf p ms = (case m of None \<Rightarrow> [] | Some x \<Rightarrow> [msg_Offset x])"
    using gatherCommits_offers [OF gs] g assms(3) oc'(1) by simp
  moreover have "map_of (PartitionMap oc') p = Some ?t"
    using gatherState_lookup [OF assms(4), of p] t(3) g r assms(3) by simp
  ultimately show ?thesis using that ref nA r by (auto split: option.splits if_splits)
qed

lemma offersOf_Nil: "offersOf p ms = [] \<longleftrightarrow> p \<notin> msg_Partition ` set ms"
  by (auto simp: offersOf_def filter_empty_conv)

lemma offersOf_single:
  assumes "offersOf p ms = [k]"
  obtains m where "m \<in> set ms" "msg_Partition m = p" "msg_Offset m = k"
proof -
  from assms obtain m where "filter (\<lambda>m. msg_Partition m = p) ms = [m]" "msg_Offset m = k"
    by (auto simp: offersOf_def)
  then have "m \<in> set (filter (\<lambda>m. msg_Partition m = p) ms)" "msg_Offset m = k" by simp_all
  then show ?thesis by (intro that [of m]) simp_all
qed

lemma tracks_commit:
  assumes "tracks p off b A n oc" "committer_wf oc" "p \<in> assigned oc"
    "CommitOffsets nx now broker True oc = (err, sent, oc')"
  shows "offersOf p sent = (if n < watermark A then [off (watermark A - 1)] else [])"
    "tracks p off b A (if err = None then watermark A else n) oc'"
proof -
  have st: "stream off" "b \<le> off 0" using assms(1) by (simp_all add: tracks_def)
  have "offersOf p sent = (if n < watermark A then [off (watermark A - 1)] else []) \<and>
    tracks p off b A (if err = None then watermark A else n) oc'"
    using assms(4,2)
  proof (cases rule: CommitOffsets_cases)
    case idle
    obtain t where t: "map_of (PartitionMap oc') p = Some t" "refines off b A n (watermark A) t" "watermark A \<notin> A"
      "offersOf p sent = (if n < watermark A then [off (watermark A - 1)] else [])"
      by (rule tracks_gather [OF assms(1-3) idle(2) [folded idle(4)]])
    have "watermark A = n" using t(4) refinesD(3) [OF t(2)] idle(4) by (auto simp: offersOf_def split: if_splits)
    with t st idle show ?thesis by (auto simp: tracks_def)
  next
    case (failed e)
    obtain t where t: "map_of (PartitionMap oc') p = Some t" "refines off b A n (watermark A) t" "watermark A \<notin> A"
      "offersOf p sent = (if n < watermark A then [off (watermark A - 1)] else [])"
      by (rule tracks_gather [OF assms(1-3) failed(2)])
    with st failed show ?thesis by (auto simp: tracks_def)
  next
    case (sent oc2)
    obtain t where t: "map_of (PartitionMap oc2) p = Some t" "refines off b A n (watermark A) t" "watermark A \<notin> A"
      "offersOf p sent = (if n < watermark A then [off (watermark A - 1)] else [])"
      by (rule tracks_gather [OF assms(1-3) sent(2)])
    have a: "ackable sent oc2" using gatherState_batch [OF assms(2) sent(2)] by simp
    have "tracks p off b A (watermark A) oc'"
    proof (cases "n < watermark A")
      case True
      then have "offersOf p sent = [off (watermark A - 1)]" using t(4) by simp
      then obtain m where m: "m \<in> set sent" "msg_Partition m = p" "msg_Offset m = off (watermark A - 1)"
        by (rule offersOf_single)
      from ackCommits_committed [OF a sent(5) m(1)] t(1) m obtain t' where
        "map_of (PartitionMap oc') p = Some t'" "committedAt (off (watermark A - 1)) t t'" by auto
      with refines_ack [OF st(1) t(2) True t(3)] st show ?thesis by (auto simp: tracks_def)
    next
      case False
      then have "watermark A = n" "p \<notin> msg_Partition ` set sent"
        using t(4) refinesD(3) [OF t(2)] by (simp_all flip: offersOf_Nil)
      with ackCommits_other [OF sent(5)] t(1,2) st show ?thesis by (auto simp: tracks_def)
    qed
    with t(4) sent show ?thesis by simp
  qed simp
  then show "offersOf p sent = (if n < watermark A then [off (watermark A - 1)] else [])"
    "tracks p off b A (if err = None then watermark A else n) oc'" by blast+
qed

text \<open>
  C5. The commit tick refines the abstract watermark. For an owned partition in the abstract
  state \<open>(A, n)\<close> a tick that got the guard offers exactly one offset when the committable
  prefix has grown, the last one of the prefix, and nothing otherwise; after an accepted
  commit the partition is in the state \<open>(A, watermark A)\<close>, after a refused one still in
  \<open>(A, n)\<close>.
\<close>

theorem tick_refines_watermark:
  assumes "tracks p off b A n oc" "committer_wf oc" "p \<in> assigned oc"
    "CommitOffsets nx now broker True oc = (err, sent, oc')"
  shows "offersOf p sent = (if n < watermark A then [off (watermark A - 1)] else []) \<and>
    tracks p off b A (if err = None then watermark A else n) oc'"
  using tracks_commit [OF assms] by blast

lemma tracks_baseline:
  assumes "tracks p off b A n oc" "0 < n" "n \<notin> A"
  shows "baseline oc p = off (n - 1) + 1"
proof -
  from assms(1) obtain t r where t: "map_of (PartitionMap oc) p = Some t" "refines off b A n r t"
    by (auto simp: tracks_def)
  have "r = n" using refinesD(3) [OF t(2)] refinesD(5) [OF t(2) assms(3)] by simp
  with refinesD(8) [OF t(2)] assms(2) t(1) show ?thesis by (simp add: baseline_def)
qed

lemma tracks_idle:
  assumes "tracks p off b {0 ..< n} n oc"
  shows "\<exists>t. map_of (PartitionMap oc) p = Some t \<and> \<not> HasPendingCommits t"
proof -
  from assms obtain t r where t: "map_of (PartitionMap oc) p = Some t" "refines off b {0 ..< n} n r t"
    by (auto simp: tracks_def)
  have "r \<le> n" using refinesD(5) [OF t(2), of n] by simp
  then have "r = n" using refinesD(3) [OF t(2)] by simp
  then have "Ready t = None" "GapBuffer t = []"
    using t(2) by (auto simp: refines_def buffers_def split: option.splits)
  with t(1) show ?thesis by (simp add: HasPendingCommits_def)
qed

lemma drain_cases:
  assumes "DrainCommitter nx now broker acq None oc = (err, sent, oc')"
  obtains err' oc1 where "CommitOffsets nx now broker acq oc1 = (err', sent, oc')"
    "oc1 = (ingestUntilEmpty nx now (oc\<lparr>drained := False\<rparr>))\<lparr>drained := False\<rparr>" "err' = None \<Longrightarrow> err = None"
proof -
  let ?oc = "(ingestUntilEmpty nx now (oc\<lparr>drained := False\<rparr>))\<lparr>drained := False\<rparr>"
  obtain e s c where r: "CommitOffsets nx now broker acq ?oc = (e, s, c)" by (metis prod_cases3)
  have "commitsIn oc = [] \<Longrightarrow> ?oc = oc\<lparr>drained := False\<rparr>" by (subst ingestUntilEmpty.simps) simp
  with r assms have "sent = s" "oc' = c" "e = None \<Longrightarrow> err = None"
    by (auto simp: DrainCommitter_def Let_def surfaceFinalCommit_def split: if_splits option.splits commit_error.splits prod.splits)
  with r that show ?thesis by simp
qed

lemma ingestUntilEmpty_assigned [simp]: "assigned (ingestUntilEmpty nx now oc) = assigned oc"
proof (induction nx now oc rule: ingestUntilEmpty.induct)
  case (1 nx now oc)
  then show ?case by (subst ingestUntilEmpty.simps) simp
qed

lemma drain_prefix:
  assumes "tracks p off b A n oc" "committer_wf oc" "p \<in> assigned oc" "completions p off A js (commitsIn oc)"
    "\<And>ms. broker ms = None" "DrainCommitter nx now broker True None oc = (err, sent, oc')"
    "0 < k" "{0 ..< k} \<subseteq> A \<union> set js" "k \<notin> A \<union> set js"
  shows "err = None \<and> baseline oc' p = off (k - 1) + 1 \<and>
    (A \<union> set js = {0 ..< k} \<longrightarrow> (\<exists>t. map_of (PartitionMap oc') p = Some t \<and> \<not> HasPendingCommits t))"
proof -
  let ?oc = "oc\<lparr>drained := False\<rparr>"
  obtain err' oc1 where d: "CommitOffsets nx now broker True oc1 = (err', sent, oc')"
    "oc1 = (ingestUntilEmpty nx now ?oc)\<lparr>drained := False\<rparr>" "err' = None \<Longrightarrow> err = None"
    using drain_cases [OF assms(6)] by metis
  have wf: "committer_wf oc1" using assms(2) d(2) by (simp add: ingestUntilEmpty_wf)
  have "tracks p off b (A \<union> set js) n (ingestUntilEmpty nx now ?oc)"
    using assms(1,4) by (intro tracks_ingestUntilEmpty) (simp_all add: tracks_def)
  then have tr: "tracks p off b (A \<union> set js) n oc1" using d(2) by (simp add: tracks_def)
  have err: "err' = None" using d(1) wf by (cases rule: CommitOffsets_cases) (use assms(5) in simp_all)
  have wm: "watermark (A \<union> set js) = k" by (rule watermark_eq [OF assms(8,9)])
  have fin: "tracks p off b (A \<union> set js) k oc'"
    using tracks_commit(2) [OF tr wf _ d(1)] assms(3) d(2) err wm by simp
  have "\<exists>t. map_of (PartitionMap oc') p = Some t \<and> \<not> HasPendingCommits t" if "A \<union> set js = {0 ..< k}"
    by (rule tracks_idle [OF fin [unfolded that]])
  with tracks_baseline [OF fin assms(7,9)] d(3) [OF err] show ?thesis by blast
qed


section \<open>An epoch in which offsets are missing and completions arrive out of order\<close>

definition exOff :: "nat \<Rightarrow> int" where
  "exOff i = 5 + 2 * int i"

definition exArrivals :: "unit work_item list" where
  "exArrivals = [exItem 3 0 9 7 False, exItem 4 1 40 39 False, exItem 1 0 5 4 True, exItem 2 0 7 5 False]"

definition exEpoch :: "unit committer" where
  "exEpoch = fold CollectAndCommit exArrivals exOwner"

lemma exOff_stream: "stream exOff"
  by (auto simp: stream_def exOff_def intro: strict_monoI)

lemma exOwner_tracks: "tracks 0 exOff 5 {} 0 exOwner"
proof -
  have "map_of (PartitionMap exOwner) 0 = Some (baselineTracker 5)" by code_simp
  moreover have "refines exOff 5 {} 0 0 (baselineTracker 5 :: unit tracker)"
    by (simp add: refines_def baselineTracker_def)
  moreover have "5 \<le> exOff 0" by (simp add: exOff_def)
  ultimately show ?thesis unfolding tracks_def using exOff_stream by blast
qed

lemma exArrivals_completions: "completions 0 exOff {} [2, 0, 1] exArrivals"
  by (simp add: completions_def exArrivals_def item_at_def exOff_def exItem_def)

lemma exEpoch_simps: "PartitionMap exEpoch = PartitionMap exOwner" "assigned exEpoch = {0}" "commitsIn exEpoch = exArrivals"
  by (simp_all add: exEpoch_def exArrivals_def CollectAndCommit_def exOwner_def MarkPartitionAssigned_def
      ResetCommittedOffsets_def NewCommitter_def Let_def case_prod_beta)

lemma exEpoch_wf: "committer_wf exEpoch"
  by (simp add: exEpoch_def exArrivals_def CollectAndCommit_wf exOwner_wf)

lemma exEpoch_tracks: "tracks 0 exOff 5 {} 0 exEpoch"
  using exOwner_tracks by (simp add: tracks_def exEpoch_simps)

definition exIngested :: "unit committer" where
  "exIngested = ingestUntilEmpty exNexus 30 exEpoch"

lemma exIngested_tracks: "tracks 0 exOff 5 {2, 0, 1} 0 exIngested" "committer_wf exIngested" "0 \<in> assigned exIngested"
  using tracks_ingestUntilEmpty [OF exEpoch_tracks, of "[2, 0, 1]"] exArrivals_completions
  by (simp_all add: exIngested_def exEpoch_simps ingestUntilEmpty_wf exEpoch_wf)

lemma watermark_example: "watermark {2, 0, Suc 0} = 3"
  by (rule watermark_eq) auto

theorem tick_refines_watermark_witness:
  "tracks 0 exOff 5 {2, 0, 1} 0 exIngested \<and> 0 \<in> assigned exIngested \<and>
   offersOf 0 (fst (snd (CommitOffsets exNexus 40 (\<lambda>_. None) True exIngested))) = [9]"
proof -
  obtain e s c where r: "CommitOffsets exNexus 40 (\<lambda>_. None) True exIngested = (e, s, c)" by (metis prod_cases3)
  from tick_refines_watermark [OF exIngested_tracks r] r exIngested_tracks watermark_example show ?thesis
    by (simp add: exOff_def)
qed


end
