(* ===== verification/Demux_Pipeline.thy ===== *)
theory Demux_Pipeline
  imports Worker Fnv_Hash
begin

text \<open>
  The fan-out (demux/pipeline: processor.go \<open>Process\<close>, processor_demux.go,
  worker_shard.go, worker_pool.go, and the loop of worker.go) as an interleaving of the
  polling goroutine and the workers. A step is what a goroutine does between two points at
  which another can be observed: a channel operation, or a critical section of a shard's
  mutex. A channel is its buffered content; a guard channel is the number of tokens in it.
  The overflow guard may be shared with other consumers, whose tokens are counted apart.
\<close>

section \<open>State\<close>

text \<open>
  Where a worker's goroutine is: blocked in the cold select, inside \<open>processWorkItem\<close>, at
  the hot select, between the fall-through and the mutex, past the removal from the map with
  its guard token still held, past the release of the token, or gone.
\<close>

datatype 'a phase =
    Cold | Processing "'a work_item" | Hot | FellThrough | Retiring | Returning | Exited

record 'a worker =
  workItems :: "'a work_item list"
  wphase :: "'a phase"
  partitionKey :: string
  usedOverflow :: bool
  IsActive :: bool
  shutdown :: bool
  workerShard :: nat

record worker_shard =
  workers :: "(string \<times> nat) list"
  activeCount :: nat
  done_flag :: bool
  workerPool :: "nat list"
  prevLen :: "nat option"

text \<open>
  Where the polling goroutine is: at the poll, blocked for a guard token, holding one and
  about to look up the worker, holding a freshly borrowed worker, or holding a token it
  does not need.
\<close>

datatype 'a sender =
    Polling | Waiting "'a work_item" | Trying "'a work_item" | Handing "'a work_item" nat | Releasing bool

datatype trip_reason = WorkerStall partition int | DeadLetterUnwritable partition int dead_letter_error

record 'a demux =
  guardLen :: nat
  overflowLen :: nat
  overflowOthers :: nat
  shards :: "nat \<Rightarrow> worker_shard"
  wk :: "nat \<Rightarrow> 'a worker"
  fresh :: nat
  sender :: "'a sender"
  trips :: "trip_reason list"
  accepted :: "'a work_item list"
  taken :: "'a work_item list"
  handed :: "'a work_item list"

text \<open>
  \<open>wk\<close> is the heap of workers and \<open>fresh\<close> the next unused address. \<open>trips\<close> are the calls of
  \<open>TriggerEmergencyShutdown\<close>, \<open>handed\<close> the calls of \<open>collectAndCommit\<close>. \<open>accepted\<close> and
  \<open>taken\<close> record the sends to and the receives from the workers' channels, in order.
\<close>

abbreviation wi_key :: "'a work_item \<Rightarrow> string" where
  "wi_key w \<equiv> msg_Key (wi_Message w)"

definition usesOverflow :: "nexus \<Rightarrow> 'a work_item \<Rightarrow> bool" where
  "usesOverflow nx w \<longleftrightarrow> wi_traits w AND UsedOverflow nx \<noteq> 0"

definition shardOf :: "DemuxConfig \<Rightarrow> string \<Rightarrow> nat" where
  "shardOf c key = unat (HashIndex key (shardMask (nat (WorkerShardsCount c))))"

section \<open>The worker pool and the shard\<close>

definition NewWorker :: "nat \<Rightarrow> 'a worker" where
  "NewWorker i = \<lparr>workItems = [], wphase = Cold, partitionKey = '''', usedOverflow = False,
     IsActive = True, shutdown = False, workerShard = i\<rparr>"

text \<open>A worker from the pool of shard \<open>i\<close>, or a new one.\<close>

definition BorrowWorker :: "nat \<Rightarrow> 'a demux \<Rightarrow> nat \<times> 'a demux" where
  "BorrowWorker i s =
     (case workerPool (shards s i) of
        x # xs \<Rightarrow> (x, s\<lparr>shards := (shards s)(i := (shards s i)\<lparr>workerPool := xs\<rparr>)\<rparr>)
      | [] \<Rightarrow> (fresh s, s\<lparr>wk := (wk s)(fresh s := NewWorker i), fresh := Suc (fresh s)\<rparr>))"

definition poolSize :: "DemuxConfig \<Rightarrow> nat \<Rightarrow> nat" where
  "poolSize c overflowCap = nat (ConcurrentKeys c) + overflowCap"

definition ReturnWorker :: "nat \<Rightarrow> nat \<Rightarrow> nat \<Rightarrow> 'a demux \<Rightarrow> 'a demux" where
  "ReturnWorker poolCap i x s =
     (if length (workerPool (shards s i)) < poolCap
      then s\<lparr>shards := (shards s)(i := (shards s i)\<lparr>workerPool := workerPool (shards s i) @ [x]\<rparr>)\<rparr>
      else s\<lparr>wk := (wk s)(x := (wk s x)\<lparr>shutdown := True\<rparr>)\<rparr>)"

text \<open>One tick of \<open>pruneIdleWorkers\<close>; \<open>prevLen\<close> starts as \<open>math.MaxInt\<close>, here \<open>None\<close>.\<close>

definition pruneIdleWorkers :: "nat \<Rightarrow> nat \<Rightarrow> 'a demux \<Rightarrow> 'a demux" where
  "pruneIdleWorkers minIdle i s =
     (let sh = shards s i;
          n = length (workerPool sh);
          s1 = (if n > minIdle \<and> (case prevLen sh of None \<Rightarrow> True | Some p \<Rightarrow> n \<le> p) then
                  (case workerPool sh of
                     [] \<Rightarrow> s
                   | x # xs \<Rightarrow> s\<lparr>shards := (shards s)(i := sh\<lparr>workerPool := xs\<rparr>),
                                  wk := (wk s)(x := (wk s x)\<lparr>shutdown := True\<rparr>)\<rparr>)
                else s)
      in s1\<lparr>shards := (shards s1)(i := (shards s1 i)\<lparr>prevLen := Some n\<rparr>)\<rparr>)"

definition emptyShard :: worker_shard where
  "emptyShard = \<lparr>workers = [], activeCount = 0, done_flag = False, workerPool = [], prevLen = None\<rparr>"

fun borrowWorkers :: "nat \<Rightarrow> nat \<Rightarrow> 'a demux \<Rightarrow> nat list \<times> 'a demux" where
  "borrowWorkers 0 i s = ([], s)"
| "borrowWorkers (Suc n) i s =
     (let (x, s1) = BorrowWorker i s; (xs, s2) = borrowWorkers n i s1 in (x # xs, s2))"

definition NewWorkerShard :: "DemuxConfig \<Rightarrow> nat \<Rightarrow> nat \<Rightarrow> 'a demux \<Rightarrow> 'a demux" where
  "NewWorkerShard c overflowCap i s =
     (let s1 = s\<lparr>shards := (shards s)(i := emptyShard)\<rparr>;
          (warmed, s2) = borrowWorkers (nat (CalcMinimumIdleWorkers c)) i s1
      in fold (ReturnWorker (poolSize c overflowCap) i) warmed s2)"

definition NewDemux :: "DemuxConfig \<Rightarrow> nat \<Rightarrow> 'a demux" where
  "NewDemux c overflowCap =
     fold (NewWorkerShard c overflowCap) [0 ..< nat (WorkerShardsCount c)]
       \<lparr>guardLen = 0, overflowLen = 0, overflowOthers = 0, shards = (\<lambda>_. emptyShard),
        wk = (\<lambda>_. NewWorker 0), fresh = 0, sender = Polling, trips = [],
        accepted = [], taken = [], handed = []\<rparr>"

section \<open>The polling goroutine\<close>

text \<open>
  The first select of \<open>Process\<close>, on the work item \<open>toWorkItem\<close> built: a free guard token is
  taken at once, otherwise the goroutine blocks in the second select.
\<close>

definition Process :: "DemuxConfig \<Rightarrow> 'a work_item \<Rightarrow> 'a demux \<Rightarrow> 'a demux option" where
  "Process c w s =
     (case sender s of
        Polling \<Rightarrow>
          if guardLen s < nat (ConcurrentKeys c)
          then Some (s\<lparr>guardLen := guardLen s + 1, sender := Trying w\<rparr>)
          else Some (s\<lparr>sender := Waiting w\<rparr>)
      | _ \<Rightarrow> None)"

datatype wake = WakeGuard | WakeOverflow | WakeTimer

text \<open>The second select; the timer case is the error return.\<close>

definition awaitGuard :: "nexus \<Rightarrow> DemuxConfig \<Rightarrow> nat \<Rightarrow> wake \<Rightarrow> 'a demux \<Rightarrow> 'a demux option" where
  "awaitGuard nx c overflowCap how s =
     (case sender s of
        Waiting w \<Rightarrow>
          (case how of
             WakeGuard \<Rightarrow>
               if guardLen s < nat (ConcurrentKeys c)
               then Some (s\<lparr>guardLen := guardLen s + 1, sender := Trying w\<rparr>) else None
           | WakeOverflow \<Rightarrow>
               if overflowLen s + overflowOthers s < overflowCap
               then Some (s\<lparr>overflowLen := overflowLen s + 1, sender := Trying (onTraits (SetUsedOverflow nx) w)\<rparr>)
               else None
           | WakeTimer \<Rightarrow> Some (s\<lparr>sender := Polling\<rparr>))
      | _ \<Rightarrow> None)"

definition withRoute :: "nat \<Rightarrow> 'a work_item \<Rightarrow> 'a work_item" where
  "withRoute i w = w\<lparr>wi_WorkerPool := i\<rparr>"

definition withDepth :: "nat \<Rightarrow> 'a work_item \<Rightarrow> 'a work_item" where
  "withDepth n w = w\<lparr>wi_Metrics := (wi_Metrics w)\<lparr>met_QueueDepth := int n\<rparr>\<rparr>"

text \<open>
  The critical section of \<open>SendToWorkerForProcessing\<close>. \<open>late\<close> is whether the item was read
  longer ago than the acquire timeout. A full channel leaves the goroutine where it is, to
  try again, unless the breaker has tripped.
\<close>

definition SendToWorkerForProcessing :: "nexus \<Rightarrow> DemuxConfig \<Rightarrow> bool \<Rightarrow> 'a demux \<Rightarrow> 'a demux option" where
  "SendToWorkerForProcessing nx c late s =
     (case sender s of
        Trying w0 \<Rightarrow>
          (let i = shardOf c (wi_key w0);
               w = withRoute i w0;
               sh = shards s i
           in case map_of (workers sh) (wi_key w) of
                Some x \<Rightarrow>
                  (let v = wk s x;
                       ov = usesOverflow nx w;
                       w1 = withDepth (length (workItems v)) w
                   in if length (workItems v) < nat (PerKeyBufferLen c)
                      then Some (s\<lparr>wk := (wk s)(x := v\<lparr>workItems := workItems v @ [w1]\<rparr>),
                                   accepted := accepted s @ [w1], sender := Releasing ov\<rparr>)
                      else if done_flag sh then Some (s\<lparr>sender := Releasing ov\<rparr>)
                      else Some (s\<lparr>trips := (if late then trips s @ [WorkerStall (wi_partition w) (wi_offset w)]
                                              else trips s),
                                   sender := Trying w1\<rparr>))
              | None \<Rightarrow>
                  (let (x, s1) = BorrowWorker i s;
                       sh1 = shards s1 i;
                       ws = AList.update (wi_key w) x (workers sh1)
                   in Some (s1\<lparr>wk := (wk s1)(x := (wk s1 x)\<lparr>IsActive := True\<rparr>),
                               shards := (shards s1)(i := sh1\<lparr>workers := ws, activeCount := length ws\<rparr>),
                               sender := Handing w x\<rparr>)))
      | _ \<Rightarrow> None)"

text \<open>The send to a freshly borrowed worker, after the mutex is released.\<close>

definition handOver :: "DemuxConfig \<Rightarrow> 'a demux \<Rightarrow> 'a demux option" where
  "handOver c s =
     (case sender s of
        Handing w x \<Rightarrow>
          if length (workItems (wk s x)) < nat (PerKeyBufferLen c)
          then Some (s\<lparr>wk := (wk s)(x := (wk s x)\<lparr>workItems := workItems (wk s x) @ [w]\<rparr>),
                       accepted := accepted s @ [w], sender := Polling\<rparr>)
          else None
      | _ \<Rightarrow> None)"

text \<open>Taking a token back; a receive from an empty guard channel blocks.\<close>

definition takeToken :: "bool \<Rightarrow> 'a demux \<Rightarrow> 'a demux option" where
  "takeToken ov s =
     (if ov then
        (if overflowLen s > 0 then Some (s\<lparr>overflowLen := overflowLen s - 1\<rparr>)
         else if overflowOthers s > 0 then Some (s\<lparr>overflowOthers := overflowOthers s - 1\<rparr>)
         else None)
      else if guardLen s > 0 then Some (s\<lparr>guardLen := guardLen s - 1\<rparr>) else None)"

definition releaseToken :: "'a demux \<Rightarrow> 'a demux option" where
  "releaseToken s =
     (case sender s of
        Releasing ov \<Rightarrow> map_option (\<lambda>s1. s1\<lparr>sender := Polling\<rparr>) (takeToken ov s)
      | _ \<Rightarrow> None)"

section \<open>The worker goroutine\<close>

definition setWorker :: "nat \<Rightarrow> 'a worker \<Rightarrow> 'a demux \<Rightarrow> 'a demux" where
  "setWorker x v s = s\<lparr>wk := (wk s)(x := v)\<rparr>"

text \<open>
  A receive, at the cold or the hot select, and the check of the shard's flag with which
  \<open>processWorkItem\<close> starts.
\<close>

definition receiveItem :: "nexus \<Rightarrow> nat \<Rightarrow> 'a demux \<Rightarrow> 'a demux option" where
  "receiveItem nx x s =
     (let v = wk s x in
      case workItems v of
        [] \<Rightarrow> None
      | w # ws \<Rightarrow>
          (let next_phase = (if done_flag (shards s (workerShard v)) then Hot else Processing w) in
           case wphase v of
             Cold \<Rightarrow> Some (setWorker x (v\<lparr>workItems := ws, wphase := next_phase, partitionKey := wi_key w,
                              usedOverflow := usesOverflow nx w\<rparr>) (s\<lparr>taken := taken s @ [w]\<rparr>))
           | Hot \<Rightarrow> Some (setWorker x (v\<lparr>workItems := ws, wphase := next_phase\<rparr>) (s\<lparr>taken := taken s @ [w]\<rparr>))
           | _ \<Rightarrow> None))"

definition exitWorker :: "nat \<Rightarrow> 'a demux \<Rightarrow> 'a demux option" where
  "exitWorker x s =
     (let v = wk s x in
      if wphase v = Cold \<and> shutdown v then Some (setWorker x (v\<lparr>wphase := Exited\<rparr>) s) else None)"

record call_times =
  ct_start :: time
  ct_finish :: time
  ct_now :: time

text \<open>The end of \<open>processWorkItem\<close>, with the results of the host application's callbacks.\<close>

definition finishItem ::
  "nexus \<Rightarrow> call_times \<Rightarrow> call_result \<Rightarrow> call_result \<Rightarrow> nat \<Rightarrow> 'a demux \<Rightarrow> 'a demux option" where
  "finishItem nx ct r sink x s =
     (let v = wk s x in
      case wphase v of
        Processing w \<Rightarrow>
          (let s1 = setWorker x (v\<lparr>wphase := Hot\<rparr>) s in
           case processWorkItem nx False (ct_start ct) (ct_finish ct) r (ct_now ct) sink w of
             Committed w1 \<Rightarrow> Some (s1\<lparr>handed := handed s @ [w1]\<rparr>)
           | Tripped (p, k, e) \<Rightarrow> Some (s1\<lparr>trips := trips s @ [DeadLetterUnwritable p k e]\<rparr>)
           | Skipped \<Rightarrow> Some s1)
      | _ \<Rightarrow> None)"

text \<open>The default case of the hot select, taken when the channel is empty.\<close>

definition fallThrough :: "nat \<Rightarrow> 'a demux \<Rightarrow> 'a demux option" where
  "fallThrough x s =
     (let v = wk s x in
      if wphase v = Hot \<and> workItems v = [] then Some (setWorker x (v\<lparr>wphase := FellThrough\<rparr>) s) else None)"

text \<open>The critical section after it: the channel is looked at again under the mutex.\<close>

definition retireWorker :: "nat \<Rightarrow> 'a demux \<Rightarrow> 'a demux option" where
  "retireWorker x s =
     (let v = wk s x; i = workerShard v; sh = shards s i in
      if wphase v \<noteq> FellThrough then None
      else if length (workItems v) = 0 then
        (let ws = AList.delete (partitionKey v) (workers sh) in
         Some (setWorker x (v\<lparr>wphase := Retiring, IsActive := False\<rparr>)
           (s\<lparr>shards := (shards s)(i := sh\<lparr>workers := ws, activeCount := length ws\<rparr>)\<rparr>)))
      else Some (setWorker x (v\<lparr>wphase := Hot\<rparr>) s))"

definition freeToken :: "nat \<Rightarrow> 'a demux \<Rightarrow> 'a demux option" where
  "freeToken x s =
     (let v = wk s x in
      if wphase v \<noteq> Retiring then None
      else map_option (setWorker x (v\<lparr>wphase := Returning, partitionKey := ''''\<rparr>)) (takeToken (usedOverflow v) s))"

definition returnSelf :: "DemuxConfig \<Rightarrow> nat \<Rightarrow> nat \<Rightarrow> 'a demux \<Rightarrow> 'a demux option" where
  "returnSelf c overflowCap x s =
     (let v = wk s x in
      if wphase v \<noteq> Returning then None
      else Some (ReturnWorker (poolSize c overflowCap) (workerShard v) x (setWorker x (v\<lparr>wphase := Cold\<rparr>) s)))"

section \<open>Steps\<close>

datatype 'a event =
    Poll "'a work_item" | Wake wake | TrySend bool | HandOver | Release
  | Receive nat | Finish nat call_times call_result call_result | FallThrough nat | Retire nat
  | FreeToken nat | ReturnSelf nat | Exit nat
  | Prune nat | ContextDone nat | OthersTake | OthersGive

definition demuxStep :: "nexus \<Rightarrow> DemuxConfig \<Rightarrow> nat \<Rightarrow> 'a event \<Rightarrow> 'a demux \<Rightarrow> 'a demux option" where
  "demuxStep nx c overflowCap e s =
     (case e of
        Poll w \<Rightarrow> Process c w s
      | Wake how \<Rightarrow> awaitGuard nx c overflowCap how s
      | TrySend late \<Rightarrow> SendToWorkerForProcessing nx c late s
      | HandOver \<Rightarrow> handOver c s
      | Release \<Rightarrow> releaseToken s
      | Receive x \<Rightarrow> receiveItem nx x s
      | Finish x ct r sink \<Rightarrow> finishItem nx ct r sink x s
      | FallThrough x \<Rightarrow> fallThrough x s
      | Retire x \<Rightarrow> retireWorker x s
      | FreeToken x \<Rightarrow> freeToken x s
      | ReturnSelf x \<Rightarrow> returnSelf c overflowCap x s
      | Exit x \<Rightarrow> exitWorker x s
      | Prune i \<Rightarrow> Some (pruneIdleWorkers (nat (CalcMinimumIdleWorkers c)) i s)
      | ContextDone i \<Rightarrow> Some (s\<lparr>shards := (shards s)(i := (shards s i)\<lparr>done_flag := True\<rparr>)\<rparr>)
      | OthersTake \<Rightarrow> if overflowLen s + overflowOthers s < overflowCap
                      then Some (s\<lparr>overflowOthers := overflowOthers s + 1\<rparr>) else None
      | OthersGive \<Rightarrow> if overflowOthers s > 0
                      then Some (s\<lparr>overflowOthers := overflowOthers s - 1\<rparr>) else None)"

fun demuxRun :: "nexus \<Rightarrow> DemuxConfig \<Rightarrow> nat \<Rightarrow> 'a event list \<Rightarrow> 'a demux \<Rightarrow> 'a demux option" where
  "demuxRun nx c overflowCap [] s = Some s"
| "demuxRun nx c overflowCap (e # es) s =
     (case demuxStep nx c overflowCap e s of
        None \<Rightarrow> None
      | Some s1 \<Rightarrow> demuxRun nx c overflowCap es s1)"

end
