(* ===== verification/Demux_Order.thy ===== *)
theory Demux_Order
  imports Demux_Pipeline
begin

text \<open>
  The invariant of the fan-out. Whatever the interleaving, a key has at most one worker and
  a worker at most one key, a pooled or retiring worker holds nothing, the guard channels
  hold one token per busy worker, and the items of a key leave the channels in the order in
  which they entered.
\<close>

section \<open>Who owns what\<close>

definition owner :: "DemuxConfig \<Rightarrow> 'a demux \<Rightarrow> string \<Rightarrow> nat option" where
  "owner c s k = map_of (workers (shards s (shardOf c k))) k"

definition serves :: "'a sender \<Rightarrow> string \<Rightarrow> nat \<Rightarrow> 'a worker \<Rightarrow> bool" where
  "serves sd k x v \<longleftrightarrow> \<not> shutdown v \<and> IsActive v \<and> (\<forall>w \<in> set (workItems v). wi_key w = k) \<and>
     (case wphase v of
        Cold \<Rightarrow> workItems v \<noteq> [] \<or> (\<exists>w. sd = Handing w x \<and> wi_key w = k)
      | Processing w \<Rightarrow> wi_key w = k \<and> partitionKey v = k
      | Hot \<Rightarrow> partitionKey v = k
      | FellThrough \<Rightarrow> partitionKey v = k
      | _ \<Rightarrow> False)"

definition rests :: "'a worker \<Rightarrow> bool" where
  "rests v \<longleftrightarrow> workItems v = [] \<and>
     (case wphase v of Cold \<Rightarrow> True | Retiring \<Rightarrow> \<not> shutdown v | Returning \<Rightarrow> \<not> shutdown v
      | Exited \<Rightarrow> True | _ \<Rightarrow> False)"

definition pooled :: "(string \<Rightarrow> nat option) \<Rightarrow> (nat \<Rightarrow> 'a worker) \<Rightarrow> nat \<Rightarrow> nat \<Rightarrow> nat \<Rightarrow> bool" where
  "pooled own wkr n i x \<longleftrightarrow> x < n \<and> x \<notin> ran own \<and> wphase (wkr x) = Cold \<and> \<not> shutdown (wkr x) \<and>
     workerShard (wkr x) = i"

definition linked ::
  "(string \<Rightarrow> nat) \<Rightarrow> (string \<Rightarrow> nat option) \<Rightarrow> (nat \<Rightarrow> 'a worker) \<Rightarrow> (nat \<Rightarrow> nat list) \<Rightarrow> 'a sender \<Rightarrow> nat \<Rightarrow> bool"
where
  "linked sh own wkr pool sd n \<longleftrightarrow>
     (\<forall>k x. own k = Some x \<longrightarrow> x < n \<and> workerShard (wkr x) = sh k \<and> serves sd k x (wkr x)) \<and>
     (\<forall>k k' x. own k = Some x \<longrightarrow> own k' = Some x \<longrightarrow> k = k') \<and>
     (\<forall>x. x \<notin> ran own \<longrightarrow> rests (wkr x)) \<and>
     (\<forall>i. distinct (pool i) \<and> (\<forall>x \<in> set (pool i). pooled own wkr n i x)) \<and>
     (\<forall>w x. sd = Handing w x \<longrightarrow> own (wi_key w) = Some x \<and> wphase (wkr x) = Cold \<and> workItems (wkr x) = [])"

lemma linkedD:
  assumes "linked sh own wkr pool sd n"
  shows "own k = Some x \<Longrightarrow> x < n" "own k = Some x \<Longrightarrow> workerShard (wkr x) = sh k"
    "own k = Some x \<Longrightarrow> serves sd k x (wkr x)" "own k = Some x \<Longrightarrow> own k' = Some x \<Longrightarrow> k = k'"
    "x \<notin> ran own \<Longrightarrow> rests (wkr x)" "distinct (pool i)" "x \<in> set (pool i) \<Longrightarrow> pooled own wkr n i x"
    "sd = Handing w x \<Longrightarrow> own (wi_key w) = Some x" "sd = Handing w x \<Longrightarrow> wphase (wkr x) = Cold"
    "sd = Handing w x \<Longrightarrow> workItems (wkr x) = []"
  using assms by (simp_all add: linked_def)

lemma serves_phase: "serves sd k x v \<Longrightarrow> \<not> shutdown v" "serves sd k x v \<Longrightarrow> IsActive v"
  "serves sd k x v \<Longrightarrow> w \<in> set (workItems v) \<Longrightarrow> wi_key w = k"
  "serves sd k x v \<Longrightarrow> wphase v \<noteq> Retiring" "serves sd k x v \<Longrightarrow> wphase v \<noteq> Returning"
  "serves sd k x v \<Longrightarrow> wphase v \<noteq> Exited"
  by (auto simp: serves_def)

lemma ranD: "x \<in> ran m \<Longrightarrow> \<exists>k. m k = Some x"
  by (auto simp: ran_def)

lemma not_ran: "x \<notin> ran m \<Longrightarrow> m k \<noteq> Some x"
  by (auto simp: ran_def)

lemma linkedI:
  assumes "\<And>k x. own k = Some x \<Longrightarrow> x < n \<and> workerShard (wkr x) = sh k \<and> serves sd k x (wkr x)"
    and "\<And>k k' x. own k = Some x \<Longrightarrow> own k' = Some x \<Longrightarrow> k = k'"
    and "\<And>x. x \<notin> ran own \<Longrightarrow> rests (wkr x)"
    and "\<And>i. distinct (pool i)" "\<And>i x. x \<in> set (pool i) \<Longrightarrow> pooled own wkr n i x"
    and "\<And>w x. sd = Handing w x \<Longrightarrow> own (wi_key w) = Some x \<and> wphase (wkr x) = Cold \<and> workItems (wkr x) = []"
  shows "linked sh own wkr pool sd n"
  unfolding linked_def by (intro conjI allI impI ballI assms) (simp_all add: assms)

lemma pooled_cong:
  "x \<noteq> y \<Longrightarrow> pooled own wkr n i x \<Longrightarrow> pooled own (wkr(y := v)) n i x"
  by (simp add: pooled_def)

text \<open>A busy worker changes and still serves its key.\<close>

lemma linked_serve:
  assumes l: "linked sh own wkr pool sd n" and x: "own k = Some x"
    and v: "workerShard v = workerShard (wkr x)" "serves sd k x v"
    and sd: "\<And>w. sd = Handing w x \<Longrightarrow> wphase v = Cold \<and> workItems v = []"
  shows "linked sh own (wkr(x := v)) pool sd n"
proof (rule linkedI)
  have k: "own k' = Some x \<Longrightarrow> k' = k" for k' using linkedD(4) [OF l] x by blast
  show "y < n \<and> workerShard ((wkr(x := v)) y) = sh k' \<and> serves sd k' y ((wkr(x := v)) y)"
    if "own k' = Some y" for k' y
    using linkedD(1-3) [OF l that] v k that by (cases "y = x") auto
  have ran: "x \<in> ran own" using x by (rule ranI)
  show "rests ((wkr(x := v)) y)" if "y \<notin> ran own" for y
    using linkedD(5) [OF l that] ran that by (cases "y = x") auto
  show "pooled own (wkr(x := v)) n i y" if "y \<in> set (pool i)" for i y
    using linkedD(7) [OF l that] ran by (intro pooled_cong) (auto simp: pooled_def)
  show "own (wi_key w) = Some y \<and> wphase ((wkr(x := v)) y) = Cold \<and> workItems ((wkr(x := v)) y) = []"
    if "sd = Handing w y" for w y
    using linkedD(8-10) [OF l that] sd that by (cases "y = x") auto
qed (use linkedD(4,6) [OF l] in blast)+

text \<open>A worker without a key changes, outside the pools.\<close>

lemma linked_rest:
  assumes l: "linked sh own wkr pool sd n" and x: "x \<notin> ran own" "rests v" "\<And>i. x \<notin> set (pool i)"
  shows "linked sh own (wkr(x := v)) pool sd n"
proof (rule linkedI)
  have no: "own k \<noteq> Some x" for k using x(1) by (rule not_ran)
  show "y < n \<and> workerShard ((wkr(x := v)) y) = sh k' \<and> serves sd k' y ((wkr(x := v)) y)"
    if "own k' = Some y" for k' y
    using linkedD(1-3) [OF l that] no that by (cases "y = x") auto
  show "rests ((wkr(x := v)) y)" if "y \<notin> ran own" for y
    using linkedD(5) [OF l that] x(2) by (cases "y = x") auto
  show "pooled own (wkr(x := v)) n i y" if "y \<in> set (pool i)" for i y
    using linkedD(7) [OF l that] x(3) that by (intro pooled_cong) auto
  show "own (wi_key w) = Some y \<and> wphase ((wkr(x := v)) y) = Cold \<and> workItems ((wkr(x := v)) y) = []"
    if "sd = Handing w y" for w y
    using linkedD(8-10) [OF l that] no by (cases "y = x") auto
qed (use linkedD(4,6) [OF l] in blast)+

lemma serves_sd:
  "(\<And>w x. sd \<noteq> Handing w x) \<Longrightarrow> serves sd k x v \<Longrightarrow> serves sd' k x v"
  by (auto simp: serves_def split: phase.splits)

lemma linked_sd:
  assumes "linked sh own wkr pool sd n" "\<And>w x. sd \<noteq> Handing w x" "\<And>w x. sd' \<noteq> Handing w x"
  shows "linked sh own wkr pool sd' n"
  using assms serves_sd [OF assms(2)] unfolding linked_def by auto

lemma linked_pool:
  assumes "linked sh own wkr pool sd n" "\<And>i. distinct (pool' i)" "\<And>i. set (pool' i) \<subseteq> set (pool i)"
  shows "linked sh own wkr pool' sd n"
  using assms unfolding linked_def by blast

lemma linked_pool_add:
  assumes "linked sh own wkr pool sd n" "pooled own wkr n i x" "x \<notin> set (pool i)"
  shows "linked sh own wkr (pool(i := pool i @ [x])) sd n"
  using assms unfolding linked_def by auto

lemma linked_new:
  assumes "linked sh own wkr pool sd n"
  shows "linked sh own (wkr(n := NewWorker i)) pool sd (Suc n)"
proof -
  have "n \<notin> ran own" using linkedD(1) [OF assms] by (auto simp: ran_def)
  moreover have "n \<notin> set (pool j)" for j using linkedD(7) [OF assms] by (auto simp: pooled_def)
  ultimately have "linked sh own (wkr(n := NewWorker i)) pool sd n"
    using assms by (intro linked_rest) (simp_all add: rests_def NewWorker_def)
  then show ?thesis unfolding linked_def pooled_def by (auto simp: less_Suc_eq)
qed

text \<open>The send to a borrowed worker.\<close>

lemma linked_handover:
  assumes l: "linked sh own wkr pool (Handing w x) n"
  shows "linked sh own (wkr(x := (wkr x)\<lparr>workItems := workItems (wkr x) @ [w]\<rparr>)) pool Polling n"
proof (rule linkedI)
  let ?v = "(wkr x)\<lparr>workItems := workItems (wkr x) @ [w]\<rparr>"
  have x: "own (wi_key w) = Some x" "wphase (wkr x) = Cold" "workItems (wkr x) = []"
    using linkedD(8-10) [OF l] by simp_all
  have ran: "x \<in> ran own" using x(1) by (rule ranI)
  show "y < n \<and> workerShard ((wkr(x := ?v)) y) = sh k \<and> serves Polling k y ((wkr(x := ?v)) y)"
    if "own k = Some y" for k y
  proof (cases "y = x")
    case True
    then have "k = wi_key w" using linkedD(4) [OF l] that x(1) by blast
    with True linkedD(1-3) [OF l x(1)] x(2,3) show ?thesis by (simp add: serves_def)
  next
    case False
    with linkedD(1-3) [OF l that] show ?thesis by (auto simp: serves_def split: phase.splits)
  qed
  show "rests ((wkr(x := ?v)) y)" if "y \<notin> ran own" for y
    using linkedD(5) [OF l that] ran that by (cases "y = x") auto
  show "pooled own (wkr(x := ?v)) n i y" if "y \<in> set (pool i)" for i y
    using linkedD(7) [OF l that] ran by (intro pooled_cong) (auto simp: pooled_def)
qed (use linkedD(4,6) [OF l] in \<open>blast+ | simp\<close>)+

text \<open>A borrowed worker is given a key that had none.\<close>

lemma linked_borrow:
  assumes l: "linked sh own wkr pool sd n" and sd: "\<And>w x. sd \<noteq> Handing w x"
    and x: "pooled own wkr n (sh (wi_key w)) x" "\<And>i. x \<notin> set (pool i)" and k: "own (wi_key w) = None"
  shows "linked sh (own(wi_key w \<mapsto> x)) (wkr(x := (wkr x)\<lparr>IsActive := True\<rparr>)) pool (Handing w x) n"
proof (rule linkedI)
  let ?v = "(wkr x)\<lparr>IsActive := True\<rparr>"
  have x': "x < n" "x \<notin> ran own" "wphase (wkr x) = Cold" "\<not> shutdown (wkr x)" "workerShard (wkr x) = sh (wi_key w)"
    using x(1) by (auto simp: pooled_def)
  have no: "own k' \<noteq> Some x" for k' using x'(2) by (rule not_ran)
  have r: "workItems (wkr x) = []" using linkedD(5) [OF l x'(2)] by (simp add: rests_def)
  show "y < n \<and> workerShard ((wkr(x := ?v)) y) = sh k' \<and> serves (Handing w x) k' y ((wkr(x := ?v)) y)"
    if "(own(wi_key w \<mapsto> x)) k' = Some y" for k' y
  proof (cases "k' = wi_key w")
    case True
    with that x' r show ?thesis by (auto simp: serves_def)
  next
    case False
    with that have o: "own k' = Some y" by simp
    with no have "y \<noteq> x" by blast
    with linkedD(1-3) [OF l o] serves_sd [OF sd, of k' y] show ?thesis by auto
  qed
  show "k1 = k2" if "(own(wi_key w \<mapsto> x)) k1 = Some y" "(own(wi_key w \<mapsto> x)) k2 = Some y" for k1 k2 y
    using that no linkedD(4) [OF l, of k1 y k2] by (auto split: if_splits)
  have ran: "ran (own(wi_key w \<mapsto> x)) = insert x (ran own)" using k by (rule ran_map_upd)
  show "rests ((wkr(x := ?v)) y)" if "y \<notin> ran (own(wi_key w \<mapsto> x))" for y
    using linkedD(5) [OF l, of y] that unfolding ran by auto
  show "pooled (own(wi_key w \<mapsto> x)) (wkr(x := ?v)) n i y" if "y \<in> set (pool i)" for i y
    using linkedD(7) [OF l that] that x(2) [of i] unfolding pooled_def ran by auto
  show "(own(wi_key w \<mapsto> x)) (wi_key w') = Some y \<and> wphase ((wkr(x := ?v)) y) = Cold \<and>
      workItems ((wkr(x := ?v)) y) = []" if "Handing w x = Handing w' y" for w' y
    using that x'(3) r by auto
qed (use linkedD(6) [OF l] in blast)

text \<open>A worker with an empty channel gives up its key.\<close>

lemma linked_retire:
  assumes l: "linked sh own wkr pool sd n" and x: "own k = Some x" "wphase (wkr x) = FellThrough"
    "workItems (wkr x) = []"
  shows "linked sh (own(k := None)) (wkr(x := (wkr x)\<lparr>wphase := Retiring, IsActive := False\<rparr>)) pool sd n"
proof (rule linkedI)
  let ?v = "(wkr x)\<lparr>wphase := Retiring, IsActive := False\<rparr>"
  have once: "own k' = Some x \<Longrightarrow> k' = k" for k' using linkedD(4) [OF l] x(1) by blast
  have sub: "y = x \<or> y \<notin> ran own" if "y \<notin> ran (own(k := None))" for y
  proof (rule ccontr)
    assume "\<not> (y = x \<or> y \<notin> ran own)"
    then obtain k' where "own k' = Some y" "y \<noteq> x" using ranD by fastforce
    moreover from this x(1) have "k' \<noteq> k" by auto
    ultimately have "(own(k := None)) k' = Some y" by simp
    then have "y \<in> ran (own(k := None))" by (rule ranI)
    with that show False ..
  qed
  show "y < n \<and> workerShard ((wkr(x := ?v)) y) = sh k' \<and> serves sd k' y ((wkr(x := ?v)) y)"
    if "(own(k := None)) k' = Some y" for k' y
  proof -
    from that have o: "own k' = Some y" "k' \<noteq> k" by (auto split: if_splits)
    then have "y \<noteq> x" using once by blast
    with linkedD(1-3) [OF l o(1)] show ?thesis by simp
  qed
  show "k1 = k2" if "(own(k := None)) k1 = Some y" "(own(k := None)) k2 = Some y" for k1 k2 y
    using that linkedD(4) [OF l, of k1 y k2] by (auto split: if_splits)
  show "rests ((wkr(x := ?v)) y)" if "y \<notin> ran (own(k := None))" for y
    using sub [OF that] linkedD(5) [OF l, of y] x(3) linkedD(3) [OF l x(1)]
    by (cases "y = x") (auto simp: rests_def serves_def)
  have ran: "x \<in> ran own" using x(1) by (rule ranI)
  show "pooled (own(k := None)) (wkr(x := ?v)) n i y" if "y \<in> set (pool i)" for i y
    using linkedD(7) [OF l that] ran by (auto simp: pooled_def ran_def)
  show "(own(k := None)) (wi_key w) = Some y \<and> wphase ((wkr(x := ?v)) y) = Cold \<and> workItems ((wkr(x := ?v)) y) = []"
    if "sd = Handing w y" for w y
  proof -
    have o: "own (wi_key w) = Some y" "wphase (wkr y) = Cold" "workItems (wkr y) = []" using linkedD(8-10) [OF l that] .
    with x(2) have "y \<noteq> x" by auto
    moreover from this o(1) x(1) have "wi_key w \<noteq> k" by auto
    ultimately show ?thesis using o by simp
  qed
qed (use linkedD(6) [OF l] in blast)

section \<open>Order, tokens, bookkeeping\<close>

definition keyed :: "string \<Rightarrow> 'a work_item list \<Rightarrow> 'a work_item list" where
  "keyed k ws = filter (\<lambda>w. wi_key w = k) ws"

definition waitingFor :: "(string \<Rightarrow> nat option) \<Rightarrow> (nat \<Rightarrow> 'a worker) \<Rightarrow> string \<Rightarrow> 'a work_item list" where
  "waitingFor own wkr k = (case own k of None \<Rightarrow> [] | Some x \<Rightarrow> workItems (wkr x))"

text \<open>What entered the channels of a key is what left them, then what waits.\<close>

definition fifo :: "DemuxConfig \<Rightarrow> 'a demux \<Rightarrow> bool" where
  "fifo c s \<longleftrightarrow> (\<forall>k. keyed k (accepted s) = keyed k (taken s) @ waitingFor (owner c s) (wk s) k)"

text \<open>The tokens of one kind that a worker and the polling goroutine account for.\<close>

definition workerToken :: "nexus \<Rightarrow> bool \<Rightarrow> 'a worker \<Rightarrow> nat" where
  "workerToken nx ov v =
     (case wphase v of
        Cold \<Rightarrow> (case workItems v of [] \<Rightarrow> 0 | w # _ \<Rightarrow> of_bool (usesOverflow nx w = ov))
      | Returning \<Rightarrow> 0
      | Exited \<Rightarrow> 0
      | _ \<Rightarrow> of_bool (usedOverflow v = ov))"

definition senderToken :: "nexus \<Rightarrow> bool \<Rightarrow> 'a sender \<Rightarrow> nat" where
  "senderToken nx ov sd =
     (case sd of
        Trying w \<Rightarrow> of_bool (usesOverflow nx w = ov)
      | Handing w _ \<Rightarrow> of_bool (usesOverflow nx w = ov)
      | Releasing b \<Rightarrow> of_bool (b = ov)
      | _ \<Rightarrow> 0)"

definition tokensOut :: "nexus \<Rightarrow> bool \<Rightarrow> 'a demux \<Rightarrow> nat" where
  "tokensOut nx ov s = (\<Sum>x < fresh s. workerToken nx ov (wk s x)) + senderToken nx ov (sender s)"

definition tokens :: "nexus \<Rightarrow> DemuxConfig \<Rightarrow> nat \<Rightarrow> 'a demux \<Rightarrow> bool" where
  "tokens nx c overflowCap s \<longleftrightarrow> guardLen s = tokensOut nx False s \<and> overflowLen s = tokensOut nx True s \<and>
     guardLen s \<le> nat (ConcurrentKeys c) \<and> overflowLen s + overflowOthers s \<le> overflowCap \<and>
     (\<forall>w. sender s = Waiting w \<longrightarrow> \<not> usesOverflow nx w)"

definition unborn :: "'a demux \<Rightarrow> bool" where
  "unborn s \<longleftrightarrow> (\<forall>x \<ge> fresh s. wphase (wk s x) = Cold \<and> \<not> shutdown (wk s x))"

definition shard_ok :: "DemuxConfig \<Rightarrow> nat \<Rightarrow> worker_shard \<Rightarrow> bool" where
  "shard_ok c i sh \<longleftrightarrow> activeCount sh = length (workers sh) \<and> distinct (map fst (workers sh)) \<and>
     (\<forall>k \<in> fst ` set (workers sh). shardOf c k = i)"

definition demux_inv :: "nexus \<Rightarrow> DemuxConfig \<Rightarrow> nat \<Rightarrow> 'a demux \<Rightarrow> bool" where
  "demux_inv nx c overflowCap s \<longleftrightarrow>
     linked (shardOf c) (owner c s) (wk s) (\<lambda>i. workerPool (shards s i)) (sender s) (fresh s) \<and>
     fifo c s \<and> tokens nx c overflowCap s \<and> unborn s \<and> (\<forall>i. shard_ok c i (shards s i))"

lemma demux_invD:
  assumes "demux_inv nx c overflowCap s"
  shows "linked (shardOf c) (owner c s) (wk s) (\<lambda>i. workerPool (shards s i)) (sender s) (fresh s)"
    "fifo c s" "tokens nx c overflowCap s" "unborn s" "shard_ok c i (shards s i)"
  using assms by (simp_all add: demux_inv_def)

lemma sum_upd:
  fixes f :: "'b \<Rightarrow> nat" and n :: nat
  assumes "x < n"
  shows "(\<Sum>i < n. f ((g(x := v)) i)) + f (g x) = (\<Sum>i < n. f (g i)) + f v"
proof -
  have "(\<Sum>i < n. f ((g(x := v)) i)) = f v + (\<Sum>i \<in> {..<n} - {x}. f (g i))"
    using assms by (subst sum.remove [of _ x]) auto
  moreover have "(\<Sum>i < n. f (g i)) = f (g x) + (\<Sum>i \<in> {..<n} - {x}. f (g i))"
    using assms by (subst sum.remove [of _ x]) auto
  ultimately show ?thesis by simp
qed

lemma waitingFor_same: "workItems v = workItems (wkr x) \<Longrightarrow> waitingFor own (wkr(x := v)) k = waitingFor own wkr k"
  by (simp add: waitingFor_def split: option.split)

lemma waitingFor_owned:
  assumes "linked sh own wkr pool sd n" "own k = Some x"
  shows "waitingFor own (wkr(x := v)) k' = (if k' = k then workItems v else waitingFor own wkr k')"
proof (cases "k' = k")
  case False
  then have "own k' \<noteq> Some x" using linkedD(4) [OF assms] by blast
  with False show ?thesis by (simp add: waitingFor_def split: option.split)
qed (simp add: waitingFor_def assms(2))

lemma waitingFor_drop:
  "own k = Some x \<Longrightarrow> workItems (wkr x) = [] \<Longrightarrow> waitingFor (own(k := None)) wkr k' = waitingFor own wkr k'"
  by (simp add: waitingFor_def)

lemma owner_cong [simp]:
  "owner c (s\<lparr>wk := a\<rparr>) = owner c s" "owner c (s\<lparr>sender := b\<rparr>) = owner c s" "owner c (s\<lparr>accepted := d\<rparr>) = owner c s"
  "owner c (s\<lparr>taken := d\<rparr>) = owner c s" "owner c (s\<lparr>handed := d\<rparr>) = owner c s" "owner c (s\<lparr>trips := e\<rparr>) = owner c s"
  "owner c (s\<lparr>guardLen := m\<rparr>) = owner c s" "owner c (s\<lparr>overflowLen := m\<rparr>) = owner c s"
  "owner c (s\<lparr>overflowOthers := m\<rparr>) = owner c s" "owner c (s\<lparr>fresh := m\<rparr>) = owner c s"
  "owner c (s\<lparr>shards := (shards s)(i := (shards s i)\<lparr>workerPool := p\<rparr>)\<rparr>) = owner c s"
  "owner c (s\<lparr>shards := (shards s)(i := (shards s i)\<lparr>prevLen := q\<rparr>)\<rparr>) = owner c s"
  "owner c (s\<lparr>shards := (shards s)(i := (shards s i)\<lparr>done_flag := f\<rparr>)\<rparr>) = owner c s"
  by (auto simp: owner_def fun_eq_iff)

section \<open>Steps of one worker\<close>

lemma inv_worker_serve:
  assumes inv: "demux_inv nx c overflowCap s" and x: "owner c s k = Some x"
    and v: "workerShard v = workerShard (wk s x)" "serves (sender s) k x v" "workItems v = workItems (wk s x)"
      "\<And>ov. workerToken nx ov v = workerToken nx ov (wk s x)" "wphase v \<noteq> Cold"
      "wphase (wk s x) \<noteq> Cold"
  shows "demux_inv nx c overflowCap (setWorker x v s)"
proof -
  note l = demux_invD(1) [OF inv]
  have "sender s \<noteq> Handing w x" for w using linkedD(9) [OF l, of w x] v(6) by auto
  then have "linked (shardOf c) (owner c s) ((wk s)(x := v)) (\<lambda>i. workerPool (shards s i)) (sender s) (fresh s)"
    using v by (intro linked_serve [OF l x]) auto
  moreover have "fifo c (setWorker x v s)"
    using demux_invD(2) [OF inv] v(3) by (simp add: fifo_def setWorker_def waitingFor_same)
  moreover have "tokensOut nx ov (setWorker x v s) = tokensOut nx ov s" for ov
    using v(4) by (auto simp: tokensOut_def setWorker_def intro!: sum.cong)
  then have "tokens nx c overflowCap (setWorker x v s)"
    using demux_invD(3) [OF inv] by (simp add: tokens_def) (simp add: setWorker_def)
  moreover have "unborn (setWorker x v s)"
    using demux_invD(4) [OF inv] linkedD(1) [OF l x] by (simp add: unborn_def setWorker_def)
  ultimately show ?thesis using demux_invD(5) [OF inv] by (simp add: demux_inv_def setWorker_def)
qed

text \<open>A worker that is not resting has a key.\<close>

lemma busy_owned:
  assumes "demux_inv nx c overflowCap s" "\<not> rests (wk s x)"
  obtains k where "owner c s k = Some x" "serves (sender s) k x (wk s x)" "workerShard (wk s x) = shardOf c k" "x < fresh s"
  using linkedD(1,2,3,5) [OF demux_invD(1) [OF assms(1)]] assms(2) ranD by metis

lemma inv_logs [simp]:
  "demux_inv nx c overflowCap (s\<lparr>handed := h\<rparr>) = demux_inv nx c overflowCap s"
  "demux_inv nx c overflowCap (s\<lparr>trips := t\<rparr>) = demux_inv nx c overflowCap s"
  by (simp_all add: demux_inv_def fifo_def tokens_def tokensOut_def unborn_def)

lemma finishItem_inv:
  assumes inv: "demux_inv nx c overflowCap s" and "finishItem nx ct r sink x s = Some s'"
  shows "demux_inv nx c overflowCap s'"
proof -
  let ?v = "(wk s x)\<lparr>wphase := Hot\<rparr>"
  from assms(2) obtain w where w: "wphase (wk s x) = Processing w" by (auto simp: finishItem_def Let_def split: phase.splits)
  then obtain k where k: "owner c s k = Some x" "serves (sender s) k x (wk s x)"
    using busy_owned [OF inv, of x] by (auto simp: rests_def)
  from k(2) w have "demux_inv nx c overflowCap (setWorker x ?v s)"
    by (intro inv_worker_serve [OF inv k(1)]) (auto simp: serves_def workerToken_def)
  with assms(2) w show ?thesis by (auto simp: finishItem_def Let_def split: outcome.splits)
qed

lemma fallThrough_inv:
  assumes inv: "demux_inv nx c overflowCap s" and "fallThrough x s = Some s'"
  shows "demux_inv nx c overflowCap s'"
proof -
  from assms(2) have w: "wphase (wk s x) = Hot" "s' = setWorker x ((wk s x)\<lparr>wphase := FellThrough\<rparr>) s"
    by (auto simp: fallThrough_def Let_def split: if_splits)
  then obtain k where k: "owner c s k = Some x" "serves (sender s) k x (wk s x)"
    using busy_owned [OF inv, of x] by (auto simp: rests_def)
  from k(2) w show ?thesis
    by (auto intro!: inv_worker_serve [OF inv k(1)] simp: serves_def workerToken_def)
qed

lemma tokensOut_upd:
  assumes "x < fresh s"
  shows "tokensOut nx ov (setWorker x v s) + workerToken nx ov (wk s x) = tokensOut nx ov s + workerToken nx ov v"
  using sum_upd [OF assms, of "workerToken nx ov" "wk s" v] by (simp add: tokensOut_def setWorker_def)

lemma tokensOut_cong:
  "wk s' = wk s \<Longrightarrow> fresh s' = fresh s \<Longrightarrow> sender s' = sender s \<Longrightarrow> tokensOut nx ov s' = tokensOut nx ov s"
  by (simp add: tokensOut_def)

lemma receiveItem_cases:
  assumes "receiveItem nx x s = Some s'"
  obtains w ws ph k0 ov where "workItems (wk s x) = w # ws" "ph = Hot \<or> ph = Processing w"
    "s' = setWorker x ((wk s x)\<lparr>workItems := ws, wphase := ph, partitionKey := k0, usedOverflow := ov\<rparr>) (s\<lparr>taken := taken s @ [w]\<rparr>)"
    "wphase (wk s x) = Cold \<and> k0 = wi_key w \<and> ov = usesOverflow nx w \<or>
     wphase (wk s x) = Hot \<and> k0 = partitionKey (wk s x) \<and> ov = usedOverflow (wk s x)"
proof -
  from assms obtain w ws where w: "workItems (wk s x) = w # ws"
    by (auto simp: receiveItem_def Let_def split: list.splits)
  define ph where "ph = (if done_flag (shards s (workerShard (wk s x))) then Hot else Processing w)"
  have ph: "ph = Hot \<or> ph = Processing w" by (simp add: ph_def)
  show ?thesis
  proof (cases "wphase (wk s x)")
    case Cold
    with assms w ph show ?thesis
      by (intro that [of w ws ph "usesOverflow nx w" "wi_key w"]) (simp_all add: receiveItem_def Let_def ph_def [symmetric])
  next
    case Hot
    with assms w ph show ?thesis
      by (intro that [of w ws ph "usedOverflow (wk s x)" "partitionKey (wk s x)"]) (simp_all add: receiveItem_def Let_def ph_def [symmetric])
  qed (use assms w in \<open>simp_all add: receiveItem_def\<close>)
qed

lemma receiveItem_inv:
  assumes inv: "demux_inv nx c overflowCap s" and r: "receiveItem nx x s = Some s'"
  shows "demux_inv nx c overflowCap s'"
  using r
proof (cases rule: receiveItem_cases)
  case (1 w ws ph k0 ov)
  let ?v = "(wk s x)\<lparr>workItems := ws, wphase := ph, partitionKey := k0, usedOverflow := ov\<rparr>"
  note l = demux_invD(1) [OF inv]
  obtain k where k: "owner c s k = Some x" "serves (sender s) k x (wk s x)" "x < fresh s"
    using busy_owned [OF inv, of x] 1(1) by (auto simp: rests_def)
  have wk: "wi_key w = k" "\<forall>w \<in> set ws. wi_key w = k" using serves_phase(3) [OF k(2)] 1(1) by auto
  have sd: "sender s \<noteq> Handing w' x" for w' using linkedD(10) [OF l, of w' x] 1(1) by auto
  have "serves (sender s) k x ?v" using k(2) 1(2,4) wk by (auto simp: serves_def)
  then have "linked (shardOf c) (owner c s) ((wk s)(x := ?v)) (\<lambda>i. workerPool (shards s i)) (sender s) (fresh s)"
    using sd by (intro linked_serve [OF l k(1)]) auto
  moreover have "waitingFor (owner c s) (wk s) k = w # ws" using k(1) 1(1) by (simp add: waitingFor_def)
  then have "fifo c s'"
    using demux_invD(2) [OF inv] wk(1) 1(3) by (auto simp: fifo_def setWorker_def waitingFor_owned [OF l k(1)] keyed_def)
  moreover have tok: "workerToken nx ov' ?v = workerToken nx ov' (wk s x)" for ov'
    using 1(1,2,4) by (auto simp: workerToken_def)
  then have "tokensOut nx ov' s' = tokensOut nx ov' s" for ov'
    using tokensOut_upd [OF k(3), of nx ov' ?v] 1(3) by (simp add: tokensOut_def setWorker_def)
  then have "tokens nx c overflowCap s'"
    using demux_invD(3) [OF inv] 1(3) by (simp add: tokens_def setWorker_def)
  moreover have "unborn s'"
    using demux_invD(4) [OF inv] k(3) 1(3) by (simp add: unborn_def setWorker_def)
  ultimately show ?thesis using demux_invD(5) [OF inv] 1(3) by (simp add: demux_inv_def setWorker_def)
qed

lemma map_of_delete: "map_of (AList.delete k xs) = (map_of xs)(k := None)"
  by (simp add: delete_conv')

lemma retireWorker_inv:
  assumes inv: "demux_inv nx c overflowCap s" and r: "retireWorker x s = Some s'"
  shows "demux_inv nx c overflowCap s'"
proof -
  note l = demux_invD(1) [OF inv]
  from r have ph: "wphase (wk s x) = FellThrough" by (auto simp: retireWorker_def Let_def split: if_splits)
  then obtain k where k: "owner c s k = Some x" "serves (sender s) k x (wk s x)" "workerShard (wk s x) = shardOf c k" "x < fresh s"
    using busy_owned [OF inv, of x] by (auto simp: rests_def)
  have pk: "partitionKey (wk s x) = k" using k(2) ph by (simp add: serves_def)
  show ?thesis
  proof (cases "workItems (wk s x) = []")
    case False
    with r ph k(2) show ?thesis
      by (auto intro!: inv_worker_serve [OF inv k(1)] simp: retireWorker_def serves_def workerToken_def)
  next
    case True
    let ?v = "(wk s x)\<lparr>wphase := Retiring, IsActive := False\<rparr>"
    define i where "i = shardOf c k"
    define ws where "ws = AList.delete k (workers (shards s i))"
    have s': "s' = setWorker x ?v (s\<lparr>shards := (shards s)(i := (shards s i)\<lparr>workers := ws, activeCount := length ws\<rparr>)\<rparr>)"
      using r ph True k(3) pk by (simp add: retireWorker_def ws_def i_def Let_def)
    have own: "owner c s' = (owner c s)(k := None)"
      unfolding s' by (auto simp: owner_def setWorker_def fun_eq_iff ws_def i_def map_of_delete)
    have pool: "(\<lambda>i. workerPool (shards s' i)) = (\<lambda>i. workerPool (shards s i))"
      by (auto simp: s' setWorker_def)
    have "linked (shardOf c) (owner c s') (wk s') (\<lambda>i. workerPool (shards s' i)) (sender s') (fresh s')"
      using linked_retire [OF l k(1) ph True] unfolding own pool by (simp add: s' setWorker_def)
    moreover have "fifo c s'"
      using demux_invD(2) [OF inv] unfolding fifo_def own
      by (simp add: s' setWorker_def waitingFor_same waitingFor_drop [of "owner c s" k x, OF k(1)] True)
    moreover have "tokensOut nx ov s' = tokensOut nx ov s" for ov
    proof -
      have "workerToken nx ov ?v = workerToken nx ov (wk s x)" using ph by (simp add: workerToken_def)
      with tokensOut_upd [OF k(4), of nx ov ?v] show ?thesis by (simp add: s' tokensOut_def setWorker_def)
    qed
    then have "tokens nx c overflowCap s'"
      using demux_invD(3) [OF inv] by (simp add: tokens_def) (simp add: s' setWorker_def)
    moreover have "unborn s'" using demux_invD(4) [OF inv] k(4) by (simp add: unborn_def s' setWorker_def)
    moreover have "shard_ok c j (shards s' j)" for j
      using demux_invD(5) [OF inv, of j] by (auto simp: s' setWorker_def shard_ok_def ws_def AList.delete_eq intro: distinct_map_filter)
    ultimately show ?thesis by (simp add: demux_inv_def)
  qed
qed

text \<open>The tokens are where the counts say, so taking one back never blocks.\<close>

lemma workerToken_pos: "x < fresh s \<Longrightarrow> workerToken nx ov (wk s x) \<le> tokensOut nx ov s"
  unfolding tokensOut_def by (rule trans_le_add1) (rule member_le_sum, auto)

lemma senderToken_pos: "senderToken nx ov (sender s) \<le> tokensOut nx ov s"
  by (simp add: tokensOut_def)

definition dropToken :: "bool \<Rightarrow> 'a demux \<Rightarrow> 'a demux" where
  "dropToken ov s = s\<lparr>guardLen := guardLen s - of_bool (\<not> ov), overflowLen := overflowLen s - of_bool ov\<rparr>"

lemma dropToken_simps [simp]:
  "guardLen (dropToken ov s) = guardLen s - of_bool (\<not> ov)" "overflowLen (dropToken ov s) = overflowLen s - of_bool ov"
  "overflowOthers (dropToken ov s) = overflowOthers s" "shards (dropToken ov s) = shards s" "wk (dropToken ov s) = wk s"
  "fresh (dropToken ov s) = fresh s" "sender (dropToken ov s) = sender s" "accepted (dropToken ov s) = accepted s"
  "taken (dropToken ov s) = taken s" "owner c (dropToken ov s) = owner c s"
  by (simp_all add: dropToken_def)

lemma takeToken_Some:
  assumes "tokens nx c overflowCap s" "0 < tokensOut nx ov s"
  shows "takeToken ov s = Some (dropToken ov s)"
  using assms by (cases ov) (auto simp: tokens_def takeToken_def dropToken_def)

text \<open>A resting worker changes, outside the pools.\<close>

lemma inv_worker_rest:
  assumes inv: "demux_inv nx c overflowCap s" and x: "x \<notin> ran (owner c s)" "rests v" "\<And>i. x \<notin> set (workerPool (shards s i))"
    "x < fresh s" and tok: "\<And>ov. workerToken nx ov v = workerToken nx ov (wk s x)"
  shows "demux_inv nx c overflowCap (setWorker x v s)"
proof -
  note l = demux_invD(1) [OF inv]
  have "workItems v = workItems (wk s x)" using x(2) linkedD(5) [OF l x(1)] by (simp add: rests_def)
  then have "fifo c (setWorker x v s)"
    using demux_invD(2) [OF inv] by (simp add: fifo_def setWorker_def waitingFor_same)
  moreover have "tokensOut nx ov (setWorker x v s) = tokensOut nx ov s" for ov
    using tokensOut_upd [OF x(4), of nx ov v] tok by simp
  then have "tokens nx c overflowCap (setWorker x v s)"
    using demux_invD(3) [OF inv] by (simp add: tokens_def) (simp add: setWorker_def)
  moreover have "unborn (setWorker x v s)" using demux_invD(4) [OF inv] x(4) by (simp add: unborn_def setWorker_def)
  ultimately show ?thesis
    using linked_rest [OF l x(1-3)] demux_invD(5) [OF inv] by (simp add: demux_inv_def setWorker_def)
qed

lemma born: "demux_inv nx c overflowCap s \<Longrightarrow> wphase (wk s x) \<noteq> Cold \<or> shutdown (wk s x) \<Longrightarrow> x < fresh s"
  using demux_invD(4) [of nx c overflowCap s] unfolding unborn_def by (meson not_less)

lemma not_pooled:
  "demux_inv nx c overflowCap s \<Longrightarrow> wphase (wk s x) \<noteq> Cold \<or> shutdown (wk s x) \<Longrightarrow> x \<notin> set (workerPool (shards s i))"
  using linkedD(7) [OF demux_invD(1), of nx c overflowCap s x i] by (auto simp: pooled_def)

lemma rest_unowned:
  assumes "demux_inv nx c overflowCap s" "wphase (wk s x) \<in> {Retiring, Returning, Exited} \<or> shutdown (wk s x)"
  shows "x \<notin> ran (owner c s)"
proof
  assume "x \<in> ran (owner c s)"
  then obtain k where "owner c s k = Some x" using ranD by metis
  from linkedD(3) [OF demux_invD(1) [OF assms(1)] this] assms(2) show False
    by (auto simp: serves_def)
qed

lemma freeToken_inv:
  assumes inv: "demux_inv nx c overflowCap s" and r: "freeToken x s = Some s'"
  shows "demux_inv nx c overflowCap s'"
proof -
  let ?v = "(wk s x)\<lparr>wphase := Returning, partitionKey := ''''\<rparr>"
  note l = demux_invD(1) [OF inv] and t = demux_invD(3) [OF inv]
  from r have ph: "wphase (wk s x) = Retiring" by (auto simp: freeToken_def Let_def split: if_splits)
  define ov where "ov = usedOverflow (wk s x)"
  have x: "x < fresh s" "x \<notin> ran (owner c s)" "\<And>i. x \<notin> set (workerPool (shards s i))"
    using born [OF inv] rest_unowned [OF inv] not_pooled [OF inv] ph by simp_all
  have own: "workerToken nx b (wk s x) = of_bool (b = ov)" "workerToken nx b ?v = 0" for b
    using ph by (auto simp: workerToken_def ov_def)
  have "0 < tokensOut nx ov s" using workerToken_pos [OF x(1), of nx ov] own(1) [of ov] by simp
  from takeToken_Some [OF t this] r ph have s': "s' = setWorker x ?v (dropToken ov s)"
    by (simp add: freeToken_def Let_def ov_def)
  have rst: "rests (wk s x)" by (rule linkedD(5) [OF l x(2)])
  have "linked (shardOf c) (owner c s) ((wk s)(x := ?v)) (\<lambda>i. workerPool (shards s i)) (sender s) (fresh s)"
    using rst x(2,3) ph by (intro linked_rest [OF l]) (simp_all add: rests_def)
  moreover have "tokensOut nx b s' + of_bool (b = ov) = tokensOut nx b s" for b
    using tokensOut_upd [OF x(1), of nx b ?v] own [of b] tokensOut_cong [of s' "setWorker x ?v s" nx b]
    by (simp add: s' setWorker_def)
  then have "tokensOut nx b s' = tokensOut nx b s - of_bool (b = ov)" for b by (metis add_diff_cancel_right')
  then have "tokens nx c overflowCap s'"
    using t by (simp add: tokens_def) (auto simp: s' setWorker_def)
  moreover have "fifo c s'"
    using demux_invD(2) [OF inv] by (simp add: s' fifo_def setWorker_def waitingFor_same)
  moreover have "unborn s'" using demux_invD(4) [OF inv] x(1) by (simp add: s' unborn_def setWorker_def)
  ultimately show ?thesis using demux_invD(5) [OF inv] by (simp add: demux_inv_def s' setWorker_def)
qed

lemma inv_pool:
  assumes inv: "demux_inv nx c overflowCap s" and pool: "distinct p" "\<And>x. x \<in> set p \<Longrightarrow> pooled (owner c s) (wk s) (fresh s) i x"
  shows "demux_inv nx c overflowCap (s\<lparr>shards := (shards s)(i := (shards s i)\<lparr>workerPool := p\<rparr>)\<rparr>)"
proof -
  note l = demux_invD(1) [OF inv]
  let ?s = "s\<lparr>shards := (shards s)(i := (shards s i)\<lparr>workerPool := p\<rparr>)\<rparr>"
  have "linked (shardOf c) (owner c s) (wk s) (\<lambda>j. workerPool (shards ?s j)) (sender s) (fresh s)"
    using l pool unfolding linked_def by auto
  moreover have "shard_ok c j (shards ?s j)" for j using demux_invD(5) [OF inv, of j] by (auto simp: shard_ok_def)
  ultimately show ?thesis
    using demux_invD(2-4) [OF inv] by (simp add: demux_inv_def fifo_def tokens_def tokensOut_def unborn_def)
qed

lemma ReturnWorker_inv:
  assumes inv: "demux_inv nx c overflowCap s" and x: "x < fresh s" "x \<notin> ran (owner c s)" "\<And>j. x \<notin> set (workerPool (shards s j))"
    "wphase (wk s x) = Cold" "\<not> shutdown (wk s x)" "workerShard (wk s x) = i"
  shows "demux_inv nx c overflowCap (ReturnWorker n i x s)"
proof (cases "length (workerPool (shards s i)) < n")
  case True
  then show ?thesis
    using x linkedD(6,7) [OF demux_invD(1) [OF inv]]
    by (auto simp: ReturnWorker_def pooled_def intro!: inv_pool [OF inv])
next
  case False
  have "rests (wk s x)" by (rule linkedD(5) [OF demux_invD(1) [OF inv] x(2)])
  then have "demux_inv nx c overflowCap (setWorker x ((wk s x)\<lparr>shutdown := True\<rparr>) s)"
    using x by (intro inv_worker_rest [OF inv]) (auto simp: rests_def workerToken_def)
  with False show ?thesis by (simp add: ReturnWorker_def setWorker_def)
qed

lemma returnSelf_inv:
  assumes inv: "demux_inv nx c overflowCap s" and r: "returnSelf c n x s = Some s'"
  shows "demux_inv nx c overflowCap s'"
proof -
  let ?v = "(wk s x)\<lparr>wphase := Cold\<rparr>"
  from r have ph: "wphase (wk s x) = Returning"
    and s': "s' = ReturnWorker (poolSize c n) (workerShard (wk s x)) x (setWorker x ?v s)"
    by (auto simp: returnSelf_def Let_def split: if_splits)
  have x: "x < fresh s" "x \<notin> ran (owner c s)" "\<And>i. x \<notin> set (workerPool (shards s i))"
    using born [OF inv] rest_unowned [OF inv] not_pooled [OF inv] ph by simp_all
  have rst: "rests (wk s x)" by (rule linkedD(5) [OF demux_invD(1) [OF inv] x(2)])
  then have "demux_inv nx c overflowCap (setWorker x ?v s)"
    using x ph by (intro inv_worker_rest [OF inv]) (auto simp: rests_def workerToken_def)
  from ReturnWorker_inv [OF this, of x "workerShard (wk s x)" "poolSize c n"] x rst ph show ?thesis
    unfolding s' by (simp add: setWorker_def rests_def)
qed

lemma exitWorker_inv:
  assumes inv: "demux_inv nx c overflowCap s" and r: "exitWorker x s = Some s'"
  shows "demux_inv nx c overflowCap s'"
proof -
  from r have v: "wphase (wk s x) = Cold" "shutdown (wk s x)" and s': "s' = setWorker x ((wk s x)\<lparr>wphase := Exited\<rparr>) s"
    by (auto simp: exitWorker_def Let_def split: if_splits)
  have x: "x < fresh s" "x \<notin> ran (owner c s)" "\<And>i. x \<notin> set (workerPool (shards s i))"
    using born [OF inv] rest_unowned [OF inv] not_pooled [OF inv] v by simp_all
  have rst: "rests (wk s x)" by (rule linkedD(5) [OF demux_invD(1) [OF inv] x(2)])
  with x v show ?thesis
    unfolding s' by (intro inv_worker_rest [OF inv]) (auto simp: rests_def workerToken_def)
qed

lemma inv_shard_flags:
  assumes "demux_inv nx c overflowCap s"
  shows "demux_inv nx c overflowCap (s\<lparr>shards := (shards s)(i := (shards s i)\<lparr>prevLen := q\<rparr>)\<rparr>)"
    "demux_inv nx c overflowCap (s\<lparr>shards := (shards s)(i := (shards s i)\<lparr>done_flag := f\<rparr>)\<rparr>)"
proof -
  have p: "(\<lambda>j. workerPool (((shards s)(i := (shards s i)\<lparr>prevLen := q\<rparr>)) j)) = (\<lambda>j. workerPool (shards s j))"
    "(\<lambda>j. workerPool (((shards s)(i := (shards s i)\<lparr>done_flag := f\<rparr>)) j)) = (\<lambda>j. workerPool (shards s j))" by auto
  have ok: "shard_ok c j (((shards s)(i := (shards s i)\<lparr>prevLen := q\<rparr>)) j)"
    "shard_ok c j (((shards s)(i := (shards s i)\<lparr>done_flag := f\<rparr>)) j)" for j
    using demux_invD(5) [OF assms, of j] by (auto simp: shard_ok_def)
  show "demux_inv nx c overflowCap (s\<lparr>shards := (shards s)(i := (shards s i)\<lparr>prevLen := q\<rparr>)\<rparr>)"
    using demux_invD(1-4) [OF assms] ok(1) unfolding demux_inv_def fifo_def tokens_def tokensOut_def unborn_def
    by (simp add: p del: fun_upd_apply)
  show "demux_inv nx c overflowCap (s\<lparr>shards := (shards s)(i := (shards s i)\<lparr>done_flag := f\<rparr>)\<rparr>)"
    using demux_invD(1-4) [OF assms] ok(2) unfolding demux_inv_def fifo_def tokens_def tokensOut_def unborn_def
    by (simp add: p del: fun_upd_apply)
qed

lemma pool_head:
  assumes inv: "demux_inv nx c overflowCap s" and p: "workerPool (shards s i) = x # xs"
    and s1: "s1 = s\<lparr>shards := (shards s)(i := (shards s i)\<lparr>workerPool := xs\<rparr>)\<rparr>"
  shows "demux_inv nx c overflowCap s1" "pooled (owner c s1) (wk s1) (fresh s1) i x" "x \<notin> set (workerPool (shards s1 j))"
proof -
  note l = demux_invD(1) [OF inv]
  have d: "distinct (x # xs)" using linkedD(6) [OF l, of i] p by simp
  have m: "pooled (owner c s) (wk s) (fresh s) i y" if "y \<in> set (x # xs)" for y
    by (rule linkedD(7) [OF l]) (use p that in simp)
  show "demux_inv nx c overflowCap s1" unfolding s1 using d m by (intro inv_pool [OF inv]) simp_all
  show "pooled (owner c s1) (wk s1) (fresh s1) i x" using m unfolding s1 by simp
  show "x \<notin> set (workerPool (shards s1 j))"
  proof (cases "j = i")
    case True
    with d show ?thesis by (simp add: s1)
  next
    case False
    have "workerShard (wk s x) = i" using m [of x] by (simp add: pooled_def)
    then have "\<not> pooled (owner c s) (wk s) (fresh s) j x" using False by (simp add: pooled_def)
    with linkedD(7) [OF l, of x j] False show ?thesis by (auto simp: s1)
  qed
qed

lemma pruneIdleWorkers_inv:
  assumes inv: "demux_inv nx c overflowCap s"
  shows "demux_inv nx c overflowCap (pruneIdleWorkers n i s)"
proof -
  have "demux_inv nx c overflowCap (s\<lparr>shards := (shards s)(i := (shards s i)\<lparr>workerPool := xs\<rparr>), wk := (wk s)(x := (wk s x)\<lparr>shutdown := True\<rparr>)\<rparr>)"
    if p: "workerPool (shards s i) = x # xs" for x xs
  proof -
    let ?s = "s\<lparr>shards := (shards s)(i := (shards s i)\<lparr>workerPool := xs\<rparr>)\<rparr>"
    note h = pool_head [OF inv p refl]
    have x: "x < fresh ?s" "x \<notin> ran (owner c ?s)" "wphase (wk ?s x) = Cold" using h(2) by (simp_all add: pooled_def)
    have "rests (wk ?s x)" by (rule linkedD(5) [OF demux_invD(1) [OF h(1)] x(2)])
    then have "demux_inv nx c overflowCap (setWorker x ((wk ?s x)\<lparr>shutdown := True\<rparr>) ?s)"
      using x h(3) by (intro inv_worker_rest [OF h(1)]) (auto simp: rests_def workerToken_def)
    then show ?thesis by (simp add: setWorker_def)
  qed
  with inv show ?thesis
    unfolding pruneIdleWorkers_def Let_def by (intro inv_shard_flags) (auto split: list.split)
qed

end
