(* ===== verification/Demux_Fanout.thy ===== *)
theory Demux_Fanout
  imports Demux_Order
begin

text \<open>
  The steps of the polling goroutine keep the invariant of the fan-out, and so does every
  run from a new demux. With it: the order of a key's items, the bound on concurrency, and
  that workers left alone come to rest with everything they accepted processed.
\<close>

section \<open>Steps of the polling goroutine\<close>

lemma inv_sender:
  assumes inv: "demux_inv nx c overflowCap s"
    and sd: "\<And>w x. sender s \<noteq> Handing w x" "\<And>w x. sd \<noteq> Handing w x" "\<And>w. sd = Waiting w \<Longrightarrow> \<not> usesOverflow nx w"
    and g: "g + senderToken nx False (sender s) = guardLen s + senderToken nx False sd" "g \<le> nat (ConcurrentKeys c)"
    and v: "v + senderToken nx True (sender s) = overflowLen s + senderToken nx True sd" "v + overflowOthers s \<le> overflowCap"
  shows "demux_inv nx c overflowCap (s\<lparr>guardLen := g, overflowLen := v, sender := sd\<rparr>)"
proof -
  have "linked (shardOf c) (owner c s) (wk s) (\<lambda>i. workerPool (shards s i)) sd (fresh s)"
    by (rule linked_sd [OF demux_invD(1) [OF inv] sd(1,2)])
  moreover have "tokens nx c overflowCap (s\<lparr>guardLen := g, overflowLen := v, sender := sd\<rparr>)"
    using demux_invD(3) [OF inv] g v sd(3) by (simp add: tokens_def tokensOut_def)
  ultimately show ?thesis
    using demux_invD(2,4,5) [OF inv] by (simp add: demux_inv_def fifo_def unborn_def)
qed

lemma Process_inv:
  assumes inv: "demux_inv nx c overflowCap s" and r: "Process c w s = Some s'" and w: "\<not> usesOverflow nx w"
  shows "demux_inv nx c overflowCap s'"
proof -
  from r have p: "sender s = Polling" by (auto simp: Process_def split: sender.splits)
  show ?thesis
  proof (cases "guardLen s < nat (ConcurrentKeys c)")
    case True
    have "demux_inv nx c overflowCap (s\<lparr>guardLen := guardLen s + 1, overflowLen := overflowLen s, sender := Trying w\<rparr>)"
      using p w True demux_invD(3) [OF inv] by (intro inv_sender [OF inv]) (simp_all add: senderToken_def tokens_def)
    with True p r show ?thesis by (simp add: Process_def)
  next
    case False
    have "demux_inv nx c overflowCap (s\<lparr>guardLen := guardLen s, overflowLen := overflowLen s, sender := Waiting w\<rparr>)"
      using p w demux_invD(3) [OF inv] by (intro inv_sender [OF inv]) (simp_all add: senderToken_def tokens_def)
    with False p r show ?thesis by (simp add: Process_def)
  qed
qed

text \<open>What the nexus setter of the overflow trait is documented to do.\<close>

definition marksOverflow :: "nexus \<Rightarrow> bool" where
  "marksOverflow nx \<longleftrightarrow> (\<forall>t. SetUsedOverflow nx t AND UsedOverflow nx \<noteq> 0)"

lemma awaitGuard_inv:
  assumes inv: "demux_inv nx c overflowCap s" and r: "awaitGuard nx c overflowCap how s = Some s'" and nx: "marksOverflow nx"
  shows "demux_inv nx c overflowCap s'"
proof -
  from r obtain w where p: "sender s = Waiting w" by (auto simp: awaitGuard_def split: sender.splits)
  note t = demux_invD(3) [OF inv]
  have w: "\<not> usesOverflow nx w" using t p by (simp add: tokens_def)
  have ov: "usesOverflow nx (onTraits (SetUsedOverflow nx) w)" using nx by (simp add: usesOverflow_def marksOverflow_def)
  have "demux_inv nx c overflowCap (s\<lparr>guardLen := guardLen s + 1, overflowLen := overflowLen s, sender := Trying w\<rparr>)"
    if "guardLen s < nat (ConcurrentKeys c)"
    using p w that t by (intro inv_sender [OF inv]) (simp_all add: senderToken_def tokens_def)
  moreover have "demux_inv nx c overflowCap
      (s\<lparr>guardLen := guardLen s, overflowLen := overflowLen s + 1, sender := Trying (onTraits (SetUsedOverflow nx) w)\<rparr>)"
    if "overflowLen s + overflowOthers s < overflowCap"
    using p ov that t by (intro inv_sender [OF inv]) (simp_all add: senderToken_def tokens_def)
  moreover have "demux_inv nx c overflowCap (s\<lparr>guardLen := guardLen s, overflowLen := overflowLen s, sender := Polling\<rparr>)"
    using p t by (intro inv_sender [OF inv]) (simp_all add: senderToken_def tokens_def)
  ultimately show ?thesis using r p by (simp add: awaitGuard_def split: wake.splits if_splits)
qed

lemma releaseToken_inv:
  assumes inv: "demux_inv nx c overflowCap s" and r: "releaseToken s = Some s'"
  shows "demux_inv nx c overflowCap s'"
proof -
  from r obtain ov where p: "sender s = Releasing ov" by (auto simp: releaseToken_def split: sender.splits)
  note t = demux_invD(3) [OF inv]
  have pos: "0 < tokensOut nx ov s" using senderToken_pos [of nx ov s] p by (simp add: senderToken_def)
  have "s' = s\<lparr>guardLen := guardLen s - of_bool (\<not> ov), overflowLen := overflowLen s - of_bool ov, sender := Polling\<rparr>"
    using r p takeToken_Some [OF t pos] by (simp add: releaseToken_def dropToken_def)
  moreover have "demux_inv nx c overflowCap \<dots>"
  proof (rule inv_sender [OF inv])
    have "guardLen s = tokensOut nx False s" "overflowLen s = tokensOut nx True s" "guardLen s \<le> nat (ConcurrentKeys c)"
      "overflowLen s + overflowOthers s \<le> overflowCap" using t by (simp_all add: tokens_def)
    with p pos show "guardLen s - of_bool (\<not> ov) + senderToken nx False (sender s) = guardLen s + senderToken nx False Polling"
      "guardLen s - of_bool (\<not> ov) \<le> nat (ConcurrentKeys c)"
      "overflowLen s - of_bool ov + senderToken nx True (sender s) = overflowLen s + senderToken nx True Polling"
      "overflowLen s - of_bool ov + overflowOthers s \<le> overflowCap"
      by (cases ov; simp add: senderToken_def)+
  qed (use p in simp_all)
  ultimately show ?thesis by simp
qed

lemma handOver_inv:
  assumes inv: "demux_inv nx c overflowCap s" and r: "handOver c s = Some s'"
  shows "demux_inv nx c overflowCap s'"
proof -
  note l = demux_invD(1) [OF inv]
  from r obtain w x where p: "sender s = Handing w x" by (auto simp: handOver_def split: sender.splits)
  let ?v = "(wk s x)\<lparr>workItems := workItems (wk s x) @ [w]\<rparr>"
  have x: "owner c s (wi_key w) = Some x" "wphase (wk s x) = Cold" "workItems (wk s x) = []" using linkedD(8-10) [OF l p] .
  have lt: "x < fresh s" by (rule linkedD(1) [OF l x(1)])
  have s': "s' = s\<lparr>wk := (wk s)(x := ?v), accepted := accepted s @ [w], sender := Polling\<rparr>"
    using r p by (simp add: handOver_def split: if_splits)
  have "waitingFor (owner c s) (wk s) (wi_key w) = []" using x by (simp add: waitingFor_def)
  then have "fifo c s'"
    using demux_invD(2) [OF inv] x(3) by (auto simp: s' fifo_def waitingFor_owned [OF l x(1)] keyed_def)
  moreover have "tokensOut nx ov s' = tokensOut nx ov s" for ov
    using sum_upd [OF lt, of "workerToken nx ov" "wk s" ?v] x p
    by (simp add: tokensOut_def s' workerToken_def senderToken_def)
  then have "tokens nx c overflowCap s'"
    using demux_invD(3) [OF inv] by (simp add: tokens_def) (simp add: s')
  moreover have "unborn s'" using demux_invD(4) [OF inv] lt by (simp add: s' unborn_def)
  ultimately show ?thesis
    using linked_handover [OF l [unfolded p]] demux_invD(5) [OF inv] by (simp add: demux_inv_def s')
qed

lemma workerToken_New: "workerToken nx ov (NewWorker i) = 0"
  by (simp add: workerToken_def NewWorker_def)

lemma workerToken_active [simp]: "workerToken nx ov (v\<lparr>IsActive := b\<rparr>) = workerToken nx ov v"
  by (simp add: workerToken_def cong: phase.case_cong)

lemma BorrowWorker_cases:
  assumes inv: "demux_inv nx c overflowCap s" and b: "BorrowWorker i s = (x, s1)"
  shows "demux_inv nx c overflowCap s1" "pooled (owner c s1) (wk s1) (fresh s1) i x" "x \<notin> set (workerPool (shards s1 j))"
    "sender s1 = sender s" "owner c s1 = owner c s" "workers (shards s1 j) = workers (shards s j)"
proof -
  have "demux_inv nx c overflowCap s1 \<and> pooled (owner c s1) (wk s1) (fresh s1) i x \<and> x \<notin> set (workerPool (shards s1 j)) \<and>
    sender s1 = sender s \<and> owner c s1 = owner c s \<and> workers (shards s1 j) = workers (shards s j)"
  proof (cases "workerPool (shards s i)")
    case (Cons y ys)
    with b have s1: "x = y" "s1 = s\<lparr>shards := (shards s)(i := (shards s i)\<lparr>workerPool := ys\<rparr>)\<rparr>"
      by (simp_all add: BorrowWorker_def)
    show ?thesis using pool_head [OF inv Cons s1(2)] by (auto simp: s1)
  next
    case Nil
    note l = demux_invD(1) [OF inv]
    from b Nil have s1: "x = fresh s" "s1 = s\<lparr>wk := (wk s)(fresh s := NewWorker i), fresh := Suc (fresh s)\<rparr>"
      by (auto simp: BorrowWorker_def)
    have no: "fresh s \<notin> ran (owner c s)" using linkedD(1) [OF l] by (auto simp: ran_def)
    have np: "fresh s \<notin> set (workerPool (shards s j))" for j
      using linkedD(7) [OF l, of "fresh s" j] by (auto simp: pooled_def)
    have "workItems (wk s (fresh s)) = []" using linkedD(5) [OF l no] by (simp add: rests_def)
    then have "fifo c s1"
      using demux_invD(2) [OF inv] by (simp add: s1 fifo_def waitingFor_same NewWorker_def)
    moreover have "tokensOut nx ov s1 = tokensOut nx ov s" for ov
      by (auto simp: tokensOut_def s1 workerToken_New intro!: sum.cong)
    then have "tokens nx c overflowCap s1"
      using demux_invD(3) [OF inv] by (simp add: tokens_def) (simp add: s1)
    moreover have "unborn s1" using demux_invD(4) [OF inv] by (simp add: s1 unborn_def)
    ultimately have "demux_inv nx c overflowCap s1"
      using linked_new [OF l] demux_invD(5) [OF inv] by (simp add: demux_inv_def s1)
    then show ?thesis using no np by (simp add: s1 pooled_def NewWorker_def)
  qed
  then show "demux_inv nx c overflowCap s1" "pooled (owner c s1) (wk s1) (fresh s1) i x" "x \<notin> set (workerPool (shards s1 j))"
    "sender s1 = sender s" "owner c s1 = owner c s" "workers (shards s1 j) = workers (shards s j)" by blast+
qed

lemma route_simps [simp]:
  "wi_Message (withRoute i w) = wi_Message w" "usesOverflow nx (withRoute i w) = usesOverflow nx w"
  "wi_Message (withDepth n w) = wi_Message w" "usesOverflow nx (withDepth n w) = usesOverflow nx w"
  by (simp_all add: withRoute_def withDepth_def usesOverflow_def)

lemma SendToWorker_existing:
  assumes inv: "demux_inv nx c overflowCap s" and p: "sender s = Trying w0"
    and x: "owner c s (wi_key w) = Some x" and w: "usesOverflow nx w = usesOverflow nx w0"
    and s': "s' = s\<lparr>wk := (wk s)(x := (wk s x)\<lparr>workItems := workItems (wk s x) @ [w]\<rparr>),
      accepted := accepted s @ [w], sender := Releasing (usesOverflow nx w)\<rparr>"
  shows "demux_inv nx c overflowCap s'"
proof -
  let ?v = "(wk s x)\<lparr>workItems := workItems (wk s x) @ [w]\<rparr>"
  note l = demux_invD(1) [OF inv]
  have sv: "serves (sender s) (wi_key w) x (wk s x)" and lt: "x < fresh s" using linkedD(1,3) [OF l x] by blast+
  have ne: "wphase (wk s x) = Cold \<Longrightarrow> workItems (wk s x) \<noteq> []" using sv p by (simp add: serves_def)
  have "serves (sender s) (wi_key w) x ?v" using sv by (auto simp: serves_def split: phase.splits)
  then have "linked (shardOf c) (owner c s) ((wk s)(x := ?v)) (\<lambda>i. workerPool (shards s i)) (sender s) (fresh s)"
    using p by (intro linked_serve [OF l x]) simp_all
  then have "linked (shardOf c) (owner c s) ((wk s)(x := ?v)) (\<lambda>i. workerPool (shards s i)) (sender s') (fresh s)"
    by (rule linked_sd) (simp_all add: p s')
  moreover have "waitingFor (owner c s) (wk s) (wi_key w) = workItems (wk s x)" using x by (simp add: waitingFor_def)
  then have "fifo c s'"
    using demux_invD(2) [OF inv] by (auto simp: s' fifo_def waitingFor_owned [OF l x] keyed_def)
  moreover have "workerToken nx ov ?v = workerToken nx ov (wk s x)" for ov
    using ne by (auto simp: workerToken_def split: phase.split list.split)
  then have "tokensOut nx ov s' = tokensOut nx ov s" for ov
    using sum_upd [OF lt, of "workerToken nx ov" "wk s" ?v] p w by (simp add: tokensOut_def s' senderToken_def)
  then have "tokens nx c overflowCap s'"
    using demux_invD(3) [OF inv] by (simp add: tokens_def) (simp add: s')
  moreover have "unborn s'" using demux_invD(4) [OF inv] lt by (simp add: s' unborn_def)
  ultimately show ?thesis using demux_invD(5) [OF inv] by (simp add: demux_inv_def s')
qed

lemma SendToWorker_new:
  assumes inv: "demux_inv nx c overflowCap s" and p: "sender s = Trying w0"
    and k: "owner c s (wi_key w) = None" and w: "usesOverflow nx w = usesOverflow nx w0"
    and x: "pooled (owner c s) (wk s) (fresh s) (shardOf c (wi_key w)) x" "\<And>j. x \<notin> set (workerPool (shards s j))"
    and i: "i = shardOf c (wi_key w)" "ws = AList.update (wi_key w) x (workers (shards s i))"
    and s': "s' = s\<lparr>wk := (wk s)(x := (wk s x)\<lparr>IsActive := True\<rparr>),
      shards := (shards s)(i := (shards s i)\<lparr>workers := ws, activeCount := length ws\<rparr>), sender := Handing w x\<rparr>"
  shows "demux_inv nx c overflowCap s'"
proof -
  note l = demux_invD(1) [OF inv]
  have x': "x < fresh s" "x \<notin> ran (owner c s)" "wphase (wk s x) = Cold" using x(1) by (simp_all add: pooled_def)
  have items: "workItems (wk s x) = []" using linkedD(5) [OF l x'(2)] by (simp add: rests_def)
  have own: "owner c s' = (owner c s)(wi_key w \<mapsto> x)"
    unfolding s' by (auto simp: owner_def fun_eq_iff i update_conv')
  have pool: "(\<lambda>i. workerPool (shards s' i)) = (\<lambda>i. workerPool (shards s i))" by (auto simp: s')
  have "linked (shardOf c) (owner c s') (wk s') (\<lambda>i. workerPool (shards s' i)) (sender s') (fresh s')"
    unfolding own pool using linked_borrow [OF l _ x k] p by (simp add: s')
  moreover have "waitingFor ((owner c s)(wi_key w \<mapsto> x)) (wk s') k' = waitingFor (owner c s) (wk s) k'" for k'
  proof -
    have "owner c s k' \<noteq> Some x" using not_ran [OF x'(2)] .
    then show ?thesis using k items by (auto simp: waitingFor_def s' split: option.split)
  qed
  then have "fifo c s'" using demux_invD(2) [OF inv] unfolding fifo_def own by (simp add: s')
  moreover have "tokensOut nx ov s' = tokensOut nx ov s" for ov
    using sum_upd [OF x'(1), of "workerToken nx ov" "wk s" "(wk s x)\<lparr>IsActive := True\<rparr>"] p w
    by (simp add: tokensOut_def s' senderToken_def)
  then have "tokens nx c overflowCap s'"
    using demux_invD(3) [OF inv] by (simp add: tokens_def) (simp add: s')
  moreover have "unborn s'" using demux_invD(4) [OF inv] x'(1) by (simp add: s' unborn_def)
  moreover have "shard_ok c j (shards s' j)" for j
    using demux_invD(5) [OF inv, of j] by (auto simp: s' shard_ok_def i distinct_update update_keys dest!: set_update_cases)
  ultimately show ?thesis by (simp add: demux_inv_def)
qed

lemma SendToWorker_inv:
  assumes inv: "demux_inv nx c overflowCap s" and r: "SendToWorkerForProcessing nx c late s = Some s'"
  shows "demux_inv nx c overflowCap s'"
proof -
  from r obtain w0 where p: "sender s = Trying w0" by (auto simp: SendToWorkerForProcessing_def split: sender.splits)
  define i where "i = shardOf c (wi_key w0)"
  define w where "w = withRoute i w0"
  have w: "wi_key w = wi_key w0" "usesOverflow nx w = usesOverflow nx w0" by (simp_all add: w_def)
  show ?thesis
  proof (cases "map_of (workers (shards s i)) (wi_key w)")
    case None
    obtain x s1 where b: "BorrowWorker i s = (x, s1)" by fastforce
    note bw = BorrowWorker_cases [OF inv b]
    let ?ws = "AList.update (wi_key w) x (workers (shards s1 i))"
    have own: "owner c s1 (wi_key w) = None" using None bw(5) w(1) by (simp add: owner_def i_def)
    have i: "i = shardOf c (wi_key w)" using w(1) by (simp add: i_def)
    have s': "s' = s1\<lparr>wk := (wk s1)(x := (wk s1 x)\<lparr>IsActive := True\<rparr>),
      shards := (shards s1)(i := (shards s1 i)\<lparr>workers := ?ws, activeCount := length ?ws\<rparr>), sender := Handing w x\<rparr>"
      using r None [unfolded w(1)] b w(1)
      unfolding SendToWorkerForProcessing_def p sender.case Let_def i_def [symmetric] w_def [symmetric] by simp
    from p bw(4) have p1: "sender s1 = Trying w0" by simp
    show ?thesis by (rule SendToWorker_new [OF bw(1) p1 own w(2) bw(2) [unfolded i] bw(3) i refl s'])
  next
    case (Some x)
    then have own: "owner c s (wi_key w) = Some x" using w(1) by (simp add: owner_def i_def)
    let ?w = "withDepth (length (workItems (wk s x))) w"
    have sd: "demux_inv nx c overflowCap (s\<lparr>guardLen := guardLen s, overflowLen := overflowLen s, sender := sd\<rparr>)"
      if "sd = Releasing (usesOverflow nx w) \<or> sd = Trying ?w" for sd
      using that p w demux_invD(3) [OF inv] by (intro inv_sender [OF inv]) (auto simp: senderToken_def tokens_def)
    have full: "demux_inv nx c overflowCap (s\<lparr>sender := Releasing (usesOverflow nx w)\<rparr>)"
      "demux_inv nx c overflowCap (s\<lparr>sender := Trying ?w\<rparr>)" using sd by fastforce+
    show ?thesis
    proof (cases "length (workItems (wk s x)) < nat (PerKeyBufferLen c)")
      case True
      with r p Some own w show ?thesis
        by (intro SendToWorker_existing [OF inv p, of ?w x])
          (simp_all add: SendToWorkerForProcessing_def Let_def i_def w_def)
    next
      case False
      have "demux_inv nx c overflowCap (s\<lparr>trips := t, sender := Trying ?w\<rparr>)" for t
        using full(2) by (simp add: demux_inv_def fifo_def tokens_def tokensOut_def unborn_def)
      with r p Some False full show ?thesis
        by (auto simp: SendToWorkerForProcessing_def Let_def i_def w_def split: if_splits)
    qed
  qed
qed

section \<open>A new demux\<close>

text \<open>Workers that were borrowed and are neither pooled nor given a key.\<close>

definition outstanding :: "DemuxConfig \<Rightarrow> nat \<Rightarrow> nat list \<Rightarrow> 'a demux \<Rightarrow> bool" where
  "outstanding c i xs s \<longleftrightarrow> distinct xs \<and>
     (\<forall>x \<in> set xs. pooled (owner c s) (wk s) (fresh s) i x \<and> (\<forall>j. x \<notin> set (workerPool (shards s j))))"

lemma BorrowWorker_outstanding:
  assumes inv: "demux_inv nx c overflowCap s" and b: "BorrowWorker i s = (x, s1)" and ys: "outstanding c i ys s"
  shows "outstanding c i (x # ys) s1"
proof -
  note bw = BorrowWorker_cases [OF inv b]
  have "x \<notin> set ys \<and> outstanding c i ys s1"
  proof (cases "workerPool (shards s i)")
    case (Cons z zs)
    with b have s1: "x = z" "s1 = s\<lparr>shards := (shards s)(i := (shards s i)\<lparr>workerPool := zs\<rparr>)\<rparr>"
      by (simp_all add: BorrowWorker_def)
    have "x \<in> set (workerPool (shards s i))" using Cons s1(1) by simp
    then have "x \<notin> set ys" using ys by (auto simp: outstanding_def)
    moreover have "set (workerPool (shards s1 j)) \<subseteq> set (workerPool (shards s j))" for j using Cons by (auto simp: s1)
    moreover have "owner c s1 = owner c s" "wk s1 = wk s" "fresh s1 = fresh s" by (simp_all add: s1(2))
    ultimately have "x \<notin> set ys" "outstanding c i ys s1" using ys unfolding outstanding_def by (metis subsetD)+
    then show ?thesis ..
  next
    case Nil
    with b have s1: "x = fresh s" "s1 = s\<lparr>wk := (wk s)(fresh s := NewWorker i), fresh := Suc (fresh s)\<rparr>"
      by (auto simp: BorrowWorker_def)
    have "x \<notin> set ys" using ys s1(1) by (auto simp: outstanding_def pooled_def)
    with ys show ?thesis by (auto simp: outstanding_def pooled_def s1)
  qed
  with bw(2,3) show ?thesis by (auto simp: outstanding_def)
qed

lemma borrowWorkers_inv:
  "demux_inv nx c overflowCap s \<Longrightarrow> outstanding c i ys s \<Longrightarrow> borrowWorkers n i s = (xs, s') \<Longrightarrow>
   demux_inv nx c overflowCap s' \<and> outstanding c i (xs @ ys) s'"
proof (induction n arbitrary: s xs ys)
  case (Suc n)
  obtain x s1 where b: "BorrowWorker i s = (x, s1)" by fastforce
  obtain zs where z: "borrowWorkers n i s1 = (zs, s')" "xs = x # zs" using Suc.prems(3) b by (auto split: prod.splits)
  from Suc.IH [OF BorrowWorker_cases(1) [OF Suc.prems(1) b] BorrowWorker_outstanding [OF Suc.prems(1) b Suc.prems(2)] z(1)]
  show ?case by (auto simp: z(2) outstanding_def)
qed simp

lemma fold_ReturnWorker_inv:
  "demux_inv nx c overflowCap s \<Longrightarrow> outstanding c i xs s \<Longrightarrow> demux_inv nx c overflowCap (fold (ReturnWorker n i) xs s)"
proof (induction xs arbitrary: s)
  case (Cons x xs)
  have x: "x < fresh s" "x \<notin> ran (owner c s)" "\<And>j. x \<notin> set (workerPool (shards s j))" "wphase (wk s x) = Cold"
    "\<not> shutdown (wk s x)" "workerShard (wk s x) = i" "x \<notin> set xs"
    using Cons.prems(2) by (auto simp: outstanding_def pooled_def)
  have "outstanding c i xs (ReturnWorker n i x s)"
    using Cons.prems(2) x(7) by (auto simp: outstanding_def ReturnWorker_def pooled_def)
  with Cons.IH [OF ReturnWorker_inv [OF Cons.prems(1) x(1-6)]] show ?case by simp
qed simp

lemma NewWorkerShard_inv:
  assumes inv: "demux_inv nx c overflowCap s" and e: "workers (shards s i) = []"
  shows "demux_inv nx c overflowCap (NewWorkerShard c n i s)"
proof -
  let ?s = "s\<lparr>shards := (shards s)(i := emptyShard)\<rparr>"
  have own: "owner c ?s = owner c s" using e by (auto simp: owner_def fun_eq_iff emptyShard_def)
  have "linked (shardOf c) (owner c s) (wk s) (\<lambda>j. workerPool (((shards s)(i := emptyShard)) j)) (sender s) (fresh s)"
    using linkedD(6) [OF demux_invD(1) [OF inv]]
    by (intro linked_pool [OF demux_invD(1) [OF inv]]) (auto simp: emptyShard_def)
  moreover have "shard_ok c j (shards ?s j)" for j
    using demux_invD(5) [OF inv, of j] by (auto simp: shard_ok_def emptyShard_def)
  ultimately have i0: "demux_inv nx c overflowCap ?s"
    using demux_invD(2-4) [OF inv] own by (simp add: demux_inv_def fifo_def tokens_def tokensOut_def unborn_def)
  obtain xs s2 where b: "borrowWorkers (nat (CalcMinimumIdleWorkers c)) i ?s = (xs, s2)" by fastforce
  have "demux_inv nx c overflowCap s2 \<and> outstanding c i (xs @ []) s2"
    by (rule borrowWorkers_inv [OF i0 _ b]) (simp add: outstanding_def)
  with b show ?thesis by (simp add: NewWorkerShard_def fold_ReturnWorker_inv)
qed

lemma borrowWorkers_workers:
  "borrowWorkers n i s = (xs, s') \<Longrightarrow> workers (shards s' j) = workers (shards s j)"
  by (induction n arbitrary: s xs) (fastforce simp: BorrowWorker_def Let_def split: prod.splits list.splits)+

lemma NewWorkerShard_workers: "workers (shards s j) = [] \<Longrightarrow> workers (shards (NewWorkerShard c n i s) j) = []"
proof -
  have r: "workers (shards (fold (ReturnWorker k i) xs t) j) = workers (shards t j)" for xs k and t :: "'a demux"
    by (induction xs arbitrary: t) (auto simp: ReturnWorker_def)
  assume "workers (shards s j) = []"
  then show ?thesis
    using borrowWorkers_workers [of "nat (CalcMinimumIdleWorkers c)" i "s\<lparr>shards := (shards s)(i := emptyShard)\<rparr>" _ _ j]
    by (auto simp: NewWorkerShard_def Let_def r emptyShard_def split: prod.split if_splits)
qed

lemma fold_NewWorkerShard_inv:
  "demux_inv nx c overflowCap s \<Longrightarrow> (\<And>j. workers (shards s j) = []) \<Longrightarrow>
   demux_inv nx c overflowCap (fold (NewWorkerShard c n) is s)"
  by (induction "is" arbitrary: s) (simp_all add: NewWorkerShard_inv NewWorkerShard_workers)

lemma NewDemux_inv: "demux_inv nx c overflowCap (NewDemux c overflowCap)"
  unfolding NewDemux_def
  by (rule fold_NewWorkerShard_inv)
    (auto simp: demux_inv_def linked_def fifo_def tokens_def tokensOut_def unborn_def shard_ok_def emptyShard_def
      NewWorker_def owner_def rests_def pooled_def keyed_def waitingFor_def senderToken_def)

section \<open>Runs\<close>

definition okEvent :: "nexus \<Rightarrow> 'a event \<Rightarrow> bool" where
  "okEvent nx e \<longleftrightarrow> (case e of Poll w \<Rightarrow> \<not> usesOverflow nx w | _ \<Rightarrow> True)"

lemma inv_others:
  assumes "demux_inv nx c overflowCap s" "overflowLen s + m \<le> overflowCap"
  shows "demux_inv nx c overflowCap (s\<lparr>overflowOthers := m\<rparr>)"
  using assms by (simp add: demux_inv_def fifo_def tokens_def tokensOut_def unborn_def)

lemma demuxStep_inv:
  assumes inv: "demux_inv nx c overflowCap s" and nx: "marksOverflow nx" and ok: "okEvent nx e"
    and r: "demuxStep nx c overflowCap e s = Some s'"
  shows "demux_inv nx c overflowCap s'"
proof (cases e)
  case OthersTake
  with r inv show ?thesis by (auto simp: demuxStep_def intro!: inv_others split: if_splits)
next
  case OthersGive
  have "overflowLen s + overflowOthers s \<le> overflowCap" using demux_invD(3) [OF inv] by (simp add: tokens_def)
  with OthersGive r inv show ?thesis by (auto simp: demuxStep_def intro!: inv_others split: if_splits)
qed (use r ok in \<open>auto simp: demuxStep_def okEvent_def intro: Process_inv [OF inv] awaitGuard_inv [OF inv _ nx]
    SendToWorker_inv [OF inv] handOver_inv [OF inv] releaseToken_inv [OF inv] receiveItem_inv [OF inv]
    finishItem_inv [OF inv] fallThrough_inv [OF inv] retireWorker_inv [OF inv] freeToken_inv [OF inv]
    returnSelf_inv [OF inv] exitWorker_inv [OF inv] pruneIdleWorkers_inv [OF inv] inv_shard_flags [OF inv]\<close>)

lemma demuxRun_inv:
  "demux_inv nx c overflowCap s \<Longrightarrow> marksOverflow nx \<Longrightarrow> list_all (okEvent nx) es \<Longrightarrow>
   demuxRun nx c overflowCap es s = Some s' \<Longrightarrow> demux_inv nx c overflowCap s'"
proof (induction es arbitrary: s)
  case (Cons e es)
  then obtain s1 where "demuxStep nx c overflowCap e s = Some s1" "demuxRun nx c overflowCap es s1 = Some s'"
    by (auto split: option.splits)
  with Cons show ?case by (metis demuxStep_inv list.pred_inject(2))
qed simp

end
