(* ===== verification/Demux_Drain.thy ===== *)
theory Demux_Drain
  imports Demux_Fanout Demux_Examples
begin

text \<open>
  What the fan-out promises: the order of a key's items, the bound on concurrency, and the
  drain. \<open>DrainWorkers\<close> waits for workers to become inactive while nothing new is sent to
  them; they do become inactive, whatever the order in which they are scheduled, because
  every step of a worker brings it closer to rest and a worker that is not at rest always
  has a step.
\<close>

section \<open>Order and concurrency\<close>

lemma inv_key_order:
  assumes inv: "demux_inv nx c overflowCap s"
  shows "\<exists>rest. keyed k (accepted s) = keyed k (taken s) @ rest"
    "wphase (wk s x) = Processing w \<Longrightarrow> wphase (wk s y) = Processing w' \<Longrightarrow> wi_key w = wi_key w' \<Longrightarrow> x = y"
proof -
  have own: "owner c s (wi_key v) = Some z" if "wphase (wk s z) = Processing v" for z v
    using busy_owned [OF inv, of z] that by (auto simp: rests_def serves_def)
  show "x = y" if "wphase (wk s x) = Processing w" "wphase (wk s y) = Processing w'" "wi_key w = wi_key w'"
    using own [OF that(1)] own [OF that(2)] that(3) by simp
  have "keyed k (accepted s) = keyed k (taken s) @ waitingFor (owner c s) (wk s) k"
    using demux_invD(2) [OF inv] by (simp add: fifo_def)
  then show "\<exists>rest. keyed k (accepted s) = keyed k (taken s) @ rest" by blast
qed

text \<open>
  C4. Per-key order: in every interleaving, the items of a key are taken up by workers in
  the order in which the polling goroutine sent them, and no two workers process items of
  the same key at the same time.
\<close>

theorem per_key_order:
  assumes "marksOverflow nx" "list_all (okEvent nx) es" "demuxRun nx c overflowCap es (NewDemux c overflowCap) = Some s"
  shows "(\<exists>rest. keyed k (accepted s) = keyed k (taken s) @ rest) \<and>
    (wphase (wk s x) = Processing w \<and> wphase (wk s y) = Processing w' \<and> wi_key w = wi_key w' \<longrightarrow> x = y)"
  using inv_key_order [OF demuxRun_inv [OF NewDemux_inv assms]] by blast

definition processing :: "'a demux \<Rightarrow> nat list" where
  "processing s = filter (\<lambda>x. case wphase (wk s x) of Processing _ \<Rightarrow> True | _ \<Rightarrow> False) [0 ..< fresh s]"

lemma length_filter_sum:
  "(\<And>x. P x \<Longrightarrow> 1 \<le> f x) \<Longrightarrow> length (filter P [0 ..< n]) \<le> (\<Sum>x < n. f x :: nat)"
proof (induction n)
  case (Suc n)
  then have "length (filter P [0 ..< n]) \<le> (\<Sum>x < n. f x)" by blast
  moreover have "P n \<Longrightarrow> 1 \<le> f n" by (rule Suc.prems)
  ultimately show ?case by (cases "P n") auto
qed simp

lemma inv_concurrency:
  assumes inv: "demux_inv nx c overflowCap s"
  shows "length (processing s) \<le> guardLen s + overflowLen s \<and> guardLen s \<le> nat (ConcurrentKeys c) \<and>
    overflowLen s + overflowOthers s \<le> overflowCap"
proof -
  have t: "tokens nx c overflowCap s"
    by (rule demux_invD(3) [OF inv])
  have "length (processing s) \<le> (\<Sum>x < fresh s. workerToken nx False (wk s x) + workerToken nx True (wk s x))"
    unfolding processing_def by (rule length_filter_sum) (auto simp: workerToken_def split: phase.splits)
  also have "\<dots> \<le> tokensOut nx False s + tokensOut nx True s" by (simp add: tokensOut_def sum.distrib)
  finally show ?thesis using t by (simp add: tokens_def)
qed

text \<open>
  C7. Bounded concurrency: in every interleaving at most \<open>ConcurrentKeys\<close> messages are being
  processed on the guard plus as many as the overflow guard has slots that other consumers
  do not hold; the guard channels never hold more tokens than their capacity.
\<close>

theorem concurrency_bounded:
  assumes "marksOverflow nx" "list_all (okEvent nx) es" "demuxRun nx c overflowCap es (NewDemux c overflowCap) = Some s"
  shows "length (processing s) \<le> guardLen s + overflowLen s \<and> guardLen s \<le> nat (ConcurrentKeys c) \<and>
    overflowLen s + overflowOthers s \<le> overflowCap"
  by (rule inv_concurrency [OF demuxRun_inv [OF NewDemux_inv assms]])

section \<open>Draining\<close>

text \<open>The workers \<open>DrainWorkers\<close> waits for, and when the wait for one of them is over.\<close>

definition DrainWorkers :: "DemuxConfig \<Rightarrow> 'a demux \<Rightarrow> nat list" where
  "DrainWorkers c s = concat (map (\<lambda>i. map snd (workers (shards s i))) [0 ..< nat (WorkerShardsCount c)])"

definition Drain :: "nat \<Rightarrow> 'a demux \<Rightarrow> bool" where
  "Drain x s \<longleftrightarrow> \<not> IsActive (wk s x)"

definition workerEvent :: "'a event \<Rightarrow> bool" where
  "workerEvent e \<longleftrightarrow>
     (case e of Receive _ \<Rightarrow> True | Finish _ _ _ _ \<Rightarrow> True | FallThrough _ \<Rightarrow> True | Retire _ \<Rightarrow> True
      | FreeToken _ \<Rightarrow> True | ReturnSelf _ \<Rightarrow> True | _ \<Rightarrow> False)"

definition effort :: "'a worker \<Rightarrow> nat" where
  "effort v = 6 * length (workItems v) +
     (case wphase v of Cold \<Rightarrow> 0 | Returning \<Rightarrow> 1 | Retiring \<Rightarrow> 2
      | FellThrough \<Rightarrow> (if workItems v = [] then 3 else 5) | Hot \<Rightarrow> 4 | Processing _ \<Rightarrow> 5 | Exited \<Rightarrow> 0)"

definition workLeft :: "'a demux \<Rightarrow> nat" where
  "workLeft s = (\<Sum>x < fresh s. effort (wk s x))"

text \<open>The effect of a worker's step on the rest of the state.\<close>

definition lighter :: "'a demux \<Rightarrow> 'a demux \<Rightarrow> bool" where
  "lighter s s' \<longleftrightarrow> sender s' = sender s \<and> fresh s' = fresh s \<and> accepted s' = accepted s \<and>
     overflowOthers s' = overflowOthers s \<and>
     (\<exists>x v. x < fresh s \<and> wk s' = (wk s)(x := v) \<and> effort v < effort (wk s x))"

lemma lighter_workLeft: "lighter s s' \<Longrightarrow> workLeft s' < workLeft s"
proof -
  assume "lighter s s'"
  then obtain x v where x: "fresh s' = fresh s" "x < fresh s" "wk s' = (wk s)(x := v)" "effort v < effort (wk s x)"
    by (auto simp: lighter_def)
  from sum_upd [OF x(2), of effort "wk s" v] x show ?thesis by (simp add: workLeft_def)
qed

lemma takeToken_frame:
  "takeToken ov s = Some s' \<Longrightarrow> tokens nx c overflowCap s \<Longrightarrow> 0 < tokensOut nx ov s \<Longrightarrow> s' = dropToken ov s"
  using takeToken_Some by fastforce

lemma not_rests_born: "demux_inv nx c overflowCap s \<Longrightarrow> workItems (wk s x) \<noteq> [] \<Longrightarrow> x < fresh s"
  by (rule busy_owned [of nx c overflowCap s x]) (auto simp: rests_def)

lemma worker_lighter:
  assumes inv: "demux_inv nx c overflowCap s" and e: "workerEvent e" and r: "demuxStep nx c overflowCap e s = Some s'"
  shows "lighter s s'"
proof (cases e)
  case (Receive x)
  with r have "receiveItem nx x s = Some s'" by (simp add: demuxStep_def)
  then show ?thesis
  proof (cases rule: receiveItem_cases)
    case (1 w ws ph k0 ov)
    moreover have "x < fresh s" using 1(1) by (intro not_rests_born [OF inv]) simp
    ultimately show ?thesis unfolding lighter_def by (fastforce simp: setWorker_def effort_def)
  qed
next
  case (Finish x ct rs sink)
  with r obtain w where w: "wphase (wk s x) = Processing w" and s': "wk s' = (wk s)(x := (wk s x)\<lparr>wphase := Hot\<rparr>)"
    "sender s' = sender s" "fresh s' = fresh s" "accepted s' = accepted s" "overflowOthers s' = overflowOthers s"
    by (auto simp: demuxStep_def finishItem_def Let_def setWorker_def split: phase.splits outcome.splits)
  moreover have "x < fresh s" using born [OF inv] w by simp
  ultimately show ?thesis unfolding lighter_def by (fastforce simp: effort_def)
next
  case (FallThrough x)
  with r have w: "wphase (wk s x) = Hot" "workItems (wk s x) = []"
    and s': "s' = setWorker x ((wk s x)\<lparr>wphase := FellThrough\<rparr>) s"
    by (auto simp: demuxStep_def fallThrough_def Let_def split: if_splits)
  moreover have "x < fresh s" using born [OF inv] w by simp
  ultimately show ?thesis unfolding lighter_def by (fastforce simp: effort_def setWorker_def)
next
  case (Retire x)
  with r have w: "wphase (wk s x) = FellThrough" by (auto simp: demuxStep_def retireWorker_def Let_def split: if_splits)
  moreover have "x < fresh s" using born [OF inv] w by simp
  ultimately show ?thesis
    using r Retire unfolding lighter_def
    by (fastforce simp: demuxStep_def retireWorker_def Let_def effort_def setWorker_def split: if_splits)
next
  case (FreeToken x)
  with r obtain s1 where w: "wphase (wk s x) = Retiring" "takeToken (usedOverflow (wk s x)) s = Some s1"
    "s' = setWorker x ((wk s x)\<lparr>wphase := Returning, partitionKey := ''''\<rparr>) s1"
    by (auto simp: demuxStep_def freeToken_def Let_def split: if_splits)
  have x: "x < fresh s" using born [OF inv] w by simp
  have "0 < tokensOut nx (usedOverflow (wk s x)) s"
    using workerToken_pos [OF x, of nx "usedOverflow (wk s x)"] w(1) by (simp add: workerToken_def)
  with takeToken_frame [OF w(2) demux_invD(3) [OF inv]] w(1,3) x show ?thesis
    unfolding lighter_def by (fastforce simp: effort_def setWorker_def)
next
  case (ReturnSelf x)
  with r have w: "wphase (wk s x) = Returning"
    and s': "s' = ReturnWorker (poolSize c overflowCap) (workerShard (wk s x)) x (setWorker x ((wk s x)\<lparr>wphase := Cold\<rparr>) s)"
    by (auto simp: demuxStep_def returnSelf_def Let_def split: if_splits)
  moreover have "x < fresh s" using born [OF inv] w by simp
  ultimately show ?thesis
    unfolding lighter_def by (fastforce simp: effort_def setWorker_def ReturnWorker_def)
qed (use e in \<open>simp_all add: workerEvent_def\<close>)

text \<open>A worker that is not at rest has a step.\<close>

lemma worker_progress:
  assumes inv: "demux_inv nx c overflowCap s" and x: "x < fresh s" "0 < effort (wk s x)"
  shows "\<exists>e s'. workerEvent e \<and> demuxStep nx c overflowCap e s = Some s'"
proof (cases "wphase (wk s x)")
  case Cold
  with x(2) obtain w ws where "workItems (wk s x) = w # ws" by (cases "workItems (wk s x)") (auto simp: effort_def)
  with Cold show ?thesis
    by (intro exI [of _ "Receive x"]) (simp add: workerEvent_def demuxStep_def receiveItem_def Let_def)
next
  case (Processing w)
  then show ?thesis
    by (intro exI [of _ "Finish x \<lparr>ct_start = 0, ct_finish = 0, ct_now = 0\<rparr> Returned Returned"])
      (auto simp: workerEvent_def demuxStep_def finishItem_def Let_def split: outcome.split)
next
  case Hot
  show ?thesis
  proof (cases "workItems (wk s x)")
    case Nil
    with Hot show ?thesis
      by (intro exI [of _ "FallThrough x"]) (simp add: workerEvent_def demuxStep_def fallThrough_def Let_def)
  next
    case (Cons w ws)
    with Hot show ?thesis
      by (intro exI [of _ "Receive x"]) (simp add: workerEvent_def demuxStep_def receiveItem_def Let_def)
  qed
next
  case FellThrough
  then show ?thesis
    by (intro exI [of _ "Retire x"]) (simp add: workerEvent_def demuxStep_def retireWorker_def Let_def)
next
  case Retiring
  have "0 < tokensOut nx (usedOverflow (wk s x)) s"
    using workerToken_pos [OF x(1), of nx "usedOverflow (wk s x)"] Retiring by (simp add: workerToken_def)
  from takeToken_Some [OF demux_invD(3) [OF inv] this] Retiring show ?thesis
    by (intro exI [of _ "FreeToken x"]) (simp add: workerEvent_def demuxStep_def freeToken_def Let_def)
next
  case Returning
  then show ?thesis
    by (intro exI [of _ "ReturnSelf x"]) (simp add: workerEvent_def demuxStep_def returnSelf_def Let_def)
next
  case Exited
  then have "workItems (wk s x) = []"
    using busy_owned [OF inv, of x] by (cases "rests (wk s x)") (auto simp: rests_def serves_def)
  with Exited x(2) show ?thesis by (simp add: effort_def)
qed

text \<open>A worker's step makes no worker active, and takes a key only from one it deactivates.\<close>

lemma worker_frame:
  assumes inv: "demux_inv nx c overflowCap s" and e: "workerEvent e" and r: "demuxStep nx c overflowCap e s = Some s'"
  shows "(IsActive (wk s' y) \<longrightarrow> IsActive (wk s y)) \<and>
    (y \<in> ran (owner c s) \<longrightarrow> y \<in> ran (owner c s') \<or> \<not> IsActive (wk s' y))"
proof (cases "\<exists>x. e = Retire x \<and> workItems (wk s x) = []")
  case True
  then obtain x where x: "e = Retire x" "workItems (wk s x) = []" by blast
  with r have ph: "wphase (wk s x) = FellThrough" by (auto simp: demuxStep_def retireWorker_def Let_def split: if_splits)
  then obtain k where k: "owner c s k = Some x" "serves (sender s) k x (wk s x)" "workerShard (wk s x) = shardOf c k"
    using busy_owned [OF inv, of x] by (auto simp: rests_def)
  then have pk: "partitionKey (wk s x) = k" using ph by (simp add: serves_def)
  have wk: "wk s' = (wk s)(x := (wk s x)\<lparr>wphase := Retiring, IsActive := False\<rparr>)"
    using r x ph by (auto simp: demuxStep_def retireWorker_def Let_def setWorker_def)
  have "owner c s' k' = Some y" if "owner c s k' = Some y" "y \<noteq> x" for k'
  proof -
    have "k' \<noteq> k" using that k(1) by auto
    with that(1) r x ph k(3) pk show ?thesis
      by (auto simp: demuxStep_def retireWorker_def Let_def setWorker_def owner_def map_of_delete)
  qed
  with wk show ?thesis by (cases "y = x") (auto dest!: ranD intro: ranI)
next
  case False
  with e r have "IsActive (wk s' z) = IsActive (wk s z)" "owner c s' = owner c s" for z
    by (auto simp: workerEvent_def demuxStep_def receiveItem_def finishItem_def fallThrough_def retireWorker_def
        freeToken_def returnSelf_def takeToken_def ReturnWorker_def setWorker_def Let_def owner_def fun_eq_iff
        split: event.splits list.splits phase.splits if_splits outcome.splits)
  then show ?thesis by simp
qed

lemma atRest:
  assumes inv: "demux_inv nx c overflowCap s" and p: "sender s = Polling" and z: "\<And>x. x < fresh s \<Longrightarrow> effort (wk s x) = 0"
  shows "owner c s k = None" "guardLen s = 0" "overflowLen s = 0" "keyed k (taken s) = keyed k (accepted s)"
    "workers (shards s i) = []"
proof -
  note l = demux_invD(1) [OF inv]
  show none: "owner c s k = None" for k
  proof (rule ccontr)
    assume "owner c s k \<noteq> None"
    then obtain x where "owner c s k = Some x" by blast
    then have "x < fresh s" "serves (sender s) k x (wk s x)" using linkedD(1,3) [OF l] by blast+
    with z [of x] p show False by (auto simp: serves_def effort_def split: phase.splits)
  qed
  have "workerToken nx ov (wk s x) = 0" if "x < fresh s" for x ov
    using z [OF that] by (auto simp: effort_def workerToken_def split: phase.splits)
  then have "tokensOut nx ov s = 0" for ov using p by (simp add: tokensOut_def senderToken_def)
  with demux_invD(3) [OF inv] show "guardLen s = 0" "overflowLen s = 0" by (simp_all add: tokens_def)
  show "keyed k (taken s) = keyed k (accepted s)"
    using demux_invD(2) [OF inv] none [of k] by (simp add: fifo_def waitingFor_def)
  show "workers (shards s i) = []"
  proof (cases "workers (shards s i)")
    case (Cons kx ws)
    then have "shardOf c (fst kx) = i" using demux_invD(5) [OF inv, of i] by (simp add: shard_ok_def)
    then have "owner c s (fst kx) = Some (snd kx)" using Cons by (cases kx) (simp add: owner_def)
    with none show ?thesis by simp
  qed simp
qed

text \<open>What a run of the workers alone keeps and where it can end.\<close>

lemma okEvent_worker: "workerEvent e \<Longrightarrow> okEvent nx e"
  by (auto simp: workerEvent_def okEvent_def split: event.splits)

lemma worker_run:
  assumes "demux_inv nx c overflowCap s" "marksOverflow nx" "list_all workerEvent es" "demuxRun nx c overflowCap es s = Some s'"
  shows "demux_inv nx c overflowCap s' \<and> length es + workLeft s' \<le> workLeft s \<and> sender s' = sender s \<and>
    accepted s' = accepted s \<and> (y \<in> ran (owner c s) \<or> \<not> IsActive (wk s y) \<longrightarrow> y \<in> ran (owner c s') \<or> \<not> IsActive (wk s' y))"
  using assms
proof (induction es arbitrary: s)
  case (Cons e es)
  then obtain s1 where s1: "demuxStep nx c overflowCap e s = Some s1" "demuxRun nx c overflowCap es s1 = Some s'"
    by (auto split: option.splits)
  have e: "workerEvent e" "list_all workerEvent es" using Cons.prems(3) by simp_all
  have inv1: "demux_inv nx c overflowCap s1"
    by (rule demuxStep_inv [OF Cons.prems(1,2) okEvent_worker [OF e(1)] s1(1)])
  have l: "lighter s s1" by (rule worker_lighter [OF Cons.prems(1) e(1) s1(1)])
  from Cons.IH [OF inv1 Cons.prems(2) e(2) s1(2)] lighter_workLeft [OF l]
    worker_frame [OF Cons.prems(1) e(1) s1(1), of y] l show ?case
    by (auto simp: lighter_def)
qed simp

lemma worker_run_exists:
  assumes "demux_inv nx c overflowCap s" "marksOverflow nx"
  shows "\<exists>es s'. list_all workerEvent es \<and> demuxRun nx c overflowCap es s = Some s' \<and> (\<forall>x < fresh s'. effort (wk s' x) = 0)"
  using assms(1)
proof (induction "workLeft s" arbitrary: s rule: less_induct)
  case less
  show ?case
  proof (cases "\<forall>x < fresh s. effort (wk s x) = 0")
    case True
    then show ?thesis by (intro exI [of _ "[]"] exI [of _ s]) simp
  next
    case False
    then obtain e s1 where e: "workerEvent e" "demuxStep nx c overflowCap e s = Some s1"
      using worker_progress [OF less.prems] by blast
    have "workLeft s1 < workLeft s" by (rule lighter_workLeft [OF worker_lighter [OF less.prems e]])
    from less.hyps [OF this demuxStep_inv [OF less.prems assms(2) okEvent_worker [OF e(1)] e(2)]] obtain es s'
      where "list_all workerEvent es" "demuxRun nx c overflowCap es s1 = Some s'" "\<forall>x < fresh s'. effort (wk s' x) = 0"
      by blast
    with e show ?thesis by (intro exI [of _ "e # es"] exI [of _ s']) simp
  qed
qed

text \<open>
  C8. Draining ends: while the polling goroutine is paused, the workers can take only
  finitely many steps, as many as \<open>workLeft\<close> counts, and whichever they take, they are not
  stuck before everything that was accepted has been taken up, every worker \<open>DrainWorkers\<close>
  waits for is inactive, no key has a worker and the guard channels are empty.
\<close>

theorem workers_drain:
  assumes "marksOverflow nx" "list_all (okEvent nx) es0" "demuxRun nx c overflowCap es0 (NewDemux c overflowCap) = Some s"
    "sender s = Polling" "list_all workerEvent es" "demuxRun nx c overflowCap es s = Some s'"
  shows "length es \<le> workLeft s \<and>
    ((\<exists>e s''. workerEvent e \<and> demuxStep nx c overflowCap e s' = Some s'') \<or>
     (\<forall>k. keyed k (taken s') = keyed k (accepted s)) \<and> list_all (\<lambda>x. Drain x s') (DrainWorkers c s) \<and>
     DrainWorkers c s' = [] \<and> guardLen s' = 0 \<and> overflowLen s' = 0)"
proof -
  have inv: "demux_inv nx c overflowCap s" by (rule demuxRun_inv [OF NewDemux_inv assms(1-3)])
  note run = worker_run [OF inv assms(1,5,6)]
  then have len: "length es \<le> workLeft s" by (meson add_leD1)
  from run have inv': "demux_inv nx c overflowCap s'" and p: "sender s' = Polling" using assms(4) by auto
  show ?thesis
  proof (cases "\<exists>e s''. workerEvent e \<and> demuxStep nx c overflowCap e s' = Some s''")
    case False
    then have "effort (wk s' x) = 0" if "x < fresh s'" for x
      using worker_progress [OF inv' that] by blast
    note r = atRest [OF inv' p this]
    have "Drain x s'" if x: "x \<in> set (DrainWorkers c s)" for x
    proof -
      from x obtain i k where k: "(k, x) \<in> set (workers (shards s i))" by (auto simp: DrainWorkers_def)
      then have "owner c s k = Some x" using demux_invD(5) [OF inv, of i] by (auto simp: shard_ok_def owner_def)
      then have "x \<in> ran (owner c s)" by (rule ranI)
      moreover have "x \<notin> ran (owner c s')" using r(1) by (auto simp: ran_def)
      ultimately show ?thesis using run by (auto simp: Drain_def)
    qed
    then have "list_all (\<lambda>x. Drain x s') (DrainWorkers c s)" by (simp add: list_all_iff)
    moreover have "DrainWorkers c s' = []" using r(5) by (simp add: DrainWorkers_def)
    moreover have "keyed k (taken s') = keyed k (accepted s)" for k using r(4) [of k] run by simp
    ultimately show ?thesis using len r(2,3) by blast
  qed (use len in blast)
qed

section \<open>A run with three keys and the overflow guard\<close>

definition exSmall :: DemuxConfig where
  "exSmall = \<lparr>ConcurrentKeys = 2, PerKeyBufferLen = 2, PollTimeout = 100, AutoCommitInterval = 5, DrainTimeout = 20,
     AwaitAssignmentsTimeout = 50, CommitIngestChannelLen = 1000, CommitPartitionSliceLen = 400, QueryTimeout = 5,
     AcquireWorkerTimeoutCircuitBreaker = 60, WorkerShardsCount = 2, RebalancePausePollingTimeout = 30,
     AcquireCommitGuardTimeout = 10\<rparr>"

definition exKeyed :: "string \<Rightarrow> nat \<Rightarrow> unit work_item" where
  "exKeyed key a = (exItem a 0 (int a) (int a - 1) False)
     \<lparr>wi_Message := \<lparr>msg_Key = key, msg_Partition = 0, msg_Offset = int a, msg_Traits = 0, msg_Payload = None\<rparr>\<rparr>"

definition exFan :: "unit event list" where
  "exFan = [Poll (exKeyed ''a'' 1), TrySend False, HandOver, Poll (exKeyed ''a'' 2), TrySend False, Release, Receive 0,
     Poll (exKeyed ''b'' 3), TrySend False, HandOver, Receive 1,
     Poll (exKeyed ''d'' 4), Wake WakeOverflow, TrySend False, HandOver, Receive 2]"

definition exTimes :: call_times where
  "exTimes = \<lparr>ct_start = 1, ct_finish = 2, ct_now = 3\<rparr>"

definition exRest :: "unit event list" where
  "exRest = [Finish 2 exTimes Returned Returned, FallThrough 2, Finish 0 exTimes (Failed ''no'') Returned, Receive 0,
     Retire 2, Finish 0 exTimes Returned Returned, FreeToken 2, ReturnSelf 2, FallThrough 0, Retire 0, FreeToken 0,
     ReturnSelf 0]"

definition exFanned :: "unit demux" where
  "exFanned = the (demuxRun exNexus exSmall 1 exFan (NewDemux exSmall 1))"

definition exRested :: "unit demux" where
  "exRested = the (demuxRun exNexus exSmall 1 exRest exFanned)"

lemma exFanned_run: "demuxRun exNexus exSmall 1 exFan (NewDemux exSmall 1) = Some exFanned"
proof -
  have "demuxRun exNexus exSmall 1 exFan (NewDemux exSmall 1) \<noteq> None" by code_simp
  then show ?thesis by (auto simp: exFanned_def)
qed

lemma exRested_run: "demuxRun exNexus exSmall 1 exRest exFanned = Some exRested"
proof -
  have "demuxRun exNexus exSmall 1 exRest exFanned \<noteq> None" by code_simp
  then show ?thesis by (auto simp: exRested_def)
qed

lemma exNexus_marks: "marksOverflow exNexus"
proof -
  have "(t OR 8) AND 8 = (8 :: traits)" for t by (rule bit_eqI) (auto simp: bit_simps)
  then show ?thesis by (simp add: marksOverflow_def exNexus_def)
qed

lemma exFan_ok: "list_all (okEvent exNexus) exFan"
  by code_simp

theorem per_key_order_witness:
  "map wi_ptr (keyed ''a'' (accepted exFanned)) = [1, 2] \<and> map wi_ptr (keyed ''a'' (taken exFanned)) = [1] \<and>
   (\<exists>rest. keyed ''a'' (accepted exFanned) = keyed ''a'' (taken exFanned) @ rest)"
proof -
  have "map wi_ptr (keyed ''a'' (accepted exFanned)) = [1, 2] \<and> map wi_ptr (keyed ''a'' (taken exFanned)) = [1]"
    by code_simp
  with per_key_order [OF exNexus_marks exFan_ok exFanned_run] show ?thesis by blast
qed

theorem concurrency_bounded_witness:
  "length (processing exFanned) = 3 \<and> length (processing exFanned) \<le> guardLen exFanned + overflowLen exFanned \<and>
   guardLen exFanned = 2 \<and> overflowLen exFanned = 1"
proof -
  have "length (processing exFanned) = 3 \<and> guardLen exFanned = 2 \<and> overflowLen exFanned = 1" by code_simp
  with concurrency_bounded [OF exNexus_marks exFan_ok exFanned_run] show ?thesis by blast
qed

theorem workers_drain_witness:
  "DrainWorkers exSmall exFanned = [0, 1, 2] \<and> Drain 0 exRested \<and> Drain 2 exRested \<and> length exRest \<le> workLeft exFanned \<and>
   (\<exists>e s. workerEvent e \<and> demuxStep exNexus exSmall 1 e exRested = Some s)"
proof -
  have d: "DrainWorkers exSmall exFanned = [0, 1, 2]" "Drain 0 exRested" "Drain 2 exRested" "DrainWorkers exSmall exRested \<noteq> []"
    by code_simp+
  have p: "sender exFanned = Polling" and w: "list_all workerEvent exRest" by code_simp+
  from workers_drain [OF exNexus_marks exFan_ok exFanned_run p w exRested_run] d show ?thesis by blast
qed

end
