(* ===== verification/Subscription.thy ===== *)
theory Subscription
  imports Commit_Watermark Processor Circuit_Breaker
begin

text \<open>
  The drain coordinator (demux/drain/drain_coordinator.go) and the rebalance side of the
  subscription (demux/subscription). The broker's acknowledgement callback is its result,
  and every call of it is recorded with the state the engine is in at that moment, because
  the order of resets, ownership marks and acknowledgement is what rebalance safety rests
  on. \<open>render\<close> turns an error into the text the circuit breaker reports.
\<close>

section \<open>The drain coordinator\<close>

datatype coordinator_error = WorkersDrainTimeout | CommitterDrainFailed drain_error

text \<open>
  What happens while a drain waits: the items workers complete meanwhile, whether they all
  did before the timer, and the environment of the final commit.
\<close>

record 'a drain_env =
  de_arrivals :: "'a work_item list"
  de_workersDone :: bool
  de_now :: time
  de_broker :: "'a message list \<Rightarrow> string option"
  de_acquired :: bool
  de_timeoutAfter :: "nat option"

definition drainWorkers :: "'a drain_env \<Rightarrow> 'a committer \<Rightarrow> coordinator_error option \<times> 'a committer" where
  "drainWorkers env oc =
     (if de_workersDone env then None else Some WorkersDrainTimeout,
      fold CollectAndCommit (de_arrivals env) oc)"

definition drainCommitter ::
  "nexus \<Rightarrow> 'a drain_env \<Rightarrow> 'a committer \<Rightarrow> coordinator_error option \<times> 'a message list \<times> 'a committer" where
  "drainCommitter nx env oc =
     (let (err, sent, oc') =
        DrainCommitter nx (de_now env) (de_broker env) (de_acquired env) (de_timeoutAfter env) oc
      in (map_option CommitterDrainFailed err, sent, oc'))"

definition CoordinatorDrain ::
  "nexus \<Rightarrow> (coordinator_error \<Rightarrow> string) \<Rightarrow> 'a drain_env \<Rightarrow> 'a committer \<Rightarrow> CircuitBreaker \<Rightarrow>
   coordinator_error option \<times> 'a message list \<times> 'a committer \<times> CircuitBreaker" where
  "CoordinatorDrain nx render env oc cb =
     (let (err1, oc1) = drainWorkers env oc;
          (err, sent, oc2) = (if err1 \<noteq> None then (err1, [], oc1) else drainCommitter nx env oc1)
      in (err, sent, oc2,
          case err of Some e \<Rightarrow> TriggerEmergencyShutdown (Some (render e)) cb | None \<Rightarrow> cb))"

definition ImmediateCommit ::
  "nexus \<Rightarrow> time \<Rightarrow> ('a message list \<Rightarrow> string option) \<Rightarrow> bool \<Rightarrow> 'a committer \<Rightarrow>
   commit_error option \<times> 'a message list \<times> 'a committer" where
  "ImmediateCommit nx now broker acquired oc = CommitOffsets nx now broker acquired oc"

section \<open>The subscription\<close>

record rebalance_info =
  ri_TopicName :: string
  ri_Partition :: partition
  ri_CommittedOffset :: int

record 'a ack_call =
  ack_type :: RebalanceType
  ack_info :: "rebalance_info list"
  ack_committer :: "'a committer"
  ack_prevs :: PartitionOffsets

record 'a subscription =
  topicName :: string
  signalAssigned :: bool
  sub_prevs :: PartitionOffsets
  sub_committer :: "'a committer"
  sub_breaker :: CircuitBreaker
  sub_acks :: "'a ack_call list"

definition NewSubscription :: "string \<Rightarrow> PartitionOffsets \<Rightarrow> 'a committer \<Rightarrow> CircuitBreaker \<Rightarrow> 'a subscription" where
  "NewSubscription topic prevs oc cb = \<lparr>topicName = topic, signalAssigned = False, sub_prevs = prevs,
     sub_committer = oc, sub_breaker = cb, sub_acks = []\<rparr>"

datatype DrainBehaviour =
  SyncPollingAlreadyStopped | AsyncStopPollingBeforeDrain | ShutdownStopPollingBeforeDrain

text \<open>
  \<open>drain\<close>. \<open>answered\<close> is whether the polling loop took the stop or pause signal before the
  timeout. A paused loop is resumed when the function returns.
\<close>

definition sub_drain ::
  "nexus \<Rightarrow> (coordinator_error \<Rightarrow> string) \<Rightarrow> 'a drain_env \<Rightarrow> bool \<Rightarrow> DrainBehaviour \<Rightarrow> 'a subscription \<Rightarrow> 'a subscription" where
  "sub_drain nx render env answered drainBehaviour s =
     (if drainBehaviour = AsyncStopPollingBeforeDrain \<and> \<not> answered then
        s\<lparr>sub_breaker := TriggerEmergencyShutdown (Some ''timeout waiting for polling to pause'') (sub_breaker s)\<rparr>
      else
        (let (err, sent, oc, cb) = CoordinatorDrain nx render env (sub_committer s) (sub_breaker s)
         in s\<lparr>sub_committer := oc, sub_breaker := cb\<rparr>))"

definition resetFirstSeen :: "rebalance_info list \<Rightarrow> 'a subscription \<Rightarrow> 'a subscription" where
  "resetFirstSeen infos s = s\<lparr>sub_prevs := ResetPrevOffsets (map ri_Partition infos) (sub_prevs s)\<rparr>"

definition partitionOffsetsOf :: "rebalance_info list \<Rightarrow> (partition \<times> int) list" where
  "partitionOffsetsOf infos = fold (\<lambda>r. AList.update (ri_Partition r) (ri_CommittedOffset r)) infos []"

definition resetCommittedOffsetsFromRebalanceInfo :: "nexus \<Rightarrow> rebalance_info list \<Rightarrow> 'a subscription \<Rightarrow> 'a subscription" where
  "resetCommittedOffsetsFromRebalanceInfo nx infos s =
     s\<lparr>sub_committer := ResetCommittedOffsets nx (partitionOffsetsOf infos) (sub_committer s)\<rparr>"

datatype rebalance_error =
    ForeignTopic string string
  | AckError string
  | UnsupportedRebalanceType int

definition foreign :: "string \<Rightarrow> rebalance_info \<Rightarrow> bool" where
  "foreign topic r \<longleftrightarrow> ri_TopicName r \<noteq> '''' \<and> ri_TopicName r \<noteq> topic"

definition ackRebalance ::
  "string option \<Rightarrow> RebalanceType \<Rightarrow> rebalance_info list \<Rightarrow> 'a subscription \<Rightarrow> rebalance_error option \<times> 'a subscription" where
  "ackRebalance answer rebalanceType infos s =
     (map_option AckError answer,
      s\<lparr>sub_acks := sub_acks s @ [\<lparr>ack_type = rebalanceType, ack_info = infos,
          ack_committer = sub_committer s, ack_prevs = sub_prevs s\<rparr>]\<rparr>)"

definition HandleRebalance ::
  "nexus \<Rightarrow> (coordinator_error \<Rightarrow> string) \<Rightarrow> (rebalance_error \<Rightarrow> string) \<Rightarrow> time \<Rightarrow> 'a drain_env \<Rightarrow> string option \<Rightarrow>
   RebalanceType \<Rightarrow> rebalance_info list \<Rightarrow> 'a subscription \<Rightarrow> rebalance_error option \<times> 'a subscription" where
  "HandleRebalance nx render renderR now env answer rebalanceType infos s =
     (case find (foreign (topicName s)) infos of
        Some r \<Rightarrow>
          (let err = ForeignTopic (ri_TopicName r) (topicName s) in
           (Some err, s\<lparr>sub_breaker := TriggerEmergencyShutdown (Some (renderR err)) (sub_breaker s)\<rparr>))
      | None \<Rightarrow>
          (case rebalanceType of
             Assign \<Rightarrow>
               (let s1 = s\<lparr>signalAssigned := True\<rparr>;
                    s2 = resetCommittedOffsetsFromRebalanceInfo nx infos (resetFirstSeen infos s1);
                    s3 = s2\<lparr>sub_committer := fold (\<lambda>r. MarkPartitionAssigned now (ri_Partition r)) infos (sub_committer s2)\<rparr>
                in ackRebalance answer rebalanceType infos s3)
           | Revoke \<Rightarrow>
               (let s1 = s\<lparr>signalAssigned := False\<rparr>;
                    s2 = sub_drain nx render env True SyncPollingAlreadyStopped s1;
                    s3 = s2\<lparr>sub_committer := fold (\<lambda>r. MarkPartitionRevoked now (ri_Partition r)) infos (sub_committer s2)\<rparr>
                in ackRebalance answer rebalanceType infos s3)
           | OtherRebalance t \<Rightarrow> (Some (UnsupportedRebalanceType t), s)))"

definition Unsubscribe ::
  "nexus \<Rightarrow> (coordinator_error \<Rightarrow> string) \<Rightarrow> 'a drain_env \<Rightarrow> bool \<Rightarrow> string option \<Rightarrow> 'a subscription \<Rightarrow>
   string option \<times> 'a subscription" where
  "Unsubscribe nx render env answered result s =
     (result, sub_drain nx render env answered ShutdownStopPollingBeforeDrain s)"

section \<open>The state an acknowledgement sees\<close>

lemma resetTracker_fields:
  "CommittedPlusOne (fst (resetTracker nx b ot)) = b" "Assignment (fst (resetTracker nx b ot)) = Assign"
  by (auto simp: resetTracker_def baselineTracker_def Let_def split: option.split if_splits prod.split)

lemma resetPartitions_lookup:
  "distinct (map fst pbs) \<Longrightarrow> map_of (PartitionMap (resetPartitions nx pbs oc)) p =
     (case map_of pbs p of None \<Rightarrow> map_of (PartitionMap oc) p
      | Some b \<Rightarrow> Some (fst (resetTracker nx b (map_of (PartitionMap oc) p))))"
proof (induction pbs arbitrary: oc)
  case (Cons pb pbs)
  obtain q b where pb: "pb = (q, b)" by fastforce
  from Cons.prems pb have "map_of pbs q = None" "distinct (map fst pbs)" by (simp_all add: map_of_eq_None_iff)
  with Cons.IH pb show ?case by (simp add: Let_def case_prod_beta update_conv' split: option.split)
qed simp

lemma partitionOffsetsOf_distinct: "distinct (map fst (partitionOffsetsOf infos))"
  unfolding partitionOffsetsOf_def by (induction infos rule: rev_induct) (simp_all add: distinct_update)

text \<open>When an event names a partition twice, the last entry counts.\<close>

definition announced :: "partition \<Rightarrow> rebalance_info list \<Rightarrow> int" where
  "announced p infos = ri_CommittedOffset (last (filter (\<lambda>r. ri_Partition r = p) infos))"

lemma partitionOffsetsOf_lookup:
  "map_of (partitionOffsetsOf infos) p =
     (if p \<in> ri_Partition ` set infos then Some (announced p infos) else None)"
  unfolding partitionOffsetsOf_def announced_def
  by (induction infos rule: rev_induct) (auto simp: update_conv')

lemma fold_assigned [simp]:
  "assigned (fold (\<lambda>r. MarkPartitionAssigned now (ri_Partition r)) infos oc) = assigned oc \<union> ri_Partition ` set infos"
  "PartitionMap (fold (\<lambda>r. MarkPartitionAssigned now (ri_Partition r)) infos oc) = PartitionMap oc"
  by (induction infos arbitrary: oc) (auto simp: MarkPartitionAssigned_def)

lemma fold_revoked [simp]:
  "assigned (fold (\<lambda>r. MarkPartitionRevoked now (ri_Partition r)) infos oc) = assigned oc - ri_Partition ` set infos"
  by (induction infos arbitrary: oc) (auto simp: MarkPartitionRevoked_def)

lemma MarkPartitionRevoked_lookup:
  "map_of (PartitionMap (MarkPartitionRevoked now q oc)) p =
     (if p = q then map_option (\<lambda>t. t\<lparr>Assignment := Revoke\<rparr>) (map_of (PartitionMap oc) p)
      else map_of (PartitionMap oc) p)"
  by (auto simp: MarkPartitionRevoked_def update_conv' split: option.split)

lemma fold_revoked_lookup:
  "map_of (PartitionMap (fold (\<lambda>r. MarkPartitionRevoked now (ri_Partition r)) infos oc)) p =
     (if p \<in> ri_Partition ` set infos then map_option (\<lambda>t. t\<lparr>Assignment := Revoke\<rparr>) (map_of (PartitionMap oc) p)
      else map_of (PartitionMap oc) p)"
  by (induction infos arbitrary: oc) (auto simp: MarkPartitionRevoked_lookup option.map_comp comp_def)

lemma fold_revoked_baseline [simp]:
  "baseline (fold (\<lambda>r. MarkPartitionRevoked now (ri_Partition r)) infos oc) = baseline oc"
  by (auto simp: baseline_def fun_eq_iff fold_revoked_lookup split: option.split)

lemma no_foreign: "(\<And>r. r \<in> set infos \<Longrightarrow> \<not> foreign topic r) \<Longrightarrow> find (foreign topic) infos = None"
  by (simp add: find_None_iff)

lemma sub_drain_frame [simp]:
  "sub_acks (sub_drain nx render env a b s) = sub_acks s" "sub_prevs (sub_drain nx render env a b s) = sub_prevs s"
  "topicName (sub_drain nx render env a b s) = topicName s"
  by (simp_all add: sub_drain_def Let_def case_prod_beta)

text \<open>The acknowledged events.\<close>

lemma rebalance_acknowledged:
  assumes "\<And>r. r \<in> set infos \<Longrightarrow> \<not> foreign (topicName s) r" "t = Assign \<or> t = Revoke"
    "HandleRebalance nx render renderR now env answer t infos s = (err, s')"
  shows "err = map_option AckError answer \<and>
    (\<exists>a. sub_acks s' = sub_acks s @ [a] \<and> ack_type a = t \<and> ack_info a = infos \<and> ack_committer a = sub_committer s' \<and>
      (\<forall>r \<in> set infos.
        (t = Assign \<longrightarrow> ri_Partition r \<in> assigned (ack_committer a) \<and>
           baseline (ack_committer a) (ri_Partition r) = announced (ri_Partition r) infos \<and>
           map_of (ack_prevs a) (ri_Partition r) = None) \<and>
        (t = Revoke \<longrightarrow> ri_Partition r \<notin> assigned (ack_committer a) \<and>
           (\<forall>tr. map_of (PartitionMap (ack_committer a)) (ri_Partition r) = Some tr \<longrightarrow> Assignment tr = Revoke))))"
proof -
  have f: "find (foreign (topicName s)) infos = None" by (rule no_foreign [OF assms(1)])
  from assms(2) show ?thesis
  proof
    assume t: "t = Assign"
    have "baseline (ResetCommittedOffsets nx (partitionOffsetsOf infos) (sub_committer s)) (ri_Partition r) =
        announced (ri_Partition r) infos" if "r \<in> set infos" for r
      using that by (auto simp: baseline_def ResetCommittedOffsets_def resetPartitions_lookup
          partitionOffsetsOf_distinct partitionOffsetsOf_lookup resetTracker_fields)
    with assms(3) f t show ?thesis
      by (auto simp: HandleRebalance_def ackRebalance_def Let_def resetCommittedOffsetsFromRebalanceInfo_def
          resetFirstSeen_def ResetPrevOffsets_def Reset_lookup baseline_def)
  next
    assume t: "t = Revoke"
    with assms(3) f show ?thesis
      by (auto simp: HandleRebalance_def ackRebalance_def Let_def fold_revoked_lookup)
  qed
qed

text \<open>The refused ones.\<close>

lemma rebalance_rejected:
  assumes "HandleRebalance nx render renderR now env answer t infos s = (err, s')"
  shows "(list_ex (foreign (topicName s)) infos \<longrightarrow>
      (\<exists>e. err = Some e \<and> s' = s\<lparr>sub_breaker := TriggerEmergencyShutdown (Some (renderR e)) (sub_breaker s)\<rparr>)) \<and>
    (\<not> list_ex (foreign (topicName s)) infos \<and> t = OtherRebalance k \<longrightarrow>
      err = Some (UnsupportedRebalanceType k) \<and> s' = s)"
proof (cases "find (foreign (topicName s)) infos")
  case None
  then have "\<not> list_ex (foreign (topicName s)) infos" by (simp add: find_None_iff list_ex_iff)
  with None assms show ?thesis by (auto simp: HandleRebalance_def)
next
  case (Some r)
  then have "list_ex (foreign (topicName s)) infos" by (auto simp: find_Some_iff list_ex_iff)
  with Some assms show ?thesis by (auto simp: HandleRebalance_def Let_def)
qed



section \<open>Rebalances on a concrete subscription\<close>

definition exInfo :: "partition \<Rightarrow> int \<Rightarrow> rebalance_info" where
  "exInfo p k = \<lparr>ri_TopicName = ''orders'', ri_Partition = p, ri_CommittedOffset = k\<rparr>"

definition exSub :: "unit subscription" where
  "exSub = \<lparr>topicName = ''orders'', signalAssigned = False, sub_prevs = [(0, 5)], sub_committer = exOwner,
     sub_breaker = NewCircuitBreaker, sub_acks = []\<rparr>"

definition exEnv :: "unit drain_env" where
  "exEnv = \<lparr>de_arrivals = exArrivals, de_workersDone = True, de_now = 40, de_broker = (\<lambda>_. None),
     de_acquired = True, de_timeoutAfter = None\<rparr>"

definition exRebalance :: "RebalanceType \<Rightarrow> rebalance_info list \<Rightarrow> unit subscription \<Rightarrow> rebalance_error option \<times> unit subscription" where
  "exRebalance t infos s = HandleRebalance exNexus (\<lambda>_. ''drain'') (\<lambda>_. ''topic'') 50 exEnv None t infos s"



text \<open>
  An assignment event that names no partition resets the predecessor tracking of all of
  them, because \<open>Reset\<close> without arguments means everything. Message 5 of partition 0 is in
  flight when such an event arrives; message 6 is then stamped as the first of an epoch, and
  once it completes a tick offers offset 6 although 5 has not completed.
\<close>

definition exAfterEmpty :: "unit subscription" where
  "exAfterEmpty = snd (exRebalance Assign [] exSub)"

definition exSkipped :: "unit work_item" where
  "exSkipped = (case GetPrevious 0 6 (sub_prevs exAfterEmpty) of
      (Inr (prev, first), _) \<Rightarrow> exItem 9 0 6 prev first
    | _ \<Rightarrow> exItem 9 0 6 (-1) False)"

lemma empty_assign_skips_message:
  "map_of (sub_prevs exSub) 0 = Some 5 \<and>
   map msg_Offset (fst (snd (CommitOffsets exNexus 40 (\<lambda>_. None) True
     (ingestBatch exNexus 30 (CollectAndCommit exSkipped (sub_committer exAfterEmpty)))))) = [6]"
  by code_simp

end
