(* ===== verification/Polling_Loop.thy ===== *)
theory Polling_Loop
  imports Circuit_Breaker
begin

text \<open>
  The polling loop (demux/subscription/subscription_polling_loop.go). An input of the loop is
  what its selects and its poll find in one iteration: a request to pause or resume, the
  cancelled context, a request to stop, or the result of a poll with the clock readings that
  follow it. \<open>processMessage\<close> is the pipeline's entry, which returns an error or nothing.
\<close>

section \<open>The loop\<close>

datatype poll_mode = Running | Paused | Stopped

datatype 'a poll_input =
    PausePolling
  | ResumePolling
  | StopPolling
  | ContextCancelled
  | Polled 'a time time
  | PollFailed string
  | PollEmpty

record 'a poll_loop =
  pl_mode :: poll_mode
  pl_now :: time
  pl_forwarded :: "('a \<times> time) list"
  pl_breaker :: CircuitBreaker

definition NewPollLoop :: "time \<Rightarrow> CircuitBreaker \<Rightarrow> 'a poll_loop" where
  "NewPollLoop now cb = \<lparr>pl_mode = Running, pl_now = now, pl_forwarded = [], pl_breaker = cb\<rparr>"

text \<open>
  The read time the loop derives: \<open>t\<close> is the clock at \<open>time.Since\<close> and \<open>t'\<close> the clock at
  the refresh that follows when more than a second has passed.
\<close>

definition readTime :: "time \<Rightarrow> time \<Rightarrow> time \<Rightarrow> time \<times> time" where
  "readTime now t t' =
     (let delta = t - now;
          (now1, delta1) = (if delta > second then (t', 0) else (now, delta))
      in (now1, now1 + delta1))"

text \<open>
  One iteration. A polled message is looked at only when neither the pause request nor the
  cancelled context was found before it.
\<close>

definition pollStep :: "('a \<Rightarrow> time \<Rightarrow> string option) \<Rightarrow> 'a poll_input \<Rightarrow> 'a poll_loop \<Rightarrow> 'a poll_loop" where
  "pollStep processMessage inp s =
     (case pl_mode s of
        Stopped \<Rightarrow> s
      | Paused \<Rightarrow> (case inp of ResumePolling \<Rightarrow> s\<lparr>pl_mode := Running\<rparr> | _ \<Rightarrow> s)
      | Running \<Rightarrow>
          (if inp = PausePolling then s\<lparr>pl_mode := Paused\<rparr>
           else if MainCtxDone (pl_breaker s) then s\<lparr>pl_mode := Stopped\<rparr>
           else
             (case inp of
                ContextCancelled \<Rightarrow> s\<lparr>pl_mode := Stopped\<rparr>
              | StopPolling \<Rightarrow> s\<lparr>pl_mode := Stopped\<rparr>
              | Polled x t t' \<Rightarrow>
                  (let (now, rt) = readTime (pl_now s) t t';
                       s1 = s\<lparr>pl_now := now, pl_forwarded := pl_forwarded s @ [(x, rt)]\<rparr>
                   in case processMessage x rt of
                        Some e \<Rightarrow> s1\<lparr>pl_mode := Stopped, pl_breaker := TriggerEmergencyShutdown (Some e) (pl_breaker s)\<rparr>
                      | None \<Rightarrow> s1)
              | _ \<Rightarrow> s)))"

definition PollAndForward :: "('a \<Rightarrow> time \<Rightarrow> string option) \<Rightarrow> 'a poll_input list \<Rightarrow> 'a poll_loop \<Rightarrow> 'a poll_loop" where
  "PollAndForward processMessage inps s = fold (pollStep processMessage) inps s"

section \<open>What is forwarded\<close>

lemma readTime_clock: "readTime now t t' = (now1, rt) \<Longrightarrow> rt = t \<or> rt = t' \<and> t - now > second"
  by (auto simp: readTime_def Let_def split: if_splits)

lemma stopped_stays: "pl_mode s = Stopped \<Longrightarrow> PollAndForward f inps s = s"
  unfolding PollAndForward_def by (induction inps) (simp_all add: pollStep_def)

lemma paused_holds:
  "pl_mode s = Paused \<Longrightarrow> ResumePolling \<notin> set inps \<Longrightarrow> PollAndForward f inps s = s"
  unfolding PollAndForward_def by (induction inps) (auto simp: pollStep_def split: poll_input.split)

text \<open>
  The state the loop keeps: every message it forwarded but the last was accepted by the
  pipeline, and once one was refused the loop has stopped with the breaker tripped.
\<close>

definition poll_inv :: "('a \<Rightarrow> time \<Rightarrow> string option) \<Rightarrow> 'a poll_loop \<Rightarrow> bool" where
  "poll_inv f s \<longleftrightarrow> (\<forall>(x, rt) \<in> set (butlast (pl_forwarded s)). f x rt = None) \<and>
     (pl_forwarded s \<noteq> [] \<and> (\<exists>e. f (fst (last (pl_forwarded s))) (snd (last (pl_forwarded s))) = Some e) \<longrightarrow>
        pl_mode s = Stopped \<and> cb_tripped (pl_breaker s))"

lemma Trigger_cb_tripped:
  "breaker_wf cb \<Longrightarrow> cb_tripped (TriggerEmergencyShutdown r cb)"
  by (auto simp: breaker_wf_def TriggerEmergencyShutdown_def NewCircuitBreaker_def Let_def)

lemma pollStep_inv:
  assumes "poll_inv f s \<and> breaker_wf (pl_breaker s)"
  shows "poll_inv f (pollStep f inp s) \<and> breaker_wf (pl_breaker (pollStep f inp s))"
proof (cases "pl_mode s = Running \<and> inp \<noteq> PausePolling \<and> \<not> MainCtxDone (pl_breaker s)")
  case False
  with assms show ?thesis
    by (cases "pl_mode s") (auto simp: pollStep_def poll_inv_def split: poll_input.split)
next
  case True
  show ?thesis
  proof (cases inp)
    case (Polled x t t')
    obtain now rt where rt: "readTime (pl_now s) t t' = (now, rt)" by fastforce
    have ok: "\<forall>(y, r) \<in> set (pl_forwarded s). f y r = None"
    proof (cases "pl_forwarded s" rule: rev_cases)
      case (snoc ys y)
      with assms True have "f (fst y) (snd y) = None" by (auto simp: poll_inv_def)
      with snoc assms show ?thesis by (auto simp: poll_inv_def)
    qed simp
    show ?thesis
    proof (cases "f x rt")
      case None
      with Polled True rt assms ok show ?thesis by (auto simp: pollStep_def poll_inv_def)
    next
      case (Some e)
      with Polled True rt assms ok show ?thesis
        by (auto simp: pollStep_def poll_inv_def Trigger_wf Trigger_cb_tripped)
    qed
  qed (use True assms in \<open>auto simp: pollStep_def poll_inv_def\<close>)
qed

interpretation polling: step_system "pollStep f" "\<lambda>_ _. True" "\<lambda>s. poll_inv f s \<and> breaker_wf (pl_breaker s)" for f
  by unfold_locales (rule pollStep_inv)

lemma polling_ok: "polling.run_ok f inps s"
  by (induction inps arbitrary: s) simp_all

text \<open>
  A paused loop forwards nothing until it is resumed and a stopped one nothing ever, and the
  read time a message gets is the clock reading of its own iteration.
\<close>

lemma poll_holds:
  "(pl_mode s = Stopped \<longrightarrow> pl_forwarded (PollAndForward f inps s) = pl_forwarded s) \<and>
   (pl_mode s = Paused \<and> ResumePolling \<notin> set inps \<longrightarrow> PollAndForward f inps s = s) \<and>
   (pl_mode s \<noteq> Stopped \<and> MainCtxDone (pl_breaker s) \<longrightarrow> pl_forwarded (pollStep f inp s) = pl_forwarded s) \<and>
   (\<forall>rt. pl_forwarded (pollStep f (Polled x t t') s) = pl_forwarded s @ [(x, rt)] \<longrightarrow>
      rt = t \<or> rt = t' \<and> t - pl_now s > second)"
proof -
  have "rt = t \<or> rt = t' \<and> t - pl_now s > second"
    if "pl_forwarded (pollStep f (Polled x t t') s) = pl_forwarded s @ [(x, rt)]" for rt
    using that by (auto simp: pollStep_def readTime_def Let_def split: poll_mode.splits if_splits option.splits)
  moreover have "pl_forwarded (pollStep f inp s) = pl_forwarded s" if "MainCtxDone (pl_breaker s)"
    using that by (auto simp: pollStep_def split: poll_mode.split poll_input.split)
  ultimately show ?thesis by (auto simp: stopped_stays paused_holds)
qed


section \<open>A loop that meets a refusal\<close>

definition exProcess :: "nat \<Rightarrow> time \<Rightarrow> string option" where
  "exProcess x rt = (if x = 7 then Some ''refused'' else None)"

definition exPoll :: "nat poll_loop" where
  "exPoll = PollAndForward exProcess
     [Polled 5 10 11, PausePolling, Polled 6 12 13, ResumePolling, Polled 7 14 15, Polled 8 16 17]
     (NewPollLoop 0 NewCircuitBreaker)"


end
