(* ===== verification/Consumer_Lifecycle.thy ===== *)
theory Consumer_Lifecycle
  imports Circuit_Breaker
begin

text \<open>
  The life of a consumer (demux/demux_consumer.go, demux_consumer_shutdown.go and
  demux_consumer_emergency.go): subscription, graceful shutdown, and the goroutine that
  watches for an emergency. What matters is how they share the delivery of the host's
  shutdown callback; a step is one operation on the channels and atomic pointers they
  share. Waiting for the drain is the result of \<open>Unsubscribe\<close>.
\<close>

section \<open>State\<close>

datatype callback = DefaultCallback | HostCallback nat

datatype watcher =
    Parked
  | Received string
  | Stored string
  | Loaded string callback
  | Claimed string callback
  | ExitedTrip
  | ExitedGraceful

datatype shutdown_call =
    NotCalled
  | Unsubscribing callback
  | Claiming callback
  | Delivering callback
  | Signalling
  | Returned "string option"

datatype process_action = Sleep | SendInterrupt | ExitProcess

datatype signal_outcome = Interrupted | SignalFailed | ProcessNotFound

record consumer =
  con_breaker :: CircuitBreaker
  shutdownCallback :: "callback option"
  notifySlot :: bool
  gracefulDone :: bool
  emergencyReason :: "string option"
  watcherAt :: watcher
  calls :: "nat \<Rightarrow> shutdown_call"
  rateLimitStopped :: bool
  metricsStarted :: bool
  bandwidthStarted :: "bool option"
  pollingStarted :: bool
  forced :: "process_action list"
  notified :: "(callback \<times> string option) list"

text \<open>
  \<open>calls i\<close> is where the \<open>i\<close>th caller of \<open>Shutdown\<close> is; \<open>notified\<close> are the invocations of the
  shutdown callback with their reasons, \<open>forced\<close> what \<open>Subscribe\<close> did to the process by running
  the default callback itself, because the unsubscribe of a failed start hung, and
  \<open>bandwidthStarted\<close> is \<open>None\<close> when no bandwidth aggregator is configured. The breaker's message waits in
  \<open>cb_emergencyShutdown\<close> until the watcher takes it.
\<close>

definition NewConsumer :: "callback option \<Rightarrow> bool \<Rightarrow> consumer" where
  "NewConsumer cb withBandwidth = \<lparr>con_breaker = NewCircuitBreaker, shutdownCallback = cb, notifySlot = False,
     gracefulDone = False, emergencyReason = None, watcherAt = Parked, calls = (\<lambda>_. NotCalled),
     rateLimitStopped = False, metricsStarted = False,
     bandwidthStarted = (if withBandwidth then Some False else None), pollingStarted = False, forced = [], notified = []\<rparr>"

section \<open>Operations\<close>

text \<open>
  The default callback: nothing but a log line for a graceful exit; for an emergency it waits
  for the log agents and interrupts its own process, and exits hard if it cannot.
\<close>

definition defaultShutdownCallback :: "string option \<Rightarrow> signal_outcome \<Rightarrow> process_action list" where
  "defaultShutdownCallback reason os =
     (case reason of
        None \<Rightarrow> []
      | Some _ \<Rightarrow>
          Sleep # (case os of
            Interrupted \<Rightarrow> [SendInterrupt]
          | SignalFailed \<Rightarrow> [SendInterrupt, Sleep, ExitProcess]
          | ProcessNotFound \<Rightarrow> [Sleep, ExitProcess]))"

definition EmergencyShutdown :: "string option \<Rightarrow> consumer \<Rightarrow> consumer" where
  "EmergencyShutdown reason s = s\<lparr>con_breaker := TriggerEmergencyShutdown reason (con_breaker s)\<rparr>"

definition RegisterShutdownCallback :: "callback \<Rightarrow> consumer \<Rightarrow> consumer" where
  "RegisterShutdownCallback cb s = s\<lparr>shutdownCallback := Some cb\<rparr>"

definition claimNotify :: "consumer \<Rightarrow> bool \<times> consumer" where
  "claimNotify s = (if notifySlot s then (False, s) else (True, s\<lparr>notifySlot := True\<rparr>))"

definition signalGracefulDone :: "consumer \<Rightarrow> consumer" where
  "signalGracefulDone s = s\<lparr>gracefulDone := True\<rparr>"

definition trippedReason :: "consumer \<Rightarrow> string option" where
  "trippedReason s = emergencyReason s"

text \<open>\<open>watchEmergency\<close> and \<open>emergencyExit\<close>, step by step.\<close>

definition watchEmergency :: "bool \<Rightarrow> consumer \<Rightarrow> consumer option" where
  "watchEmergency graceful s =
     (if watcherAt s \<noteq> Parked then None
      else if graceful then
        (if gracefulDone s then Some (s\<lparr>gracefulDone := False, watcherAt := ExitedGraceful\<rparr>) else None)
      else
        (case cb_emergencyShutdown (con_breaker s) of
           msg # _ \<Rightarrow> Some (s\<lparr>watcherAt := (if msg = '''' then ExitedTrip else Received msg)\<rparr>)
         | [] \<Rightarrow> None))"

definition emergencyExit :: "consumer \<Rightarrow> consumer option" where
  "emergencyExit s =
     (case watcherAt s of
        Received r \<Rightarrow> Some (s\<lparr>rateLimitStopped := True, emergencyReason := Some r, watcherAt := Stored r\<rparr>)
      | Stored r \<Rightarrow>
          (case shutdownCallback s of
             None \<Rightarrow> Some (s\<lparr>watcherAt := ExitedTrip\<rparr>)
           | Some cb \<Rightarrow> Some (s\<lparr>watcherAt := Loaded r cb\<rparr>))
      | Loaded r cb \<Rightarrow>
          (let (won, s1) = claimNotify s
           in Some (s1\<lparr>watcherAt := (if won then Claimed r cb else ExitedTrip)\<rparr>))
      | Claimed r cb \<Rightarrow> Some (s\<lparr>notified := notified s @ [(cb, Some r)], watcherAt := ExitedTrip\<rparr>)
      | _ \<Rightarrow> None)"

text \<open>The consumer's \<open>Unsubscribe\<close>: the subscription's result, or \<open>None\<close> for the timeout.\<close>

definition con_Unsubscribe :: "string \<Rightarrow> string option option \<Rightarrow> consumer \<Rightarrow> string option \<times> consumer" where
  "con_Unsubscribe timeoutMessage result s =
     (case result of
        Some err \<Rightarrow> (None, s)
      | None \<Rightarrow> (Some timeoutMessage, EmergencyShutdown (Some timeoutMessage) s))"

definition setCall :: "nat \<Rightarrow> shutdown_call \<Rightarrow> consumer \<Rightarrow> consumer" where
  "setCall i c s = s\<lparr>calls := (calls s)(i := c)\<rparr>"

text \<open>
  \<open>Shutdown\<close>, step by step; \<open>result\<close> is what the wait for the drain comes to in the step that
  unsubscribes.
\<close>

definition Shutdown :: "nat \<Rightarrow> string \<Rightarrow> string option option \<Rightarrow> consumer \<Rightarrow> consumer option" where
  "Shutdown i timeoutMessage result s =
     (case calls s i of
        NotCalled \<Rightarrow>
          (case shutdownCallback s of
             None \<Rightarrow> Some (setCall i (Returned None) (signalGracefulDone (s\<lparr>rateLimitStopped := True\<rparr>)))
           | Some cb \<Rightarrow> Some (setCall i (Unsubscribing cb) (s\<lparr>rateLimitStopped := True\<rparr>)))
      | Unsubscribing cb \<Rightarrow>
          (case con_Unsubscribe timeoutMessage result s of
             (Some e, s1) \<Rightarrow> Some (setCall i (Returned (Some e)) s1)
           | (None, s1) \<Rightarrow> Some (setCall i (Claiming cb) (s1\<lparr>bandwidthStarted := map_option (\<lambda>_. False) (bandwidthStarted s1), metricsStarted := False\<rparr>)))
      | Claiming cb \<Rightarrow>
          (let (won, s1) = claimNotify s in Some (setCall i (if won then Delivering cb else Signalling) s1))
      | Delivering cb \<Rightarrow> Some (setCall i Signalling (s\<lparr>notified := notified s @ [(cb, trippedReason s)]\<rparr>))
      | Signalling \<Rightarrow> Some (setCall i (Returned None) (signalGracefulDone s))
      | Returned _ \<Rightarrow> None)"

text \<open>
  \<open>Subscribe\<close>. \<open>brokerError\<close> is the answer of the broker's subscribe, \<open>awaited\<close> the outcome of
  the wait for an assignment: assigned, possibly with the reason of a breaker found tripped
  right after it, tripped, or timed out; then it unsubscribes, and when that hangs too (\<open>Some\<close>) it
  runs the default callback.
\<close>

datatype await_outcome = AwaitAssigned "string option" | AwaitTripped string | AwaitTimeout "signal_outcome option"

datatype subscribe_error =
    SubscribeAfterEmergency "string option"
  | FailedToSubscribe string
  | AwaitAssignmentTimeout

definition Subscribe :: "string option \<Rightarrow> await_outcome \<Rightarrow> consumer \<Rightarrow> subscribe_error option \<times> consumer" where
  "Subscribe brokerError awaited s =
     (if cb_tripped (con_breaker s) then (Some (SubscribeAfterEmergency (Reason (con_breaker s))), s)
      else
        (let s1 = (if shutdownCallback s = None then s\<lparr>shutdownCallback := Some DefaultCallback\<rparr> else s);
             s2 = s1\<lparr>metricsStarted := True, bandwidthStarted := map_option (\<lambda>_. True) (bandwidthStarted s1)\<rparr>
         in case brokerError of
              Some e \<Rightarrow> (Some (FailedToSubscribe e), s2)
            | None \<Rightarrow>
                (let s3 = s2\<lparr>pollingStarted := True\<rparr> in
                 case awaited of
                   AwaitAssigned None \<Rightarrow> (None, s3)
                 | AwaitAssigned (Some r) \<Rightarrow> (Some (SubscribeAfterEmergency (Some r)), s3)
                 | AwaitTripped r \<Rightarrow> (Some (SubscribeAfterEmergency (Some r)), s3)
                 | AwaitTimeout stuck \<Rightarrow>
                     (Some AwaitAssignmentTimeout,
                      case stuck of
                        None \<Rightarrow> s3
                      | Some os \<Rightarrow>
                          s3\<lparr>forced := defaultShutdownCallback (Some ''unsubscribe timeout during startup'') os\<rparr>))))"

datatype life_event =
    Trip "string option"
  | Register callback
  | SubscribeCall "string option" await_outcome
  | WatchTrip
  | WatchGraceful
  | WatchExit
  | ShutdownStep nat string "string option option"

definition lifeStep :: "life_event \<Rightarrow> consumer \<Rightarrow> consumer option" where
  "lifeStep e s =
     (case e of
        Trip r \<Rightarrow> Some (EmergencyShutdown r s)
      | Register cb \<Rightarrow> Some (RegisterShutdownCallback cb s)
      | SubscribeCall err aw \<Rightarrow> Some (snd (Subscribe err aw s))
      | WatchTrip \<Rightarrow> watchEmergency False s
      | WatchGraceful \<Rightarrow> watchEmergency True s
      | WatchExit \<Rightarrow> emergencyExit s
      | ShutdownStep i m r \<Rightarrow> Shutdown i m r s)"

fun lifeRun :: "life_event list \<Rightarrow> consumer \<Rightarrow> consumer option" where
  "lifeRun [] s = Some s"
| "lifeRun (e # es) s = (case lifeStep e s of None \<Rightarrow> None | Some s1 \<Rightarrow> lifeRun es s1)"

section \<open>The shutdown callback\<close>

text \<open>The callers and the watcher that hold the claim without having delivered yet.\<close>

definition pendingClaims :: "consumer \<Rightarrow> nat set" where
  "pendingClaims s = {i. \<exists>cb. calls s i = Delivering cb}"

definition watcherClaims :: "consumer \<Rightarrow> bool" where
  "watcherClaims s \<longleftrightarrow> (case watcherAt s of Claimed _ _ \<Rightarrow> True | _ \<Rightarrow> False)"

definition claim_ok :: "consumer \<Rightarrow> bool" where
  "claim_ok s \<longleftrightarrow> finite (pendingClaims s) \<and>
     length (notified s) + card (pendingClaims s) + of_bool (watcherClaims s) = of_bool (notifySlot s)"

text \<open>The reasons in circulation are the breaker's.\<close>

definition toldBy :: "consumer \<Rightarrow> string \<Rightarrow> bool" where
  "toldBy s r \<longleftrightarrow> (\<exists>e. cb_reason (con_breaker s) = Some e \<and> r = signalMessage e)"

definition reasons_ok :: "consumer \<Rightarrow> bool" where
  "reasons_ok s \<longleftrightarrow> breaker_wf (con_breaker s) \<and>
     (case watcherAt s of Received r \<Rightarrow> toldBy s r | Stored r \<Rightarrow> toldBy s r | Loaded r _ \<Rightarrow> toldBy s r
      | Claimed r _ \<Rightarrow> toldBy s r | _ \<Rightarrow> True) \<and>
     (\<forall>r. emergencyReason s = Some r \<longrightarrow> toldBy s r) \<and>
     (\<forall>cb r. (cb, Some r) \<in> set (notified s) \<longrightarrow> toldBy s r)"

lemma Trigger_reason:
  "breaker_wf cb \<Longrightarrow> cb_reason cb = Some e \<Longrightarrow> cb_reason (TriggerEmergencyShutdown r cb) = Some e"
  by (auto simp: breaker_wf_def TriggerEmergencyShutdown_def NewCircuitBreaker_def Let_def)

lemma breaker_message:
  "breaker_wf cb \<Longrightarrow> cb_emergencyShutdown cb = m # ms \<Longrightarrow> \<exists>e. cb_reason cb = Some e \<and> m = signalMessage e"
  by (auto simp: breaker_wf_def NewCircuitBreaker_def)

lemma toldBy_trip: "breaker_wf (con_breaker s) \<Longrightarrow> toldBy s r \<Longrightarrow> toldBy (EmergencyShutdown x s) r"
  by (auto simp: toldBy_def EmergencyShutdown_def Trigger_reason)

lemma toldBy_frame: "con_breaker s' = con_breaker s \<Longrightarrow> toldBy s' = toldBy s"
  by (simp add: toldBy_def fun_eq_iff)

lemma reasons_trip: "reasons_ok s \<Longrightarrow> reasons_ok (EmergencyShutdown x s)"
  using toldBy_trip [of s]
  by (auto simp: reasons_ok_def EmergencyShutdown_def Trigger_wf split: watcher.splits)

lemma pending_set:
  "pendingClaims (setCall i c s) = (if \<exists>cb. c = Delivering cb then insert i (pendingClaims s) else pendingClaims s - {i})"
  by (auto simp: pendingClaims_def setCall_def)

lemma pending_frame: "calls s' = calls s \<Longrightarrow> pendingClaims s' = pendingClaims s"
  by (simp add: pendingClaims_def)

lemma Subscribe_frame:
  "calls (snd (Subscribe err aw s)) = calls s" "notified (snd (Subscribe err aw s)) = notified s"
  "notifySlot (snd (Subscribe err aw s)) = notifySlot s" "watcherAt (snd (Subscribe err aw s)) = watcherAt s"
  "con_breaker (snd (Subscribe err aw s)) = con_breaker s" "emergencyReason (snd (Subscribe err aw s)) = emergencyReason s"
  "gracefulDone (snd (Subscribe err aw s)) = gracefulDone s"
  by (auto simp: Subscribe_def Let_def split: option.splits await_outcome.splits)

lemma claim_ok_call:
  assumes "claim_ok s" "\<And>cb. calls s i \<noteq> Delivering cb" "\<And>cb. c \<noteq> Delivering cb"
    "calls s' = (calls s)(i := c)" "notified s' = notified s" "notifySlot s' = notifySlot s" "watcherAt s' = watcherAt s"
  shows "claim_ok s'"
proof -
  have "pendingClaims s' = pendingClaims s" using assms(2-4) by (auto simp: pendingClaims_def)
  with assms(1,5-7) show ?thesis by (simp add: claim_ok_def watcherClaims_def)
qed

lemma claim_ok_frame:
  assumes "claim_ok s" "calls s' = calls s" "notified s' = notified s" "notifySlot s' = notifySlot s"
    "watcherClaims s' = watcherClaims s"
  shows "claim_ok s'"
  using assms pending_frame [OF assms(2)] by (simp add: claim_ok_def)

lemma claim_free: "claim_ok s \<Longrightarrow> \<not> notifySlot s \<Longrightarrow> notified s = [] \<and> pendingClaims s = {} \<and> \<not> watcherClaims s"
  by (auto simp: claim_ok_def)

lemma Shutdown_claim:
  assumes ok: "claim_ok s" and r: "Shutdown i m res s = Some s'"
  shows "claim_ok s'"
proof (cases "calls s i")
  case NotCalled
  with r obtain c where "calls s' = (calls s)(i := c)" "\<And>cb. c \<noteq> Delivering cb" "notified s' = notified s"
    "notifySlot s' = notifySlot s" "watcherAt s' = watcherAt s"
    by (auto simp: Shutdown_def setCall_def signalGracefulDone_def split: option.splits)
  with NotCalled show ?thesis by (intro claim_ok_call [OF ok, of i c]) auto
next
  case (Unsubscribing cb)
  with r obtain c where "calls s' = (calls s)(i := c)" "\<And>cb. c \<noteq> Delivering cb" "notified s' = notified s"
    "notifySlot s' = notifySlot s" "watcherAt s' = watcherAt s"
    by (auto simp: Shutdown_def setCall_def con_Unsubscribe_def EmergencyShutdown_def split: option.splits)
  with Unsubscribing show ?thesis by (intro claim_ok_call [OF ok, of i c]) auto
next
  case (Claiming cb)
  show ?thesis
  proof (cases "notifySlot s")
    case True
    with Claiming r show ?thesis
      by (intro claim_ok_call [OF ok, of i Signalling]) (auto simp: Shutdown_def claimNotify_def setCall_def)
  next
    case False
    with r Claiming have s': "s' = setCall i (Delivering cb) (s\<lparr>notifySlot := True\<rparr>)"
      by (simp add: Shutdown_def claimNotify_def)
    with claim_free [OF ok False] show ?thesis
      by (simp add: claim_ok_def pending_set pending_frame [of "s\<lparr>notifySlot := True\<rparr>" s]) (simp add: setCall_def watcherClaims_def)
  qed
next
  case (Delivering cb)
  then have i: "i \<in> pendingClaims s" by (simp add: pendingClaims_def)
  from r Delivering have s': "s' = setCall i Signalling (s\<lparr>notified := notified s @ [(cb, trippedReason s)]\<rparr>)"
    by (simp add: Shutdown_def)
  have "pendingClaims s' = pendingClaims s - {i}" unfolding s' pending_set by (simp add: pendingClaims_def)
  moreover have "finite (pendingClaims s)" using ok by (simp add: claim_ok_def)
  moreover from this i have "0 < card (pendingClaims s)" by (auto simp: card_gt_0_iff)
  ultimately show ?thesis using ok i s' by (simp add: claim_ok_def setCall_def watcherClaims_def)
next
  case Signalling
  with r show ?thesis
    by (intro claim_ok_call [OF ok, of i "Returned None"]) (auto simp: Shutdown_def setCall_def signalGracefulDone_def)
qed (use r in \<open>simp add: Shutdown_def\<close>)

lemma watcher_claim:
  assumes ok: "claim_ok s" and r: "watchEmergency g s = Some s' \<or> emergencyExit s = Some s'"
  shows "claim_ok s'"
  using r
proof
  assume "watchEmergency g s = Some s'"
  then show ?thesis
    by (intro claim_ok_frame [OF ok]) (auto simp: watchEmergency_def watcherClaims_def split: if_splits list.splits)
next
  assume e: "emergencyExit s = Some s'"
  show ?thesis
  proof (cases "watcherAt s")
    case (Loaded r cb)
    show ?thesis
    proof (cases "notifySlot s")
      case True
      with e Loaded show ?thesis
        by (intro claim_ok_frame [OF ok]) (auto simp: emergencyExit_def claimNotify_def watcherClaims_def)
    next
      case False
      from e Loaded False have "s' = s\<lparr>notifySlot := True, watcherAt := Claimed r cb\<rparr>"
        by (simp add: emergencyExit_def claimNotify_def)
      with claim_free [OF ok False] show ?thesis by (simp add: claim_ok_def watcherClaims_def pendingClaims_def)
    qed
  next
    case (Claimed r cb)
    with e ok show ?thesis by (auto simp: emergencyExit_def claim_ok_def watcherClaims_def pendingClaims_def)
  qed (use e in \<open>auto intro!: claim_ok_frame [OF ok] simp: emergencyExit_def watcherClaims_def split: option.splits\<close>)
qed

lemma lifeStep_claim:
  assumes "claim_ok s" "lifeStep e s = Some s'"
  shows "claim_ok s'"
proof (cases e)
  case (Trip r)
  with assms show ?thesis
    by (intro claim_ok_frame [OF assms(1)]) (auto simp: lifeStep_def EmergencyShutdown_def watcherClaims_def)
next
  case (Register cb)
  with assms show ?thesis
    by (intro claim_ok_frame [OF assms(1)]) (auto simp: lifeStep_def RegisterShutdownCallback_def watcherClaims_def)
next
  case (SubscribeCall err aw)
  with assms show ?thesis
    by (intro claim_ok_frame [OF assms(1)]) (auto simp: lifeStep_def Subscribe_frame watcherClaims_def)
next
  case (ShutdownStep i m res)
  with assms have "Shutdown i m res s = Some s'" by (simp add: lifeStep_def)
  then show ?thesis by (rule Shutdown_claim [OF assms(1)])
next
  case WatchTrip
  with assms show ?thesis by (intro watcher_claim [OF assms(1), of False]) (simp add: lifeStep_def)
next
  case WatchGraceful
  with assms show ?thesis by (intro watcher_claim [OF assms(1), of True]) (simp add: lifeStep_def)
next
  case WatchExit
  with assms show ?thesis by (intro watcher_claim [OF assms(1), of True]) (simp add: lifeStep_def)
qed

lemma reasons_frame:
  "reasons_ok s \<Longrightarrow> con_breaker s' = con_breaker s \<Longrightarrow> watcherAt s' = watcherAt s \<Longrightarrow>
   emergencyReason s' = emergencyReason s \<Longrightarrow> notified s' = notified s \<Longrightarrow> reasons_ok s'"
  by (simp add: reasons_ok_def toldBy_frame [of s' s] split: watcher.split_asm watcher.split)

lemma reasons_move:
  assumes ok: "reasons_ok s" and s': "con_breaker s' = con_breaker s"
    and "case watcherAt s' of Received r \<Rightarrow> toldBy s r | Stored r \<Rightarrow> toldBy s r | Loaded r _ \<Rightarrow> toldBy s r
      | Claimed r _ \<Rightarrow> toldBy s r | _ \<Rightarrow> True"
    and "\<And>r. emergencyReason s' = Some r \<Longrightarrow> toldBy s r" "\<And>cb r. (cb, Some r) \<in> set (notified s') \<Longrightarrow> toldBy s r"
  shows "reasons_ok s'"
  using assms unfolding reasons_ok_def toldBy_frame [OF s'] by simp

lemma Shutdown_reasons:
  assumes ok: "reasons_ok s" and r: "Shutdown i m res s = Some s'"
  shows "reasons_ok s'"
proof (cases "calls s i")
  case (Unsubscribing cb)
  show ?thesis
  proof (cases res)
    case None
    have "reasons_ok (EmergencyShutdown (Some m) s)" by (rule reasons_trip [OF ok])
    then show ?thesis
      by (rule reasons_frame) (use r Unsubscribing None in \<open>auto simp: Shutdown_def con_Unsubscribe_def setCall_def\<close>)
  next
    case (Some x)
    show ?thesis
      by (rule reasons_frame [OF ok]) (use r Unsubscribing Some in \<open>auto simp: Shutdown_def con_Unsubscribe_def setCall_def\<close>)
  qed
next
  case (Delivering cb)
  show ?thesis
    by (rule reasons_move [OF ok])
      (use r Delivering ok in \<open>auto simp: Shutdown_def setCall_def trippedReason_def reasons_ok_def\<close>)
next
  case (Returned x)
  with r show ?thesis by (simp add: Shutdown_def)
qed (rule reasons_frame [OF ok]; use r in \<open>auto simp: Shutdown_def setCall_def signalGracefulDone_def claimNotify_def
      split: option.splits if_splits\<close>)+

lemma emergencyExit_reasons:
  assumes ok: "reasons_ok s" and r: "emergencyExit s = Some s'"
  shows "reasons_ok s'"
  by (rule reasons_move [OF ok])
    (use r ok in \<open>auto simp: emergencyExit_def reasons_ok_def claimNotify_def split: watcher.splits option.splits if_splits\<close>)

lemma lifeStep_reasons:
  assumes ok: "reasons_ok s" and r: "lifeStep e s = Some s'"
  shows "reasons_ok s'"
proof (cases e)
  case WatchTrip
  with r obtain msg ms where m: "cb_emergencyShutdown (con_breaker s) = msg # ms"
    and s': "s' = s\<lparr>watcherAt := (if msg = '''' then ExitedTrip else Received msg)\<rparr>"
    by (auto simp: lifeStep_def watchEmergency_def split: if_splits list.splits)
  have "toldBy s msg"
    unfolding toldBy_def using ok by (intro breaker_message [OF _ m]) (simp add: reasons_ok_def)
  then show ?thesis by (intro reasons_move [OF ok]) (use ok s' in \<open>auto simp: reasons_ok_def\<close>)
next
  case WatchGraceful
  show ?thesis
    by (rule reasons_move [OF ok])
      (use r ok WatchGraceful in \<open>auto simp: lifeStep_def watchEmergency_def reasons_ok_def split: if_splits\<close>)
next
  case (ShutdownStep i m res)
  with r have "Shutdown i m res s = Some s'" by (simp add: lifeStep_def)
  then show ?thesis by (rule Shutdown_reasons [OF ok])
next
  case WatchExit
  with r have "emergencyExit s = Some s'" by (simp add: lifeStep_def)
  then show ?thesis by (rule emergencyExit_reasons [OF ok])
next
  case (Trip x)
  with r reasons_trip [OF ok, of x] show ?thesis by (auto simp: lifeStep_def)
next
  case (Register cb)
  with r show ?thesis by (intro reasons_frame [OF ok]) (auto simp: lifeStep_def RegisterShutdownCallback_def)
next
  case (SubscribeCall err aw)
  with r show ?thesis by (intro reasons_frame [OF ok]) (auto simp: lifeStep_def Subscribe_frame)
qed

lemma lifeRun_inv:
  "claim_ok s \<Longrightarrow> reasons_ok s \<Longrightarrow> lifeRun es s = Some s' \<Longrightarrow> claim_ok s' \<and> reasons_ok s'"
  by (induction es arbitrary: s) (auto dest: lifeStep_claim lifeStep_reasons split: option.splits)

lemma NewConsumer_inv: "claim_ok (NewConsumer cb bw)" "reasons_ok (NewConsumer cb bw)"
  by (simp_all add: claim_ok_def NewConsumer_def pendingClaims_def watcherClaims_def reasons_ok_def breaker_wf_def)

text \<open>
  C27. The host hears of the consumer's end at most once: in every interleaving of trips,
  registrations, subscriptions, any number of concurrent shutdowns and the watcher, the
  shutdown callback is invoked at most once, and a reason it is given is that of the first
  trip of the breaker.
\<close>

theorem notified_at_most_once:
  assumes "lifeRun es (NewConsumer cb0 bw) = Some s"
  shows "length (notified s) \<le> 1 \<and>
    (\<forall>cb r. (cb, Some r) \<in> set (notified s) \<longrightarrow> (\<exists>e. cb_reason (con_breaker s) = Some e \<and> r = signalMessage e))"
proof -
  have "claim_ok s" "reasons_ok s" using lifeRun_inv [OF NewConsumer_inv assms] by blast+
  then show ?thesis by (auto simp: claim_ok_def reasons_ok_def toldBy_def of_bool_def split: if_splits)
qed

text \<open>
  A consumer built with a callback keeps one, and whoever leaves or releases the watcher
  has the claim taken first.
\<close>

definition claimDue :: "consumer \<Rightarrow> bool" where
  "claimDue s \<longleftrightarrow> gracefulDone s \<or> watcherAt s = ExitedGraceful \<or> watcherAt s = ExitedTrip \<or> watcherClaims s \<or>
     (\<exists>i. calls s i = Signalling) \<or> pendingClaims s \<noteq> {}"

definition armed :: "consumer \<Rightarrow> bool" where
  "armed s \<longleftrightarrow> shutdownCallback s \<noteq> None \<and> (claimDue s \<longrightarrow> notifySlot s)"

lemma signalMessage_nonempty: "signalMessage e \<noteq> ''''"
  by (simp add: signalMessage_def)

lemma armedI:
  "armed s \<Longrightarrow> shutdownCallback s' \<noteq> None \<Longrightarrow> (notifySlot s \<Longrightarrow> notifySlot s') \<Longrightarrow>
   (claimDue s' \<Longrightarrow> claimDue s \<or> notifySlot s') \<Longrightarrow> armed s'"
  by (auto simp: armed_def)

lemma claimDue_call:
  assumes "calls s' = (calls s)(i := c)" "watcherAt s' = watcherAt s" "gracefulDone s' = gracefulDone s"
    "c \<noteq> Signalling" "\<And>cb. c \<noteq> Delivering cb" "claimDue s'"
  shows "claimDue s"
proof -
  have "calls s' j = Signalling \<Longrightarrow> calls s j = Signalling" for j using assms(1,4) by (auto split: if_splits)
  moreover have "pendingClaims s' \<subseteq> pendingClaims s" using assms(1,5) by (auto simp: pendingClaims_def split: if_splits)
  ultimately show ?thesis using assms(2,3,6) unfolding claimDue_def watcherClaims_def by auto
qed

lemma Shutdown_armed:
  assumes a: "armed s" and r: "Shutdown i m res s = Some s'"
  shows "armed s'"
proof (rule armedI [OF a])
  from a obtain c where c: "shutdownCallback s = Some c" by (auto simp: armed_def)
  show "shutdownCallback s' \<noteq> None" "notifySlot s \<Longrightarrow> notifySlot s'"
    using c r by (cases "calls s i"; auto simp: Shutdown_def setCall_def con_Unsubscribe_def
        signalGracefulDone_def claimNotify_def EmergencyShutdown_def split: option.splits if_splits)+
  show "claimDue s \<or> notifySlot s'" if d: "claimDue s'"
  proof (cases "calls s i")
    case NotCalled
    with r c d show ?thesis
      by (intro disjI1 claimDue_call [OF _ _ _ _ _ d, where i = i and c = "Unsubscribing c"]) (auto simp: Shutdown_def setCall_def)
  next
    case (Unsubscribing cb)
    with r obtain c' where "calls s' = (calls s)(i := c')" "watcherAt s' = watcherAt s" "gracefulDone s' = gracefulDone s"
      "c' \<noteq> Signalling" "\<And>cb. c' \<noteq> Delivering cb"
      by (auto simp: Shutdown_def setCall_def con_Unsubscribe_def EmergencyShutdown_def split: option.splits)
    then show ?thesis by (intro disjI1 claimDue_call [OF _ _ _ _ _ d])
  next
    case (Claiming cb)
    with r show ?thesis by (auto simp: Shutdown_def setCall_def claimNotify_def split: if_splits)
  next
    case (Delivering cb)
    then have "i \<in> pendingClaims s" by (simp add: pendingClaims_def)
    then show ?thesis by (auto simp: claimDue_def)
  next
    case Signalling
    then show ?thesis by (auto simp: claimDue_def)
  next
    case (Returned x)
    with r show ?thesis by (simp add: Shutdown_def)
  qed
qed

lemma watcher_armed:
  assumes a: "armed s" and w: "breaker_wf (con_breaker s)" and r: "watchEmergency g s = Some s' \<or> emergencyExit s = Some s'"
  shows "armed s'"
  using r
proof
  assume "watchEmergency g s = Some s'"
  then consider "s' = s\<lparr>gracefulDone := False, watcherAt := ExitedGraceful\<rparr>" "gracefulDone s"
    | msg ms where "cb_emergencyShutdown (con_breaker s) = msg # ms" "s' = s\<lparr>watcherAt := (if msg = '''' then ExitedTrip else Received msg)\<rparr>"
    by (auto simp: watchEmergency_def split: if_splits list.splits)
  then show ?thesis
  proof cases
    case 1
    with a show ?thesis by (auto simp: armed_def claimDue_def pendingClaims_def watcherClaims_def)
  next
    case 2
    from breaker_message [OF w 2(1)] have "msg \<noteq> ''''" by (auto simp: signalMessage_nonempty)
    with 2(2) a show ?thesis by (auto simp: armed_def claimDue_def pendingClaims_def watcherClaims_def split: watcher.splits)
  qed
next
  assume e: "emergencyExit s = Some s'"
  with a show ?thesis
    by (cases "watcherAt s") (auto simp: armed_def claimDue_def pendingClaims_def watcherClaims_def emergencyExit_def
        claimNotify_def split: option.splits if_splits)
qed

lemma lifeStep_armed:
  assumes a: "armed s" and w: "breaker_wf (con_breaker s)" and r: "lifeStep e s = Some s'"
  shows "armed s'"
proof (cases e)
  case (ShutdownStep i m res)
  with r have "Shutdown i m res s = Some s'" by (simp add: lifeStep_def)
  then show ?thesis by (rule Shutdown_armed [OF a])
next
  case (SubscribeCall err aw)
  with r have s': "s' = snd (Subscribe err aw s)" by (simp add: lifeStep_def)
  have "shutdownCallback s' \<noteq> None"
    using a by (auto simp: s' armed_def Subscribe_def Let_def split: option.splits await_outcome.splits)
  then show ?thesis
    using a by (auto simp: armed_def claimDue_def pendingClaims_def watcherClaims_def s' Subscribe_frame)
next
  case WatchTrip
  with r show ?thesis by (intro watcher_armed [OF a w, of False]) (simp add: lifeStep_def)
next
  case WatchGraceful
  with r show ?thesis by (intro watcher_armed [OF a w, of True]) (simp add: lifeStep_def)
next
  case WatchExit
  with r show ?thesis by (intro watcher_armed [OF a w, of True]) (simp add: lifeStep_def)
next
  case (Trip x)
  with a r show ?thesis
    by (auto simp: armed_def claimDue_def pendingClaims_def watcherClaims_def lifeStep_def EmergencyShutdown_def)
next
  case (Register cb)
  with a r show ?thesis
    by (auto simp: armed_def claimDue_def pendingClaims_def watcherClaims_def lifeStep_def RegisterShutdownCallback_def)
qed

lemma lifeRun_armed:
  "armed s \<Longrightarrow> reasons_ok s \<Longrightarrow> lifeRun es s = Some s' \<Longrightarrow> armed s'"
proof (induction es arbitrary: s)
  case (Cons e es)
  then obtain s1 where s1: "lifeStep e s = Some s1" "lifeRun es s1 = Some s'" by (auto split: option.splits)
  have "breaker_wf (con_breaker s)" using Cons.prems(2) by (simp add: reasons_ok_def)
  from Cons.IH [OF lifeStep_armed [OF Cons.prems(1) this s1(1)] lifeStep_reasons [OF Cons.prems(2) s1(1)] s1(2)]
  show ?case .
qed simp



section \<open>Runs\<close>

definition exTripRun :: "life_event list" where
  "exTripRun = [SubscribeCall None (AwaitAssigned None), ShutdownStep 0 ''t'' None, Trip (Some ''disk''), WatchTrip,
     ShutdownStep 0 ''t'' (Some None), ShutdownStep 1 ''t'' None, WatchExit, WatchExit, WatchExit, ShutdownStep 0 ''t'' None,
     WatchExit]"

definition exTripped :: consumer where
  "exTripped = the (lifeRun exTripRun (NewConsumer (Some (HostCallback 1)) True))"

lemma exTripped_run: "lifeRun exTripRun (NewConsumer (Some (HostCallback 1)) True) = Some exTripped"
proof -
  have "lifeRun exTripRun (NewConsumer (Some (HostCallback 1)) True) \<noteq> None" by code_simp
  then show ?thesis by (auto simp: exTripped_def)
qed

theorem notified_at_most_once_witness:
  "notified exTripped = [(HostCallback 1, Some (signalMessage ''disk''))] \<and> length (notified exTripped) \<le> 1"
proof -
  have "notified exTripped = [(HostCallback 1, Some (signalMessage ''disk''))]" by code_simp
  with notified_at_most_once [OF exTripped_run] show ?thesis by blast
qed

lemma exTripped_calls: "calls exTripped = (\<lambda>_. NotCalled)(1 := Unsubscribing (HostCallback 1), 0 := Signalling)"
  unfolding exTripped_def exTripRun_def
  by (simp add: lifeStep_def Subscribe_def NewConsumer_def Shutdown_def setCall_def EmergencyShutdown_def
      TriggerEmergencyShutdown_def NewCircuitBreaker_def watchEmergency_def emergencyExit_def con_Unsubscribe_def
      claimNotify_def Let_def signalMessage_def)



text \<open>
  A shutdown before the first subscription releases the watcher for good: the consumer can
  still be subscribed, but a later trip finds nobody to deliver the callback.
\<close>

lemma early_shutdown_disarms:
  "\<exists>s. lifeRun [ShutdownStep 0 ''t'' None, WatchGraceful, SubscribeCall None (AwaitAssigned None), Trip (Some ''disk'')]
       (NewConsumer None False) = Some s \<and>
     shutdownCallback s = Some DefaultCallback \<and> pollingStarted s \<and> cb_tripped (con_breaker s) \<and> notified s = [] \<and>
     watchEmergency True s = None \<and> watchEmergency False s = None \<and> emergencyExit s = None"
  by (simp add: lifeStep_def Subscribe_def NewConsumer_def Shutdown_def setCall_def EmergencyShutdown_def signalGracefulDone_def
      TriggerEmergencyShutdown_def NewCircuitBreaker_def watchEmergency_def emergencyExit_def Let_def)

text \<open>
  A trip during the drain of a graceful shutdown can be reported as a graceful exit: the
  reason is read from what the watcher stored, and the watcher may not have run yet.
\<close>

lemma trip_reported_as_graceful:
  "\<exists>s. lifeRun [ShutdownStep 0 ''t'' None, Trip (Some ''drain''), ShutdownStep 0 ''t'' (Some None), ShutdownStep 0 ''t'' None,
        ShutdownStep 0 ''t'' None, WatchTrip, WatchExit, WatchExit, WatchExit] (NewConsumer (Some (HostCallback 1)) True) = Some s \<and>
     cb_tripped (con_breaker s) \<and> notified s = [(HostCallback 1, None)] \<and> watcherAt s = ExitedTrip"
  by (simp add: lifeStep_def NewConsumer_def Shutdown_def setCall_def EmergencyShutdown_def con_Unsubscribe_def claimNotify_def
      trippedReason_def TriggerEmergencyShutdown_def NewCircuitBreaker_def watchEmergency_def emergencyExit_def
      signalMessage_def Let_def)

end
