(* ===== verification/Metrics_Collector.thy ===== *)
theory Metrics_Collector
  imports Work_Items_Pool Demux_Examples "HOL-Library.Sublist"
begin

text \<open>
  The metrics collector (demux/metrics/metrics_collector.go): a bounded channel of work items
  that a collect loop hands to the metrics sink, and that drops rather than blocks when it is
  full. \<open>Collect\<close> is two steps, because it yields between its two attempts, and a loop is
  at its select or inside a sink call. Every subscription starts a loop, so there may be
  several. The sink's answer is an argument of the step that awaits it. The pool of work
  items is the one the pipeline borrows from.
\<close>

section \<open>State and operations\<close>

datatype sink_result = SinkOk | SinkError string | SinkPanic string

datatype 'a collect_loop = Selecting bool | Sending "'a work_item" bool | LoopExited

record 'a collector =
  mc_workItems :: "'a work_item list"
  mc_cap :: nat
  mc_pool :: "'a pool"
  CollectedCount :: int
  DroppedCount :: int
  SendFailedCount :: int
  mc_quit :: bool
  mc_loops :: "'a collect_loop list"
  mc_yielded :: "'a work_item list"
  mc_sunk :: "metrics list"
  mc_accepted :: "'a work_item list"
  mc_out :: "nat set"

text \<open>
  \<open>mc_yielded\<close> are the items of callers between their two attempts, \<open>mc_sunk\<close> the records
  the sink was called with. Two history variables serve the statements only:
  \<open>mc_accepted\<close>, the items that entered the channel, and \<open>mc_out\<close>, the addresses of the
  items borrowed from the pool and not yet handed to the collector.
\<close>

definition CalculateCollectBufferSize :: "int \<Rightarrow> int \<Rightarrow> int" where
  "CalculateCollectBufferSize keys perKeyBufferLength =
     (let bufferSize = 5 * keys * perKeyBufferLength
      in if bufferSize < 20000 then 20000 else if bufferSize > 100000 then 100000 else bufferSize)"

definition NewCollector :: "DemuxConfig \<Rightarrow> 'a pool \<Rightarrow> nat set \<Rightarrow> 'a collector" where
  "NewCollector c pl used =
     \<lparr>mc_workItems = [], mc_cap = nat (CalculateCollectBufferSize (ConcurrentKeys c) (PerKeyBufferLen c)),
      mc_pool = pl, CollectedCount = 0, DroppedCount = 0, SendFailedCount = 0, mc_quit = False,
      mc_loops = [], mc_yielded = [], mc_sunk = [], mc_accepted = [], mc_out = used\<rparr>"

record collector_stats =
  stats_Collected :: int
  stats_Dropped :: int
  stats_SendFailed :: int

definition Stats :: "'a collector \<Rightarrow> collector_stats" where
  "Stats c = \<lparr>stats_Collected = CollectedCount c, stats_Dropped = DroppedCount c,
     stats_SendFailed = SendFailedCount c\<rparr>"

definition enqueue :: "'a work_item \<Rightarrow> 'a collector \<Rightarrow> 'a collector" where
  "enqueue w c = c\<lparr>mc_workItems := mc_workItems c @ [w], mc_accepted := mc_accepted c @ [w]\<rparr>"

definition CollectItem :: "'a work_item \<Rightarrow> 'a collector \<Rightarrow> 'a collector" where
  "CollectItem w c =
     (if length (mc_workItems c) < mc_cap c then enqueue w c
      else c\<lparr>mc_yielded := w # mc_yielded c\<rparr>)"

definition collectYielded :: "'a work_item \<Rightarrow> 'a collector \<Rightarrow> 'a collector" where
  "collectYielded w c =
     (if w \<notin> set (mc_yielded c) then c
      else let c1 = c\<lparr>mc_yielded := remove1 w (mc_yielded c)\<rparr> in
        if length (mc_workItems c1) < mc_cap c1 then enqueue w c1
        else c1\<lparr>mc_pool := Return w (mc_pool c1), DroppedCount := DroppedCount c1 + 1\<rparr>)"

definition StartCollectingMetrics :: "'a collector \<Rightarrow> 'a collector" where
  "StartCollectingMetrics c = c\<lparr>mc_loops := mc_loops c @ [Selecting False]\<rparr>"

text \<open>What the sink is told about an item: its metrics with the message's identity and traits.\<close>

definition sinkMetrics :: "nexus \<Rightarrow> 'a work_item \<Rightarrow> metrics" where
  "sinkMetrics nx w =
     (let m = wi_Metrics w; message = wi_Message w;
          tr = met_Traits m OR (msg_Traits message AND FrameworkReserved nx)
      in m\<lparr>met_WorkerPool := wi_WorkerPool w, met_Partition := msg_Partition message,
           met_Offset := msg_Offset message, met_Traits := AddCustomTraits nx tr (msg_Traits message)\<rparr>)"

definition setLoop :: "nat \<Rightarrow> 'a collect_loop \<Rightarrow> 'a collector \<Rightarrow> 'a collector" where
  "setLoop i l c = c\<lparr>mc_loops := (mc_loops c)[i := l]\<rparr>"

text \<open>A sink that panics counts as a failed send, and the item goes back to the pool either way.\<close>

definition sendToMetricsSink :: "nexus \<Rightarrow> 'a work_item \<Rightarrow> sink_result \<Rightarrow> 'a collector \<Rightarrow> 'a collector" where
  "sendToMetricsSink nx w result c =
     (let w1 = w\<lparr>wi_Metrics := sinkMetrics nx w\<rparr>;
          c1 = c\<lparr>mc_sunk := mc_sunk c @ [wi_Metrics w1], mc_pool := Return w1 (mc_pool c)\<rparr>
      in case result of
           SinkOk \<Rightarrow> c1\<lparr>CollectedCount := CollectedCount c + 1\<rparr>
         | SinkError _ \<Rightarrow> c1\<lparr>SendFailedCount := SendFailedCount c + 1\<rparr>
         | SinkPanic _ \<Rightarrow> c1\<lparr>SendFailedCount := SendFailedCount c + 1\<rparr>)"

text \<open>The branches of the collect loop's select: an item, the end of its delivery, and quit.\<close>

definition loopTake :: "nat \<Rightarrow> 'a collector \<Rightarrow> 'a collector" where
  "loopTake i c =
     (if i < length (mc_loops c) then
        (case (mc_loops c ! i, mc_workItems c) of
           (Selecting q, w # ws) \<Rightarrow> setLoop i (Sending w q) (c\<lparr>mc_workItems := ws\<rparr>)
         | _ \<Rightarrow> c)
      else c)"

definition loopSend :: "nexus \<Rightarrow> nat \<Rightarrow> sink_result \<Rightarrow> 'a collector \<Rightarrow> 'a collector" where
  "loopSend nx i result c =
     (if i < length (mc_loops c) then
        (case mc_loops c ! i of
           Sending w q \<Rightarrow>
             setLoop i (if q \<and> mc_workItems c = [] then LoopExited else Selecting q)
               (sendToMetricsSink nx w result c)
         | _ \<Rightarrow> c)
      else c)"

definition loopQuit :: "nat \<Rightarrow> 'a collector \<Rightarrow> 'a collector" where
  "loopQuit i c =
     (if i < length (mc_loops c) \<and> mc_quit c then
        (case mc_loops c ! i of
           Selecting q \<Rightarrow> setLoop i (if mc_workItems c = [] then LoopExited else Selecting True) c
         | _ \<Rightarrow> c)
      else c)"

text \<open>\<open>Stop\<close> closes the quit channel, once, and then waits for the loops to exit.\<close>

definition collectorStop :: "'a collector \<Rightarrow> 'a collector" where
  "collectorStop c = c\<lparr>mc_quit := True\<rparr>"

definition stopped :: "'a collector \<Rightarrow> bool" where
  "stopped c \<longleftrightarrow> mc_quit c \<and> (\<forall>l \<in> set (mc_loops c). l = LoopExited)"

datatype 'a collect_event =
    BorrowItem "nat option"
  | CollectCall "'a work_item"
  | CollectRetry "'a work_item"
  | StartLoop
  | LoopTake nat
  | LoopSend nat sink_result
  | LoopQuit nat
  | StopCalled

definition collectStep :: "nexus \<Rightarrow> 'a collect_event \<Rightarrow> 'a collector \<Rightarrow> 'a collector" where
  "collectStep nx e c =
     (case e of
        BorrowItem pick \<Rightarrow>
          (let (w, pl) = Borrow pick (mc_pool c) in c\<lparr>mc_pool := pl, mc_out := insert (wi_ptr w) (mc_out c)\<rparr>)
      | CollectCall w \<Rightarrow> CollectItem w (c\<lparr>mc_out := mc_out c - {wi_ptr w}\<rparr>)
      | CollectRetry w \<Rightarrow> collectYielded w c
      | StartLoop \<Rightarrow> StartCollectingMetrics c
      | LoopTake i \<Rightarrow> loopTake i c
      | LoopSend i r \<Rightarrow> loopSend nx i r c
      | LoopQuit i \<Rightarrow> loopQuit i c
      | StopCalled \<Rightarrow> collectorStop c)"

definition collectRun :: "nexus \<Rightarrow> 'a collect_event list \<Rightarrow> 'a collector \<Rightarrow> 'a collector" where
  "collectRun nx es c = fold (collectStep nx) es c"

section \<open>Who owns an item\<close>

fun loopItem :: "'a collect_loop \<Rightarrow> 'a work_item list" where
  "loopItem (Sending w q) = [w]"
| "loopItem _ = []"

definition heldItems :: "'a collector \<Rightarrow> 'a work_item list" where
  "heldItems c = mc_workItems c @ mc_yielded c @ concat (map loopItem (mc_loops c))"

text \<open>
  The collector's invariant: each item is with the pipeline, held by the collector, or free
  in the pool, and nowhere twice; the channel respects its capacity; the sink was called once
  for every item counted as collected or failed; and everything that entered the channel is
  in it, being delivered, or was delivered.
\<close>

definition collector_inv :: "'a collector \<Rightarrow> bool" where
  "collector_inv c \<longleftrightarrow>
     pool_inv (mc_out c \<union> wi_ptr ` set (heldItems c)) (mc_pool c) \<and>
     distinct (map wi_ptr (heldItems c)) \<and> mc_out c \<inter> wi_ptr ` set (heldItems c) = {} \<and>
     length (mc_workItems c) \<le> mc_cap c \<and>
     int (length (mc_sunk c)) = CollectedCount c + SendFailedCount c \<and>
     int (length (mc_accepted c)) = int (length (mc_sunk c) + length (mc_workItems c) + length (concat (map loopItem (mc_loops c))))"

text \<open>The same for the delivery order, with a single loop.\<close>

definition in_order :: "nexus \<Rightarrow> 'a collector \<Rightarrow> bool" where
  "in_order nx c \<longleftrightarrow> map (sinkMetrics nx) (mc_accepted c) =
     mc_sunk c @ map (sinkMetrics nx) (concat (map loopItem (mc_loops c)) @ mc_workItems c)"

lemma mset_concat_update:
  assumes "i < length xs"
  shows "mset (concat (map f (xs[i := x]))) + mset (f (xs ! i)) = mset (concat (map f xs)) + mset (f x)"
proof -
  have "mset (concat (map f xs)) = mset (concat (map f (take i xs @ xs ! i # drop (Suc i) xs)))"
    using id_take_nth_drop [OF assms] by simp
  then show ?thesis by (simp add: upd_conv_take_nth_drop [OF assms])
qed

lemma length_concat_update:
  assumes "i < length xs"
  shows "length (concat (map f (xs[i := x]))) + length (f (xs ! i)) = length (concat (map f xs)) + length (f x)"
  using arg_cong [OF mset_concat_update [OF assms, of f x], of size] by simp

lemma mset_held:
  "mset (heldItems c) = mset (mc_workItems c) + mset (mc_yielded c) + mset (concat (map loopItem (mc_loops c)))"
  by (simp add: heldItems_def)

lemma inv_same_held:
  assumes "collector_inv c" "mset (heldItems c') = mset (heldItems c)" "mc_out c' = mc_out c" "mc_pool c' = mc_pool c"
    "length (mc_workItems c') \<le> mc_cap c'"
    "int (length (mc_sunk c')) = CollectedCount c' + SendFailedCount c'"
    "int (length (mc_accepted c')) = int (length (mc_sunk c') + length (mc_workItems c') + length (concat (map loopItem (mc_loops c'))))"
  shows "collector_inv c'"
proof -
  have "set (heldItems c') = set (heldItems c)" using assms(2) by (rule mset_eq_setD)
  moreover have "distinct (map wi_ptr (heldItems c')) = distinct (map wi_ptr (heldItems c))"
    by (rule mset_eq_imp_distinct_iff) (simp add: assms(2))
  ultimately show ?thesis using assms(1,3-7) unfolding collector_inv_def by simp
qed

lemma collector_invD:
  assumes "collector_inv c"
  shows "pool_inv (mc_out c \<union> wi_ptr ` set (heldItems c)) (mc_pool c)" "distinct (map wi_ptr (heldItems c))"
    "mc_out c \<inter> wi_ptr ` set (heldItems c) = {}" "length (mc_workItems c) \<le> mc_cap c"
    "int (length (mc_sunk c)) = CollectedCount c + SendFailedCount c"
    "int (length (mc_accepted c)) =
       int (length (mc_sunk c) + length (mc_workItems c) + length (concat (map loopItem (mc_loops c))))"
  using assms unfolding collector_inv_def by blast+

lemma inv_release:
  assumes "collector_inv c" "mset (heldItems c) = add_mset w (mset (heldItems c'))" "mc_out c' = mc_out c"
    "mc_pool c' = Return v (mc_pool c)" "wi_ptr v = wi_ptr w"
    "length (mc_workItems c') \<le> mc_cap c'"
    "int (length (mc_sunk c')) = CollectedCount c' + SendFailedCount c'"
    "int (length (mc_accepted c')) = int (length (mc_sunk c') + length (mc_workItems c') + length (concat (map loopItem (mc_loops c'))))"
  shows "collector_inv c'"
proof -
  have m: "mset (heldItems c) = mset (w # heldItems c')" using assms(2) by simp
  have s: "set (heldItems c) = insert w (set (heldItems c'))" using mset_eq_setD [OF m] by simp
  have "distinct (map wi_ptr (heldItems c)) = distinct (map wi_ptr (w # heldItems c'))"
    by (rule mset_eq_imp_distinct_iff) (simp add: assms(2))
  with collector_invD(2) [OF assms(1)] have d: "distinct (map wi_ptr (w # heldItems c'))" by simp
  have disj: "wi_ptr w \<notin> mc_out c" "mc_out c \<inter> wi_ptr ` set (heldItems c') = {}"
    using collector_invD(3) [OF assms(1)] unfolding s by auto
  have "mc_out c \<union> wi_ptr ` set (heldItems c) - {wi_ptr v} = mc_out c \<union> wi_ptr ` set (heldItems c')"
    using disj(1) d unfolding s assms(5) by auto
  moreover have "pool_inv (mc_out c \<union> wi_ptr ` set (heldItems c) - {wi_ptr v}) (mc_pool c')"
    unfolding assms(4) by (rule Return_inv [OF collector_invD(1) [OF assms(1)]]) (simp add: s assms(5))
  ultimately show ?thesis using d disj(2) assms(3,6-8) unfolding collector_inv_def by simp
qed

lemma NewCollector_inv:
  assumes "pool_inv used pl"
  shows "collector_inv (NewCollector c pl used)" "in_order nx (NewCollector c pl used)"
  using assms by (simp_all add: collector_inv_def in_order_def NewCollector_def heldItems_def)

lemma inv_take_over:
  assumes "collector_inv c" "mset (heldItems c') = add_mset w (mset (heldItems c))" "wi_ptr w \<in> mc_out c"
    "mc_out c' = mc_out c - {wi_ptr w}" "mc_pool c' = mc_pool c"
    "length (mc_workItems c') \<le> mc_cap c'"
    "int (length (mc_sunk c')) = CollectedCount c' + SendFailedCount c'"
    "int (length (mc_accepted c')) = int (length (mc_sunk c') + length (mc_workItems c') + length (concat (map loopItem (mc_loops c'))))"
  shows "collector_inv c'"
proof -
  have m: "mset (heldItems c') = mset (w # heldItems c)" using assms(2) by simp
  have s: "set (heldItems c') = insert w (set (heldItems c))" using mset_eq_setD [OF m] by simp
  have n: "wi_ptr w \<notin> wi_ptr ` set (heldItems c)" using collector_invD(3) [OF assms(1)] assms(3) by blast
  have "distinct (map wi_ptr (heldItems c')) = distinct (map wi_ptr (w # heldItems c))"
    by (rule mset_eq_imp_distinct_iff) (simp add: assms(2))
  with collector_invD(2) [OF assms(1)] n have d: "distinct (map wi_ptr (heldItems c'))" by simp
  have "mc_out c' \<union> wi_ptr ` set (heldItems c') = mc_out c \<union> wi_ptr ` set (heldItems c)"
    using assms(3) unfolding s assms(4) by auto
  moreover have "mc_out c' \<inter> wi_ptr ` set (heldItems c') = {}"
    using collector_invD(3) [OF assms(1)] unfolding s assms(4) by auto
  ultimately show ?thesis using collector_invD(1) [OF assms(1)] d assms(5-8) unfolding collector_inv_def by simp
qed

lemma CollectItem_inv:
  assumes "collector_inv c" "wi_ptr w \<in> mc_out c"
  shows "collector_inv (CollectItem w (c\<lparr>mc_out := mc_out c - {wi_ptr w}\<rparr>))"
  by (rule inv_take_over [OF assms(1) _ assms(2)])
    (use collector_invD(4-6) [OF assms(1)] in \<open>auto simp: CollectItem_def enqueue_def heldItems_def\<close>)

lemma collectYielded_inv:
  assumes "collector_inv c"
  shows "collector_inv (collectYielded w c)"
proof (cases "w \<in> set (mc_yielded c)")
  case y: True
  note D = collector_invD(4-6) [OF assms]
  have m: "mset (mc_yielded c) = add_mset w (mset (remove1 w (mc_yielded c)))" using y by simp
  show ?thesis
  proof (cases "length (mc_workItems c) < mc_cap c")
    case True
    show ?thesis
      by (rule inv_same_held [OF assms]) (use y True D m in \<open>auto simp: collectYielded_def enqueue_def mset_held\<close>)
  next
    case False
    show ?thesis
      by (rule inv_release [OF assms, of w _ w]) (use y False D m in \<open>auto simp: collectYielded_def mset_held\<close>)
  qed
next
  case False
  with assms show ?thesis by (simp add: collectYielded_def)
qed

lemma loopTake_inv:
  assumes "collector_inv c"
  shows "collector_inv (loopTake i c)"
proof (cases "i < length (mc_loops c)")
  case i: True
  note D = collector_invD(4-6) [OF assms]
  show ?thesis
  proof (cases "mc_loops c ! i")
    case (Selecting q)
    note up = mset_concat_update [OF i, of loopItem] length_concat_update [OF i, of loopItem]
    show ?thesis
    proof (cases "mc_workItems c")
      case (Cons w ws)
      show ?thesis
        by (rule inv_same_held [OF assms])
          (use i Selecting Cons D up [of "Sending w q"] in \<open>auto simp: loopTake_def setLoop_def mset_held\<close>)
    qed (use i Selecting assms in \<open>simp add: loopTake_def\<close>)
  qed (use i assms in \<open>simp_all add: loopTake_def\<close>)
qed (use assms in \<open>simp add: loopTake_def\<close>)

lemma sendToMetricsSink_simps [simp]:
  "mc_workItems (sendToMetricsSink nx w r c) = mc_workItems c" "mc_cap (sendToMetricsSink nx w r c) = mc_cap c"
  "mc_yielded (sendToMetricsSink nx w r c) = mc_yielded c" "mc_loops (sendToMetricsSink nx w r c) = mc_loops c"
  "mc_out (sendToMetricsSink nx w r c) = mc_out c" "mc_accepted (sendToMetricsSink nx w r c) = mc_accepted c"
  "mc_sunk (sendToMetricsSink nx w r c) = mc_sunk c @ [sinkMetrics nx w]"
  "mc_pool (sendToMetricsSink nx w r c) = Return (w\<lparr>wi_Metrics := sinkMetrics nx w\<rparr>) (mc_pool c)"
  "mc_quit (sendToMetricsSink nx w r c) = mc_quit c" "DroppedCount (sendToMetricsSink nx w r c) = DroppedCount c"
  "CollectedCount (sendToMetricsSink nx w r c) + SendFailedCount (sendToMetricsSink nx w r c) =
     CollectedCount c + SendFailedCount c + 1"
  by (cases r; simp add: sendToMetricsSink_def Let_def)+

lemma loopSend_inv:
  assumes "collector_inv c"
  shows "collector_inv (loopSend nx i r c)"
proof (cases "i < length (mc_loops c)")
  case i: True
  note D = collector_invD(4-6) [OF assms]
  show ?thesis
  proof (cases "mc_loops c ! i")
    case (Sending w q)
    define l :: "'a collect_loop" where "l = (if q \<and> mc_workItems c = [] then LoopExited else Selecting q)"
    have "loopItem l = []" by (simp add: l_def)
    note up = mset_concat_update [OF i, of loopItem l] length_concat_update [OF i, of loopItem l]
    have c': "loopSend nx i r c = setLoop i l (sendToMetricsSink nx w r c)" using i Sending by (simp add: loopSend_def l_def)
    show ?thesis unfolding c'
      by (rule inv_release [OF assms, of w _ "w\<lparr>wi_Metrics := sinkMetrics nx w\<rparr>"])
        (use Sending D up \<open>loopItem l = []\<close> in \<open>simp_all add: setLoop_def mset_held\<close>)
  qed (use i assms in \<open>simp_all add: loopSend_def\<close>)
qed (use assms in \<open>simp add: loopSend_def\<close>)

lemma loopQuit_inv:
  assumes "collector_inv c"
  shows "collector_inv (loopQuit i c)"
proof (cases "i < length (mc_loops c) \<and> mc_quit c")
  case i: True
  show ?thesis
  proof (cases "mc_loops c ! i")
    case (Selecting q)
    define l :: "'a collect_loop" where "l = (if mc_workItems c = [] then LoopExited else Selecting True)"
    have l: "loopItem l = []" by (simp add: l_def)
    have up: "mset (concat (map loopItem ((mc_loops c)[i := l]))) = mset (concat (map loopItem (mc_loops c)))"
      using mset_concat_update [of i "mc_loops c" loopItem l] i Selecting l by simp
    have c': "loopQuit i c = setLoop i l c" using i Selecting by (simp add: loopQuit_def l_def)
    show ?thesis unfolding c'
      by (rule inv_same_held [OF assms])
        (use collector_invD(4-6) [OF assms] up mset_eq_length [OF up] in \<open>simp_all add: setLoop_def mset_held\<close>)
  qed (use i assms in \<open>simp_all add: loopQuit_def\<close>)
next
  case False
  with assms show ?thesis by (auto simp: loopQuit_def)
qed

definition collectOk :: "'a collect_event \<Rightarrow> 'a collector \<Rightarrow> bool" where
  "collectOk e c \<longleftrightarrow> (case e of CollectCall w \<Rightarrow> wi_ptr w \<in> mc_out c | _ \<Rightarrow> True)"

lemma BorrowItem_inv:
  assumes "collector_inv c"
  shows "collector_inv (collectStep nx (BorrowItem pick) c)"
proof -
  obtain w pl where b: "Borrow pick (mc_pool c) = (w, pl)" by fastforce
  have B: "wi_ptr w \<notin> mc_out c \<union> wi_ptr ` set (heldItems c)"
    "pool_inv (insert (wi_ptr w) (mc_out c \<union> wi_ptr ` set (heldItems c))) pl"
    using Borrow_inv(1,3) [OF collector_invD(1) [OF assms] b] by blast+
  have "collectStep nx (BorrowItem pick) c = c\<lparr>mc_pool := pl, mc_out := insert (wi_ptr w) (mc_out c)\<rparr>"
    by (simp add: collectStep_def b)
  with B collector_invD(2-6) [OF assms] show ?thesis by (simp add: collector_inv_def heldItems_def)
qed

interpretation collecting: step_system "collectStep nx" collectOk collector_inv for nx
proof
  fix c :: "'a collector" and e
  assume inv: "collector_inv c" and ok: "collectOk e c"
  show "collector_inv (collectStep nx e c)"
  proof (cases e)
    case (CollectCall w)
    with ok CollectItem_inv [OF inv] show ?thesis by (simp add: collectStep_def collectOk_def)
  next
    case StartLoop
    with inv show ?thesis by (simp add: collectStep_def StartCollectingMetrics_def collector_inv_def heldItems_def)
  next
    case StopCalled
    with inv show ?thesis by (simp add: collectStep_def collectorStop_def collector_inv_def heldItems_def)
  qed (use inv in \<open>simp_all add: BorrowItem_inv\<close>,
       simp_all add: collectStep_def collectYielded_inv loopTake_inv loopSend_inv loopQuit_inv)
qed

section \<open>Every item is accounted for\<close>

fun ownedRun :: "nexus \<Rightarrow> 'a collect_event list \<Rightarrow> 'a collector \<Rightarrow> bool" where
  "ownedRun nx [] c = True"
| "ownedRun nx (e # es) c = (collectOk e c \<and> ownedRun nx es (collectStep nx e c))"

fun isCollect :: "'a collect_event \<Rightarrow> bool" where
  "isCollect (CollectCall w) = True"
| "isCollect _ = False"

lemma ownedRun_run_ok: "collecting.run_ok nx es c = ownedRun nx es c"
  by (induction es arbitrary: c) simp_all

lemma collectRun_inv: "collector_inv c \<Longrightarrow> ownedRun nx es c \<Longrightarrow> collector_inv (collectRun nx es c)"
  unfolding collectRun_def ownedRun_run_ok [symmetric] by (rule collecting.run_inv)

lemma collectRun_Cons: "collectRun nx (e # es) c = collectRun nx es (collectStep nx e c)"
  by (simp add: collectRun_def)

abbreviation itemTotal :: "'a collector \<Rightarrow> int" where
  "itemTotal c \<equiv> CollectedCount c + DroppedCount c + SendFailedCount c + int (length (heldItems c))"

lemma length_held:
  "length (heldItems c) = length (mc_workItems c) + length (mc_yielded c) + length (concat (map loopItem (mc_loops c)))"
  by (simp add: heldItems_def)

lemma total_loopTake: "itemTotal (loopTake i c) = itemTotal c"
proof (cases "i < length (mc_loops c)")
  case i: True
  show ?thesis
  proof (cases "mc_loops c ! i")
    case (Selecting q)
    show ?thesis
    proof (cases "mc_workItems c")
      case (Cons w ws)
      then show ?thesis using i Selecting length_concat_update [OF i, of loopItem "Sending w q"]
        by (simp add: loopTake_def setLoop_def length_held)
    qed (use i Selecting in \<open>simp add: loopTake_def\<close>)
  qed (use i in \<open>simp_all add: loopTake_def\<close>)
qed (simp add: loopTake_def)

lemma total_setLoop:
  assumes "i < length (mc_loops c)" "loopItem l = []"
  shows "itemTotal (setLoop i l c) = itemTotal c - int (length (loopItem (mc_loops c ! i)))"
  using length_concat_update [OF assms(1), of loopItem l] assms(2) by (simp add: setLoop_def length_held)

lemma total_loopSend: "itemTotal (loopSend nx i r c) = itemTotal c"
proof (cases "i < length (mc_loops c)")
  case i: True
  show ?thesis
  proof (cases "mc_loops c ! i")
    case (Sending w q)
    define l :: "'a collect_loop" where "l = (if q \<and> mc_workItems c = [] then LoopExited else Selecting q)"
    have l: "loopItem l = []" by (simp add: l_def)
    have "loopSend nx i r c = setLoop i l (sendToMetricsSink nx w r c)" using i Sending by (simp add: loopSend_def l_def)
    moreover have "itemTotal (sendToMetricsSink nx w r c) = itemTotal c + 1"
      using sendToMetricsSink_simps(11) [of nx w r c] by (simp add: length_held)
    ultimately show ?thesis using total_setLoop [of i "sendToMetricsSink nx w r c" l] i l Sending by simp
  qed (use i in \<open>simp_all add: loopSend_def\<close>)
qed (simp add: loopSend_def)

lemma total_loopQuit: "itemTotal (loopQuit i c) = itemTotal c"
proof (cases "i < length (mc_loops c) \<and> mc_quit c")
  case i: True
  show ?thesis
  proof (cases "mc_loops c ! i")
    case (Selecting q)
    define l :: "'a collect_loop" where "l = (if mc_workItems c = [] then LoopExited else Selecting True)"
    have "loopQuit i c = setLoop i l c" "loopItem l = []" using i Selecting by (simp_all add: loopQuit_def l_def)
    with i Selecting show ?thesis using total_setLoop [of i c l] by simp
  qed (use i in \<open>simp_all add: loopQuit_def\<close>)
qed (auto simp: loopQuit_def)

lemma total_collectYielded: "itemTotal (collectYielded w c) = itemTotal c"
proof (cases "w \<in> set (mc_yielded c)")
  case True
  then have "length (mc_yielded c) = Suc (length (remove1 w (mc_yielded c)))"
    using length_pos_if_in_set [OF True] by (simp add: length_remove1)
  then show ?thesis using True by (simp add: collectYielded_def enqueue_def length_held Let_def)
qed (simp add: collectYielded_def)

lemma total_step: "itemTotal (collectStep nx e c) = itemTotal c + (if isCollect e then 1 else 0)"
proof (cases e)
  case (CollectCall w)
  then show ?thesis by (simp add: collectStep_def CollectItem_def enqueue_def length_held)
next
  case (BorrowItem pick)
  then show ?thesis by (simp add: collectStep_def length_held split: prod.split)
next
  case StartLoop
  then show ?thesis by (simp add: collectStep_def StartCollectingMetrics_def length_held)
next
  case StopCalled
  then show ?thesis by (simp add: collectStep_def collectorStop_def length_held)
qed (simp_all add: collectStep_def total_loopTake total_loopSend total_loopQuit total_collectYielded)

lemma total_run: "itemTotal (collectRun nx es c) = itemTotal c + int (length (filter isCollect es))"
proof (induction es arbitrary: c)
  case (Cons e es)
  show ?case unfolding collectRun_Cons Cons.IH total_step by simp
qed (simp add: collectRun_def)

lemma loops_mono: "length (mc_loops c) \<le> length (mc_loops (collectStep nx e c))"
  by (cases e) (auto simp: collectStep_def CollectItem_def enqueue_def collectYielded_def StartCollectingMetrics_def loopTake_def
      loopSend_def loopQuit_def collectorStop_def setLoop_def Let_def split: prod.split collect_loop.split list.split)

lemma loops_mono_run: "length (mc_loops c) \<le> length (mc_loops (collectRun nx es c))"
proof (induction es arbitrary: c)
  case (Cons e es)
  show ?case unfolding collectRun_Cons by (rule order_trans [OF loops_mono Cons.IH])
qed (simp add: collectRun_def)

lemma mc_cap_step [simp]: "mc_cap (collectStep nx e c) = mc_cap c"
  by (cases e) (auto simp: collectStep_def CollectItem_def enqueue_def collectYielded_def StartCollectingMetrics_def loopTake_def
      loopSend_def loopQuit_def collectorStop_def setLoop_def Let_def split: prod.split collect_loop.split list.split)

lemma mc_cap_run: "mc_cap (collectRun nx es c) = mc_cap c"
  by (induction es arbitrary: c) (simp_all add: collectRun_def)

lemma in_order_step:
  assumes "in_order nx c" "length (mc_loops (collectStep nx e c)) \<le> 1"
  shows "in_order nx (collectStep nx e c)"
proof -
  have "length (mc_loops c) \<le> 1" using loops_mono [of c nx e] assms(2) by linarith
  then consider "mc_loops c = []" | l where "mc_loops c = [l]" by (cases "mc_loops c") auto
  then show ?thesis
  proof cases
    case 1
    with assms(1) show ?thesis
      by (cases e) (auto simp: in_order_def collectStep_def CollectItem_def enqueue_def collectYielded_def
          StartCollectingMetrics_def loopTake_def loopSend_def loopQuit_def collectorStop_def Let_def split: prod.split)
  next
    case (2 l)
    show ?thesis
    proof (cases e)
      case (LoopTake i)
      with 2 assms(1) show ?thesis
        by (cases l; cases "mc_workItems c"; cases i)
          (simp_all add: in_order_def collectStep_def loopTake_def setLoop_def)
    next
      case (LoopSend i r)
      with 2 assms(1) show ?thesis
        by (cases l; cases i) (simp_all add: in_order_def collectStep_def loopSend_def setLoop_def)
    next
      case (LoopQuit i)
      with 2 assms(1) show ?thesis
        by (cases l; cases i) (simp_all add: in_order_def collectStep_def loopQuit_def setLoop_def)
    next
      case StartLoop
      with 2 assms(2) show ?thesis by (simp add: collectStep_def StartCollectingMetrics_def)
    qed (use 2 assms(1) in \<open>auto simp: in_order_def collectStep_def CollectItem_def enqueue_def collectYielded_def
          collectorStop_def Let_def split: prod.split\<close>)
  qed
qed

lemma in_order_run:
  "in_order nx c \<Longrightarrow> length (mc_loops (collectRun nx es c)) \<le> 1 \<Longrightarrow> in_order nx (collectRun nx es c)"
proof (induction es arbitrary: c)
  case (Cons e es)
  have "length (mc_loops (collectStep nx e c)) \<le> 1"
    using loops_mono_run [of "collectStep nx e c" nx es] Cons.prems(2) by (simp add: collectRun_Cons)
  with Cons show ?case by (simp add: collectRun_Cons in_order_step)
qed (simp add: collectRun_def)

text \<open>
  C30. Metrics never lose a work item: in every interleaving of collecting callers, collect
  loops and borrowers from the pool, every item handed to the collector is counted once as
  collected, failed or dropped or is still held; no item is with the pipeline, in the
  collector and free in the pool at once; the channel stays within its capacity of 20000 to 100000; and with one
  collect loop the sink sees the items in the order the channel accepted them, each with its
  own partition and offset.
\<close>

theorem collector_accounts:
  assumes "pool_inv used pl" "ownedRun nx es (NewCollector cfg pl used)"
    and c: "c = collectRun nx es (NewCollector cfg pl used)"
  shows "CollectedCount c + DroppedCount c + SendFailedCount c + int (length (heldItems c)) =
      int (length (filter isCollect es)) \<and>
    int (length (mc_sunk c)) = CollectedCount c + SendFailedCount c \<and>
    pool_inv (mc_out c \<union> wi_ptr ` set (heldItems c)) (mc_pool c) \<and>
    distinct (map wi_ptr (heldItems c)) \<and> mc_out c \<inter> wi_ptr ` set (heldItems c) = {} \<and>
    length (mc_workItems c) \<le> mc_cap c \<and> 20000 \<le> mc_cap c \<and> mc_cap c \<le> 100000 \<and>
    (length (mc_loops c) \<le> 1 \<longrightarrow>
      prefix (map (\<lambda>m. (met_Partition m, met_Offset m)) (mc_sunk c)) (map PartitionOffset (mc_accepted c)))"
proof -
  have inv: "collector_inv c" unfolding c by (rule collectRun_inv [OF NewCollector_inv(1) [OF assms(1)] assms(2)])
  have "itemTotal c = int (length (filter isCollect es))"
    unfolding c total_run by (simp add: NewCollector_def heldItems_def)
  moreover have "prefix (map (\<lambda>m. (met_Partition m, met_Offset m)) (mc_sunk c)) (map PartitionOffset (mc_accepted c))"
    if "length (mc_loops c) \<le> 1"
  proof -
    have "in_order nx c"
      using in_order_run [OF NewCollector_inv(2) [OF assms(1)]] that unfolding c by blast
    then have "prefix (mc_sunk c) (map (sinkMetrics nx) (mc_accepted c))" by (auto simp: in_order_def prefix_def)
    from map_mono_prefix [OF this, of "\<lambda>m. (met_Partition m, met_Offset m)"] show ?thesis
      by (simp add: o_def sinkMetrics_def PartitionOffset_def [abs_def] Let_def)
  qed
  moreover have "20000 \<le> mc_cap c \<and> mc_cap c \<le> 100000"
    unfolding c mc_cap_run by (auto simp: NewCollector_def CalculateCollectBufferSize_def Let_def)
  ultimately show ?thesis using collector_invD [OF inv] by blast
qed

section \<open>Stopping\<close>

fun loopEvent :: "'a collect_event \<Rightarrow> bool" where
  "loopEvent (LoopTake i) = True"
| "loopEvent (LoopSend i r) = True"
| "loopEvent (LoopQuit i) = True"
| "loopEvent _ = False"

fun loopEffort :: "'a collect_loop \<Rightarrow> nat" where
  "loopEffort (Selecting q) = (if q then 1 else 2)"
| "loopEffort (Sending w q) = (if q then 2 else 3)"
| "loopEffort LoopExited = 0"

definition stopEffort :: "'a collector \<Rightarrow> nat" where
  "stopEffort c = 2 * length (mc_workItems c) + sum_list (map loopEffort (mc_loops c))"

text \<open>
  The steps of a run that change something: a loop that has seen the closed quit channel may
  select it again any number of times while items are waiting.
\<close>

fun effective :: "nexus \<Rightarrow> 'a collect_event list \<Rightarrow> 'a collector \<Rightarrow> nat" where
  "effective nx [] c = 0"
| "effective nx (e # es) c =
     (if collectStep nx e c = c then 0 else 1) + effective nx es (collectStep nx e c)"

lemma effort_update:
  assumes "i < length ls"
  shows "sum_list (map loopEffort (ls[i := l])) + loopEffort (ls ! i) = sum_list (map loopEffort ls) + loopEffort l"
proof -
  have "sum_list (map loopEffort ls) = sum_list (map loopEffort (take i ls @ ls ! i # drop (Suc i) ls))"
    using id_take_nth_drop [OF assms] by simp
  then show ?thesis by (simp add: upd_conv_take_nth_drop [OF assms])
qed

lemma loop_step_cases:
  assumes "loopEvent e" "collectStep nx e c \<noteq> c"
  obtains
    (take) i w ws q where "i < length (mc_loops c)" "mc_loops c ! i = Selecting q" "mc_workItems c = w # ws"
      "collectStep nx e c = setLoop i (Sending w q) (c\<lparr>mc_workItems := ws\<rparr>)"
  | (send) i w q r l where "i < length (mc_loops c)" "mc_loops c ! i = Sending w q"
      "l = (if q \<and> mc_workItems c = [] then LoopExited else Selecting q)"
      "collectStep nx e c = setLoop i l (sendToMetricsSink nx w r c)"
  | (quit) i q l where "i < length (mc_loops c)" "mc_loops c ! i = Selecting q"
      "l = (if mc_workItems c = [] then LoopExited else Selecting True)" "l \<noteq> mc_loops c ! i"
      "collectStep nx e c = setLoop i l c"
proof (cases e)
  case (LoopTake i)
  with assms show ?thesis
    by (auto simp: collectStep_def loopTake_def split: if_splits collect_loop.splits list.splits intro: take)
next
  case (LoopSend i r)
  with assms show ?thesis
    by (auto simp: collectStep_def loopSend_def split: if_splits collect_loop.splits intro: send)
next
  case (LoopQuit i)
  then obtain q where i: "i < length (mc_loops c)" "mc_loops c ! i = Selecting q"
    using assms by (auto simp: collectStep_def loopQuit_def split: if_splits collect_loop.splits)
  define l :: "'a collect_loop" where "l = (if mc_workItems c = [] then LoopExited else Selecting True)"
  have step: "collectStep nx e c = setLoop i l c \<or> collectStep nx e c = c"
    using LoopQuit i by (auto simp: collectStep_def loopQuit_def l_def)
  moreover from this assms(2) have "l \<noteq> mc_loops c ! i" by (auto simp: setLoop_def)
  ultimately show ?thesis using quit [OF i l_def] assms(2) by blast
qed (use assms in simp_all)

lemma stopEffort_step:
  assumes "loopEvent e" "collectStep nx e c \<noteq> c"
  shows "stopEffort (collectStep nx e c) < stopEffort c"
  using assms
proof (cases rule: loop_step_cases)
  case (take i w ws q)
  with effort_update [OF take(1), of "Sending w q"] show ?thesis
    by (simp add: stopEffort_def setLoop_def split: if_splits)
next
  case (send i w q r l)
  with effort_update [OF send(1), of l] show ?thesis
    by (simp add: stopEffort_def setLoop_def split: if_splits)
next
  case (quit i q l)
  with effort_update [OF quit(1), of l] show ?thesis
    by (simp add: stopEffort_def setLoop_def split: if_splits)
qed

lemma effective_bounded: "list_all loopEvent es \<Longrightarrow> effective nx es c \<le> stopEffort c"
proof (induction es arbitrary: c)
  case (Cons e es)
  have e: "loopEvent e" and IH: "effective nx es (collectStep nx e c) \<le> stopEffort (collectStep nx e c)"
    using Cons by simp_all
  show ?case
  proof (cases "collectStep nx e c = c")
    case False
    from stopEffort_step [OF e False] IH False show ?thesis by simp
  qed (use IH in simp)
qed simp

definition exit_clean :: "'a collector \<Rightarrow> bool" where
  "exit_clean c \<longleftrightarrow> mc_quit c \<and> mc_loops c \<noteq> [] \<and> (LoopExited \<in> set (mc_loops c) \<longrightarrow> mc_workItems c = [])"

lemma exit_clean_step:
  assumes "exit_clean c" "loopEvent e"
  shows "exit_clean (collectStep nx e c)"
proof (cases "collectStep nx e c = c")
  case False
  have upd: "x \<in> set ((mc_loops c)[i := l]) \<Longrightarrow> x = l \<or> x \<in> set (mc_loops c)" for x i l
    using set_update_subset_insert [of "mc_loops c" i l] by blast
  from assms(2) False show ?thesis
  proof (cases rule: loop_step_cases)
    case (take i w ws q)
    with assms(1) upd [of LoopExited] show ?thesis by (auto simp: exit_clean_def setLoop_def)
  next
    case (send i w q r l)
    with assms(1) upd [of LoopExited] show ?thesis by (auto simp: exit_clean_def setLoop_def split: if_splits)
  next
    case (quit i q l)
    with assms(1) upd [of LoopExited] show ?thesis by (auto simp: exit_clean_def setLoop_def split: if_splits)
  qed
qed (use assms in simp)

lemma exit_clean_run: "exit_clean c \<Longrightarrow> list_all loopEvent es \<Longrightarrow> exit_clean (collectRun nx es c)"
  by (induction es arbitrary: c) (simp_all add: collectRun_def exit_clean_step)

lemma loop_stuck:
  assumes "mc_quit c" "l \<in> set (mc_loops c)" "\<And>e. loopEvent e \<Longrightarrow> collectStep nx e c = c"
  shows "l = LoopExited"
proof -
  obtain i where i: "i < length (mc_loops c)" "mc_loops c ! i = l" using assms(2) by (auto simp: in_set_conv_nth)
  have no: "(mc_loops c)[i := l'] = mc_loops c \<Longrightarrow> l' = l" for l'
    using i by (metis nth_list_update_eq)
  show ?thesis
  proof (cases l)
    case (Selecting q)
    show ?thesis
    proof (cases "mc_workItems c")
      case Nil
      with assms(3) [of "LoopQuit i"] assms(1) i Selecting have "setLoop i LoopExited c = c"
        by (simp add: collectStep_def loopQuit_def)
      then have "(mc_loops c)[i := LoopExited] = mc_loops c" by (auto simp: setLoop_def dest: arg_cong [of _ _ mc_loops])
      then show ?thesis using no by blast
    next
      case (Cons w ws)
      with assms(3) [of "LoopTake i"] i Selecting have "setLoop i (Sending w q) (c\<lparr>mc_workItems := ws\<rparr>) = c"
        by (simp add: collectStep_def loopTake_def)
      then have "mc_workItems c = ws" by (auto simp: setLoop_def dest: arg_cong [of _ _ mc_workItems])
      with Cons show ?thesis by simp
    qed
  next
    case (Sending w q)
    with assms(3) [of "LoopSend i SinkOk"] i have
      "setLoop i (if q \<and> mc_workItems c = [] then LoopExited else Selecting q) (sendToMetricsSink nx w SinkOk c) = c"
      by (simp add: collectStep_def loopSend_def)
    then have "mc_sunk c @ [sinkMetrics nx w] = mc_sunk c"
      by (auto simp: setLoop_def dest: arg_cong [of _ _ mc_sunk])
    then show ?thesis by simp
  qed simp
qed

text \<open>
  C31. Stopping delivers what is buffered: once the quit channel is closed and nothing more is
  collected, the running collect loops take a bounded number of steps that change anything,
  and when none is left to take all of them have exited, so \<open>Stop\<close> returns, and the channel
  is empty: every accepted item was given to the sink and returned to the pool.
\<close>

theorem collector_stop_drains:
  assumes "mc_quit c" "mc_loops c \<noteq> []" "LoopExited \<notin> set (mc_loops c)" "list_all loopEvent es"
    and c': "c' = collectRun nx es c"
  shows "effective nx es c \<le> stopEffort c \<and>
    ((\<forall>e. loopEvent e \<longrightarrow> collectStep nx e c' = c') \<longrightarrow>
      stopped c' \<and> mc_workItems c' = [] \<and> heldItems c' = mc_yielded c')"
proof (intro conjI impI)
  show "effective nx es c \<le> stopEffort c" by (rule effective_bounded [OF assms(4)])
  assume stuck: "\<forall>e. loopEvent e \<longrightarrow> collectStep nx e c' = c'"
  have clean: "exit_clean c'" unfolding c' by (rule exit_clean_run [OF _ assms(4)]) (use assms in \<open>simp add: exit_clean_def\<close>)
  then have all: "\<forall>l \<in> set (mc_loops c'). l = LoopExited"
    using loop_stuck [of c' _ nx] stuck by (auto simp: exit_clean_def)
  with clean have "LoopExited \<in> set (mc_loops c')" unfolding exit_clean_def by (metis last_in_set)
  with clean show "mc_workItems c' = []" by (simp add: exit_clean_def)
  moreover have "concat (map loopItem (mc_loops c')) = []" using all by auto
  ultimately show "heldItems c' = mc_yielded c'" by (simp add: heldItems_def)
  from clean all show "stopped c'" by (simp add: exit_clean_def stopped_def)
qed

section \<open>Runs\<close>

definition exCollector :: "unit collector" where
  "exCollector = NewCollector exConfig (exPool\<lparr>nextPtr := 5\<rparr>) {0, 3, 4}"

definition exFirst :: "unit collect_event list" where
  "exFirst = [StartLoop, CollectCall (exItem 3 0 7 6 False), LoopTake 0, CollectCall (exItem 4 0 8 7 False),
     LoopSend 0 (SinkPanic ''sink''), BorrowItem (Some 0), StopCalled]"

definition exRemaining :: "unit collect_event list" where
  "exRemaining = [LoopQuit 0, LoopTake 0, LoopSend 0 SinkOk]"

definition exCollected :: "unit collector" where
  "exCollected = collectRun exNexus exFirst exCollector"

lemmas collector_eval = collectRun_def exCollector_def NewCollector_def collectStep_def CollectItem_def enqueue_def
  StartCollectingMetrics_def loopTake_def loopSend_def loopQuit_def setLoop_def sendToMetricsSink_def collectorStop_def
  Borrow_def Return_def exPool_def CalculateCollectBufferSize_def exConfig_def Let_def

lemma exCollector_owned: "ownedRun exNexus exFirst exCollector"
  by (simp add: exFirst_def collectOk_def collector_eval exItem_def)

lemma exCollected_state:
  "mc_sunk exCollected = [sinkMetrics exNexus (exItem 3 0 7 6 False)]"
  "SendFailedCount exCollected = 1" "CollectedCount exCollected = 0" "DroppedCount exCollected = 0"
  "heldItems exCollected = [exItem 4 0 8 7 False]" "mc_out exCollected = {0, 3}"
  "mc_loops exCollected = [Selecting False]" "mc_quit exCollected" "mc_workItems exCollected = [exItem 4 0 8 7 False]"
  by (auto simp: exCollected_def exFirst_def collector_eval heldItems_def exItem_def)

theorem collector_accounts_witness:
  "pool_inv {0, 3, 4} (exPool\<lparr>nextPtr := 5\<rparr>) \<and> ownedRun exNexus exFirst exCollector \<and>
   SendFailedCount exCollected = 1 \<and> heldItems exCollected = [exItem 4 0 8 7 False] \<and>
   pool_inv (mc_out exCollected \<union> wi_ptr ` set (heldItems exCollected)) (mc_pool exCollected) \<and>
   prefix [(0, 7)] (map PartitionOffset (mc_accepted exCollected))"
proof -
  have p: "pool_inv {0, 3, 4} (exPool\<lparr>nextPtr := 5\<rparr>)" by (simp add: pool_inv_def exPool_def)
  have "map (\<lambda>m. (met_Partition m, met_Offset m)) (mc_sunk exCollected) = [(0, 7)]"
    by (simp add: exCollected_state sinkMetrics_def exItem_def Let_def)
  with collector_accounts [OF p exCollector_owned [unfolded exCollector_def], of exCollected] p exCollector_owned
  show ?thesis by (auto simp: exCollected_def exCollector_def exCollected_state [unfolded exCollected_def exCollector_def])
qed

theorem collector_stop_drains_witness:
  "list_all loopEvent exRemaining \<and> effective exNexus exRemaining exCollected \<le> 4 \<and>
   stopped (collectRun exNexus exRemaining exCollected) \<and> heldItems (collectRun exNexus exRemaining exCollected) = []"
proof -
  let ?c = "collectRun exNexus exRemaining exCollected"
  have ev: "list_all loopEvent exRemaining" by (simp add: exRemaining_def)
  have l: "mc_loops ?c = [LoopExited]" "mc_yielded ?c = []"
    by (simp_all add: exRemaining_def exCollected_def exFirst_def collector_eval)
  have "collectStep exNexus e ?c = ?c" if "loopEvent e" for e
    using that l(1) by (cases e) (simp_all add: collectStep_def loopTake_def loopSend_def loopQuit_def nth_Cons split: nat.split)
  with collector_stop_drains [of exCollected exRemaining ?c exNexus] ev l(2) show ?thesis
    by (simp add: exCollected_state stopEffort_def)
qed

end
