(* ===== verification/Bandwidth_Aggregator.thy ===== *)
theory Bandwidth_Aggregator
  imports Demux_Prelude
begin

text \<open>
  The bandwidth telemetry aggregator (demux/bandwidth/aggregator.go): packets are buffered
  under a lock and forwarded to a sink outside of it, by a timer, by the caller that fills the
  buffer, and once more when the aggregator stops. These may overlap, so taking the buffer and
  each delivery are steps of their own. The payload of a packet is the nexus package's and
  stays abstract; the sink's answer is an argument of the delivery.
\<close>

section \<open>State and operations\<close>

record ('s, 'p) packet =
  pk_Service :: "'s option"
  pk_Payload :: 'p

record ('s, 'p) aggregator =
  agg_service :: "'s option"
  agg_buffer :: "('s, 'p) packet list"
  flushInterval :: duration
  maxBuffer :: nat
  agg_started :: bool
  agg_quit :: bool
  agg_due :: nat
  agg_batches :: "('s, 'p) packet list list"
  agg_sent :: "('s, 'p) packet list"
  flushedCount :: int
  droppedCount :: int

text \<open>
  \<open>agg_due\<close> counts the callers of \<open>Receive\<close> that found the buffer full and are about to
  flush, \<open>agg_batches\<close> are the batches taken from the buffer with what is left of each to
  deliver, \<open>agg_sent\<close> the packets the sink was called with.
\<close>

type_synonym ('s, 'p) aggregator_option = "('s, 'p) aggregator \<Rightarrow> ('s, 'p) aggregator"

definition WithFlushInterval :: "duration \<Rightarrow> ('s, 'p) aggregator_option" where
  "WithFlushInterval d a = (if d > 0 then a\<lparr>flushInterval := d\<rparr> else a)"

definition WithService :: "'s option \<Rightarrow> ('s, 'p) aggregator_option" where
  "WithService service a = a\<lparr>agg_service := service\<rparr>"

definition defaultFlushInterval :: duration where
  "defaultFlushInterval = 60 * second"

definition defaultMaxBuffer :: nat where
  "defaultMaxBuffer = 50"

definition NewAggregator :: "('s, 'p) aggregator_option list \<Rightarrow> ('s, 'p) aggregator" where
  "NewAggregator opts = fold (\<lambda>opt. opt) opts
     \<lparr>agg_service = None, agg_buffer = [], flushInterval = defaultFlushInterval, maxBuffer = defaultMaxBuffer,
      agg_started = False, agg_quit = False, agg_due = 0, agg_batches = [], agg_sent = [], flushedCount = 0,
      droppedCount = 0\<rparr>"

definition aggStart :: "('s, 'p) aggregator \<Rightarrow> ('s, 'p) aggregator" where
  "aggStart a = a\<lparr>agg_started := True\<rparr>"

definition stamped :: "'s option \<Rightarrow> ('s, 'p) packet \<Rightarrow> ('s, 'p) packet" where
  "stamped service p = (case service of Some s \<Rightarrow> p\<lparr>pk_Service := Some s\<rparr> | None \<Rightarrow> p)"

definition aggReceive :: "('s, 'p) packet \<Rightarrow> ('s, 'p) aggregator \<Rightarrow> ('s, 'p) aggregator" where
  "aggReceive packet a =
     (let a1 = a\<lparr>agg_buffer := agg_buffer a @ [stamped (agg_service a) packet]\<rparr>
      in if length (agg_buffer a1) \<ge> maxBuffer a1 then a1\<lparr>agg_due := agg_due a1 + 1\<rparr> else a1)"

text \<open>\<open>flush\<close>: the part under the lock, and the delivery of the first packet of a batch.\<close>

definition takeBuffer :: "('s, 'p) aggregator \<Rightarrow> ('s, 'p) aggregator" where
  "takeBuffer a =
     (if agg_buffer a = [] then a
      else a\<lparr>agg_buffer := [], agg_batches := agg_batches a @ [agg_buffer a]\<rparr>)"

definition deliver :: "nat \<Rightarrow> string option \<Rightarrow> ('s, 'p) aggregator \<Rightarrow> ('s, 'p) aggregator" where
  "deliver i err a =
     (if i < length (agg_batches a) then
        (case agg_batches a ! i of
           [] \<Rightarrow> a
         | p # ps \<Rightarrow>
             (let a1 = a\<lparr>agg_batches := (agg_batches a)[i := ps], agg_sent := agg_sent a @ [p]\<rparr>
              in if err \<noteq> None then a1\<lparr>droppedCount := droppedCount a + 1\<rparr>
                 else a1\<lparr>flushedCount := flushedCount a + 1\<rparr>))
      else a)"

definition aggStop :: "('s, 'p) aggregator \<Rightarrow> ('s, 'p) aggregator" where
  "aggStop a = a\<lparr>agg_quit := True\<rparr>"

record aggregator_stats =
  stats_Flushed :: int
  stats_AggDropped :: int

definition aggStats :: "('s, 'p) aggregator \<Rightarrow> aggregator_stats" where
  "aggStats a = \<lparr>stats_Flushed = flushedCount a, stats_AggDropped = droppedCount a\<rparr>"

text \<open>
  The events: a received packet, the flush its caller owes, a tick of the flush loop while it
  runs, the final flush of \<open>Stop\<close>, which comes after the flush loop has exited, and
  deliveries.
\<close>

datatype ('s, 'p) agg_event =
    AggStart
  | ReceivePacket "('s, 'p) packet"
  | FlushDue
  | FlushTick
  | AggStop
  | FlushFinal
  | DeliverNext nat "string option"

definition aggStep :: "('s, 'p) agg_event \<Rightarrow> ('s, 'p) aggregator \<Rightarrow> ('s, 'p) aggregator" where
  "aggStep e a =
     (case e of
        AggStart \<Rightarrow> aggStart a
      | ReceivePacket p \<Rightarrow> aggReceive p a
      | FlushDue \<Rightarrow> if agg_due a > 0 then takeBuffer (a\<lparr>agg_due := agg_due a - 1\<rparr>) else a
      | FlushTick \<Rightarrow> if agg_started a \<and> \<not> agg_quit a then takeBuffer a else a
      | AggStop \<Rightarrow> aggStop a
      | FlushFinal \<Rightarrow> if agg_quit a then takeBuffer a else a
      | DeliverNext i err \<Rightarrow> deliver i err a)"

definition aggRun :: "('s, 'p) agg_event list \<Rightarrow> ('s, 'p) aggregator \<Rightarrow> ('s, 'p) aggregator" where
  "aggRun es a = fold aggStep es a"

section \<open>No packet is lost\<close>

fun receivedBy :: "('s, 'p) agg_event list \<Rightarrow> ('s, 'p) packet list" where
  "receivedBy [] = []"
| "receivedBy (ReceivePacket p # es) = p # receivedBy es"
| "receivedBy (_ # es) = receivedBy es"

definition agg_content :: "('s, 'p) aggregator \<Rightarrow> ('s, 'p) packet list" where
  "agg_content a = agg_sent a @ concat (agg_batches a) @ agg_buffer a"

definition agg_inv :: "('s, 'p) aggregator \<Rightarrow> bool" where
  "agg_inv a \<longleftrightarrow> (length (agg_buffer a) \<ge> maxBuffer a \<longrightarrow> agg_due a > 0) \<and> maxBuffer a > 0 \<and>
     flushedCount a \<ge> 0 \<and> droppedCount a \<ge> 0 \<and> int (length (agg_sent a)) = flushedCount a + droppedCount a"

lemma mset_content:
  "mset (agg_content a) = mset (agg_sent a) + mset (concat (agg_batches a)) + mset (agg_buffer a)"
  by (simp add: agg_content_def)

lemma takeBuffer_content: "agg_content (takeBuffer a) = agg_content a"
  by (simp add: takeBuffer_def agg_content_def)

lemma deliver_content: "mset (agg_content (deliver i err a)) = mset (agg_content a)"
proof (cases "i < length (agg_batches a)")
  case i: True
  define xs ys where "xs = take i (agg_batches a)" and "ys = drop (Suc i) (agg_batches a)"
  have split: "agg_batches a = xs @ agg_batches a ! i # ys" unfolding xs_def ys_def by (rule id_take_nth_drop [OF i])
  have upd: "(agg_batches a)[i := b] = xs @ b # ys" for b unfolding xs_def ys_def by (rule upd_conv_take_nth_drop [OF i])
  have all: "mset (concat (agg_batches a)) = mset (concat xs) + mset (agg_batches a ! i) + mset (concat ys)"
    by (subst split) simp
  show ?thesis using i all by (cases "agg_batches a ! i") (simp_all add: deliver_def upd mset_content Let_def)
qed (simp add: deliver_def)

lemma aggStep_service [simp]: "agg_service (aggStep e a) = agg_service a"
  by (cases e) (auto simp: aggStep_def aggStart_def aggReceive_def takeBuffer_def aggStop_def deliver_def Let_def split: list.split)

lemma aggStep_content:
  "mset (agg_content (aggStep e a)) = mset (agg_content a) + mset (map (stamped (agg_service a)) (receivedBy [e]))"
  by (cases e) (simp_all add: aggStep_def takeBuffer_content deliver_content, simp_all add: agg_content_def aggStart_def
      aggReceive_def aggStop_def takeBuffer_def Let_def)

lemma receivedBy_Cons: "receivedBy (e # es) = receivedBy [e] @ receivedBy es"
  by (cases e) simp_all

lemma aggRun_content:
  "mset (agg_content (aggRun es a)) = mset (agg_content a) + mset (map (stamped (agg_service a)) (receivedBy es))"
proof (induction es arbitrary: a)
  case (Cons e es)
  have "aggRun (e # es) a = aggRun es (aggStep e a)" by (simp add: aggRun_def)
  with Cons.IH [of "aggStep e a"] show ?case by (simp add: aggStep_content receivedBy_Cons [of e es])
qed (simp add: aggRun_def)

lemma takeBuffer_inv: "agg_inv a \<or> agg_inv (a\<lparr>agg_due := d\<rparr>) \<Longrightarrow> agg_inv (takeBuffer (a\<lparr>agg_due := d'\<rparr>))"
  by (auto simp: takeBuffer_def agg_inv_def)

lemma deliver_agg_inv: "agg_inv a \<Longrightarrow> agg_inv (deliver i err a)"
  by (auto simp: deliver_def agg_inv_def Let_def split: list.split)

interpretation aggregating: step_system aggStep "\<lambda>_ _. True" agg_inv
proof
  fix a :: "('s, 'p) aggregator" and e
  assume inv: "agg_inv a"
  have take: "agg_inv (takeBuffer (a\<lparr>agg_due := d\<rparr>))" for d using inv by (blast intro: takeBuffer_inv)
  from take [of "agg_due a"] have "agg_inv (takeBuffer a)" by simp
  with inv take deliver_agg_inv [OF inv] show "agg_inv (aggStep e a)"
    by (cases e) (auto simp: aggStep_def, auto simp: agg_inv_def aggStart_def aggReceive_def aggStop_def Let_def)
qed

text \<open>Runs in which a flush starts only after the last one has delivered its batch.\<close>

fun serialFlushes :: "('s, 'p) agg_event list \<Rightarrow> ('s, 'p) aggregator \<Rightarrow> bool" where
  "serialFlushes [] a = True"
| "serialFlushes (e # es) a =
     ((e \<in> {FlushDue, FlushTick, FlushFinal} \<longrightarrow> concat (agg_batches a) = []) \<and> serialFlushes es (aggStep e a))"

definition single_batch :: "('s, 'p) aggregator \<Rightarrow> bool" where
  "single_batch a \<longleftrightarrow> (\<forall>b \<in> set (butlast (agg_batches a)). b = [])"

lemma takeBuffer_single:
  assumes "concat (agg_batches a) = []"
  shows "single_batch (takeBuffer (a\<lparr>agg_due := d\<rparr>))"
  using assms by (auto simp: takeBuffer_def single_batch_def dest: in_set_butlastD)

lemma deliver_serial:
  assumes "single_batch a"
  shows "single_batch (deliver i err a) \<and> agg_content (deliver i err a) = agg_content a"
proof (cases "i < length (agg_batches a)")
  case i: True
  then obtain bs b where bs: "agg_batches a = bs @ [b]" by (cases "agg_batches a" rule: rev_cases) auto
  have empty: "\<forall>b \<in> set bs. b = []" using assms by (simp add: single_batch_def bs)
  then have nil: "concat bs = []" by simp
  show ?thesis
  proof (cases "i = length bs")
    case True
    with bs nil empty show ?thesis
      by (cases b) (simp_all add: deliver_def single_batch_def agg_content_def Let_def list_update_append
          del: concat_eq_Nil_conv)
  next
    case False
    with i bs have "i < length bs" by simp
    then have "agg_batches a ! i = []" using empty bs by (simp add: nth_append)
    with assms show ?thesis by (simp add: deliver_def)
  qed
qed (use assms in \<open>simp add: deliver_def\<close>)

lemma aggStep_serial:
  assumes "single_batch a" "e \<in> {FlushDue, FlushTick, FlushFinal} \<longrightarrow> concat (agg_batches a) = []"
  shows "single_batch (aggStep e a) \<and>
    agg_content (aggStep e a) = agg_content a @ map (stamped (agg_service a)) (receivedBy [e])"
proof -
  have take: "single_batch (takeBuffer (a\<lparr>agg_due := d\<rparr>)) \<and> agg_content (takeBuffer (a\<lparr>agg_due := d\<rparr>)) = agg_content a"
    if "e \<in> {FlushDue, FlushTick, FlushFinal}" for d
    using takeBuffer_single [OF mp [OF assms(2) that], of d] takeBuffer_content [of "a\<lparr>agg_due := d\<rparr>"]
    by (simp add: agg_content_def)
  show ?thesis
  proof (cases e)
    case (DeliverNext i err)
    with deliver_serial [OF assms(1)] show ?thesis by (simp add: aggStep_def)
  next
    case FlushDue
    with take [of "agg_due a - 1"] assms(1) show ?thesis by (simp add: aggStep_def)
  next
    case FlushTick
    with take [of "agg_due a"] assms(1) show ?thesis by (simp add: aggStep_def)
  next
    case FlushFinal
    with take [of "agg_due a"] assms(1) show ?thesis by (simp add: aggStep_def)
  qed (use assms(1) in \<open>simp_all add: aggStep_def single_batch_def agg_content_def aggStart_def aggReceive_def aggStop_def Let_def\<close>)
qed

lemma aggRun_serial:
  "single_batch a \<Longrightarrow> serialFlushes es a \<Longrightarrow>
   agg_content (aggRun es a) = agg_content a @ map (stamped (agg_service a)) (receivedBy es)"
proof (induction es arbitrary: a)
  case (Cons e es)
  from Cons.prems(2) have "e \<in> {FlushDue, FlushTick, FlushFinal} \<longrightarrow> concat (agg_batches a) = []" by simp
  note step = aggStep_serial [OF Cons.prems(1) this]
  have "aggRun (e # es) a = aggRun es (aggStep e a)" by (simp add: aggRun_def)
  with Cons.IH [of "aggStep e a"] Cons.prems(2) step show ?case by (simp add: receivedBy_Cons [of e es])
qed (simp add: aggRun_def)

lemma NewAggregator_start:
  "agg_content (NewAggregator [WithFlushInterval d, WithService s]) = []"
  "agg_inv (NewAggregator [WithFlushInterval d, WithService s])"
  "single_batch (NewAggregator [WithFlushInterval d, WithService s])"
  "agg_service (NewAggregator [WithFlushInterval d, WithService s]) = s"
  by (simp_all add: NewAggregator_def WithFlushInterval_def WithService_def agg_content_def agg_inv_def single_batch_def
      defaultMaxBuffer_def)

lemma aggregating_ok: "aggregating.run_ok es a"
  by (induction es arbitrary: a) simp_all

text \<open>
  C37. Bandwidth packets are conserved: however receivers, the flush timer and the final flush
  interleave, every packet received, stamped with the configured service, is in the buffer, in
  a batch being delivered, or was given to the sink exactly once; flushed and dropped count the
  packets given to it; and the buffer holds fewer packets than its threshold unless a caller
  is about to flush it. When flushes do not overlap, the sink sees the packets in order.
\<close>

theorem bandwidth_conserved:
  assumes "a = aggRun es (NewAggregator [WithFlushInterval d, WithService s])"
  shows "mset (agg_sent a) + mset (concat (agg_batches a)) + mset (agg_buffer a) = mset (map (stamped s) (receivedBy es)) \<and>
    flushedCount a + droppedCount a = int (length (agg_sent a)) \<and> flushedCount a \<ge> 0 \<and> droppedCount a \<ge> 0 \<and>
    (length (agg_buffer a) < maxBuffer a \<or> agg_due a > 0) \<and>
    (serialFlushes es (NewAggregator [WithFlushInterval d, WithService s]) \<longrightarrow>
      agg_sent a @ concat (agg_batches a) @ agg_buffer a = map (stamped s) (receivedBy es))"
proof -
  let ?a0 = "NewAggregator [WithFlushInterval d, WithService s]"
  have inv: "agg_inv a"
    using aggregating.run_inv [OF NewAggregator_start(2) aggregating_ok] unfolding assms aggRun_def .
  have m: "mset (agg_content a) = mset (map (stamped s) (receivedBy es))"
    unfolding assms aggRun_content by (simp add: NewAggregator_start)
  have serial: "serialFlushes es ?a0 \<longrightarrow> agg_content a = map (stamped s) (receivedBy es)"
    using aggRun_serial [OF NewAggregator_start(3), of es] unfolding assms by (simp add: NewAggregator_start)
  from inv have "flushedCount a + droppedCount a = int (length (agg_sent a))" "flushedCount a \<ge> 0" "droppedCount a \<ge> 0"
    "length (agg_buffer a) < maxBuffer a \<or> agg_due a > 0"
    unfolding agg_inv_def by linarith+
  with m [unfolded mset_content] serial [unfolded agg_content_def] show ?thesis by blast
qed

definition exPacket :: "nat \<Rightarrow> (nat, nat) packet" where
  "exPacket n = \<lparr>pk_Service = None, pk_Payload = n\<rparr>"

definition exAggRun :: "(nat, nat) agg_event list" where
  "exAggRun = [AggStart, ReceivePacket (exPacket 1), ReceivePacket (exPacket 2), FlushTick, DeliverNext 0 None,
     ReceivePacket (exPacket 3), DeliverNext 0 (Some ''sink''), AggStop, FlushFinal]"

theorem bandwidth_conserved_witness:
  "serialFlushes exAggRun (NewAggregator [WithFlushInterval 0, WithService (Some 9)]) \<and>
   (let a = aggRun exAggRun (NewAggregator [WithFlushInterval 0, WithService (Some 9)]) in
     flushedCount a = 1 \<and> droppedCount a = 1 \<and>
     agg_sent a @ concat (agg_batches a) @ agg_buffer a =
       map (\<lambda>n. \<lparr>pk_Service = Some 9, pk_Payload = n\<rparr>) [1, 2, 3])"
proof -
  let ?a0 = "NewAggregator [WithFlushInterval 0, WithService (Some 9)] :: (nat, nat) aggregator"
  have s: "serialFlushes exAggRun ?a0" by code_simp
  have n: "flushedCount (aggRun exAggRun ?a0) = 1" "droppedCount (aggRun exAggRun ?a0) = 1" by code_simp+
  have "map (stamped (Some 9)) (receivedBy exAggRun) = map (\<lambda>n. \<lparr>pk_Service = Some 9, pk_Payload = n\<rparr>) [1, 2, 3]"
    by (simp add: exAggRun_def exPacket_def stamped_def)
  moreover have "serialFlushes exAggRun ?a0 \<longrightarrow> agg_sent (aggRun exAggRun ?a0) @
      concat (agg_batches (aggRun exAggRun ?a0)) @ agg_buffer (aggRun exAggRun ?a0) =
      map (stamped (Some 9)) (receivedBy exAggRun)"
    using bandwidth_conserved [OF refl, of exAggRun 0 "Some 9"] by blast
  ultimately have "agg_sent (aggRun exAggRun ?a0) @ concat (agg_batches (aggRun exAggRun ?a0)) @
      agg_buffer (aggRun exAggRun ?a0) = map (\<lambda>n. \<lparr>pk_Service = Some 9, pk_Payload = n\<rparr>) [1, 2, 3]"
    using s by (simp only: simp_thms)
  then show ?thesis unfolding Let_def using s n by (intro conjI)
qed

end
