(* ===== verification/Rate_Limiter.thy ===== *)
theory Rate_Limiter
  imports Demux_Prelude
begin

text \<open>
  The optional rate limiters (demux/pipeline/throttle). A token bucket is a channel of \<open>burst\<close>
  tokens, filled at the start, and a producer that moves the ticks of a ticker into it. The
  ticker's channel holds one tick and drops further ones, and none is left in it once the
  ticker is stopped (Go 1.23 and later). The producer's
  \<open>case c <- <-ticker.C\<close> receives its tick on entering the select, so the cancelled context is
  looked at only while a tick is in hand; the producer's position is part of the state.
\<close>

section \<open>State and operations\<close>

datatype throttle_error = RateOutOfRange int | BurstTooSmall int

definition minRate :: int where
  "minRate = 1"

definition maxRate :: int where
  "maxRate = 5000"

definition validateRate :: "int \<Rightarrow> throttle_error + unit" where
  "validateRate ratePerSec =
     (if ratePerSec < minRate \<or> ratePerSec > maxRate then Inl (RateOutOfRange ratePerSec) else Inr ())"

datatype producer = AwaitTick | HoldTick | ProducerExited

record limiter =
  rl_tokens :: nat
  rl_burst :: nat
  rl_interval :: duration
  rl_tickerOn :: bool
  rl_tickPending :: bool
  rl_cancelled :: bool
  rl_producer :: producer

text \<open>The prefill loop sends until the channel is full.\<close>

function preFill :: "nat \<Rightarrow> nat \<Rightarrow> nat" where
  "preFill capacity n = (if n < capacity then preFill capacity (Suc n) else n)"
  by auto

termination preFill
  by (relation "measure (\<lambda>(capacity, n). capacity - n)") auto

definition createAndPreFillBurstChannel :: "int \<Rightarrow> throttle_error + nat" where
  "createAndPreFillBurstChannel burst =
     (if burst < 1 then Inl (BurstTooSmall burst) else Inr (preFill (nat burst) 0))"

definition NewTokenBucket :: "int \<Rightarrow> int \<Rightarrow> throttle_error + limiter" where
  "NewTokenBucket ratePerSec burst =
     (case validateRate ratePerSec of
        Inl e \<Rightarrow> Inl e
      | Inr _ \<Rightarrow>
          (case createAndPreFillBurstChannel burst of
             Inl e \<Rightarrow> Inl e
           | Inr tokens \<Rightarrow>
               Inr \<lparr>rl_tokens = tokens, rl_burst = nat burst, rl_interval = second div ratePerSec, rl_tickerOn = True,
                 rl_tickPending = False, rl_cancelled = False, rl_producer = AwaitTick\<rparr>))"

definition NewTicker :: "int \<Rightarrow> throttle_error + limiter" where
  "NewTicker ratePerSec = NewTokenBucket ratePerSec 1"

text \<open>\<open>Await\<close> blocks, which is \<open>None\<close>, while there is no token.\<close>

definition Await :: "limiter \<Rightarrow> limiter option" where
  "Await r = (if rl_tokens r > 0 then Some (r\<lparr>rl_tokens := rl_tokens r - 1\<rparr>) else None)"

definition StopLimiter :: "limiter \<Rightarrow> limiter" where
  "StopLimiter r = r\<lparr>rl_cancelled := True, rl_tickerOn := False, rl_tickPending := False\<rparr>"

definition noOpAwait :: "'s \<Rightarrow> 's option" where
  "noOpAwait r = Some r"

text \<open>The ticker and the steps of the producer's goroutine.\<close>

definition tick :: "limiter \<Rightarrow> limiter option" where
  "tick r = (if rl_tickerOn r then Some (r\<lparr>rl_tickPending := True\<rparr>) else None)"

definition takeTick :: "limiter \<Rightarrow> limiter option" where
  "takeTick r =
     (if rl_producer r = AwaitTick \<and> rl_tickPending r
      then Some (r\<lparr>rl_producer := HoldTick, rl_tickPending := False\<rparr>) else None)"

definition putToken :: "limiter \<Rightarrow> limiter option" where
  "putToken r =
     (if rl_producer r = HoldTick \<and> rl_tokens r < rl_burst r
      then Some (r\<lparr>rl_producer := AwaitTick, rl_tokens := rl_tokens r + 1\<rparr>) else None)"

definition producerQuit :: "limiter \<Rightarrow> limiter option" where
  "producerQuit r =
     (if rl_producer r = HoldTick \<and> rl_cancelled r then Some (r\<lparr>rl_producer := ProducerExited\<rparr>) else None)"

datatype limiter_event = TickFires | TakeTick | PutToken | ProducerQuit | AwaitReturns | StopCall

definition limiterStep :: "limiter_event \<Rightarrow> limiter \<Rightarrow> limiter option" where
  "limiterStep e r =
     (case e of
        TickFires \<Rightarrow> tick r
      | TakeTick \<Rightarrow> takeTick r
      | PutToken \<Rightarrow> putToken r
      | ProducerQuit \<Rightarrow> producerQuit r
      | AwaitReturns \<Rightarrow> Await r
      | StopCall \<Rightarrow> Some (StopLimiter r))"

fun limiterRun :: "limiter_event list \<Rightarrow> limiter \<Rightarrow> limiter option" where
  "limiterRun [] r = Some r"
| "limiterRun (e # es) r = (case limiterStep e r of None \<Rightarrow> None | Some r1 \<Rightarrow> limiterRun es r1)"

section \<open>The admitted rate\<close>

declare preFill.simps [simp del]

lemma preFill_full: "n \<le> capacity \<Longrightarrow> preFill capacity n = capacity"
proof (induction capacity n rule: preFill.induct)
  case (1 capacity n)
  have unf: "preFill capacity n = (if n < capacity then preFill capacity (Suc n) else n)" by (rule preFill.simps)
  from 1 show ?case by (subst unf) auto
qed

definition inHand :: "limiter \<Rightarrow> nat" where
  "inHand r = rl_tokens r + (if rl_tickPending r then 1 else 0) + (if rl_producer r = HoldTick then 1 else 0)"

definition limiter_wf :: "limiter \<Rightarrow> bool" where
  "limiter_wf r \<longleftrightarrow> rl_tokens r \<le> rl_burst r \<and> rl_interval r > 0"

lemma limiterStep_wf: "limiterStep e r = Some r' \<Longrightarrow> limiter_wf r \<Longrightarrow> limiter_wf r' \<and> rl_burst r' = rl_burst r"
  by (cases e) (auto simp: limiterStep_def tick_def takeTick_def putToken_def producerQuit_def Await_def StopLimiter_def
      limiter_wf_def split: if_splits)

lemma limiterRun_wf: "limiterRun es r = Some r' \<Longrightarrow> limiter_wf r \<Longrightarrow> limiter_wf r' \<and> rl_burst r' = rl_burst r"
proof (induction es arbitrary: r)
  case (Cons e es)
  then show ?case using limiterStep_wf [of e r] by (auto split: option.splits)
qed simp

lemma limiterStep_supply:
  "limiterStep e r = Some r' \<Longrightarrow>
   inHand r' + (if e = AwaitReturns then 1 else 0) \<le> inHand r + (if e = TickFires then 1 else 0)"
  by (cases e) (auto simp: limiterStep_def tick_def takeTick_def putToken_def producerQuit_def Await_def StopLimiter_def
      inHand_def split: if_splits)

lemma limiterRun_supply:
  "limiterRun es r = Some r' \<Longrightarrow> inHand r' + count_list es AwaitReturns \<le> inHand r + count_list es TickFires"
proof (induction es arbitrary: r)
  case (Cons e es)
  then obtain r1 where r1: "limiterStep e r = Some r1" "limiterRun es r1 = Some r'" by (auto split: option.splits)
  from limiterStep_supply [OF r1(1)] Cons.IH [OF r1(2)] show ?case by (auto split: if_splits)
qed simp

lemma NewTokenBucket_wf:
  assumes "NewTokenBucket ratePerSec burst = Inr r"
  shows "limiter_wf r" "rl_burst r = nat burst" "rl_tokens r = nat burst" "rl_interval r = second div ratePerSec"
    "minRate \<le> ratePerSec" "ratePerSec \<le> maxRate" "1 \<le> burst"
proof -
  have ok: "minRate \<le> ratePerSec" "ratePerSec \<le> maxRate" "1 \<le> burst"
    using assms by (auto simp: NewTokenBucket_def validateRate_def createAndPreFillBurstChannel_def split: if_splits)
  then show "minRate \<le> ratePerSec" "ratePerSec \<le> maxRate" "1 \<le> burst" by blast+
  have r: "r = \<lparr>rl_tokens = nat burst, rl_burst = nat burst, rl_interval = second div ratePerSec, rl_tickerOn = True,
                 rl_tickPending = False, rl_cancelled = False, rl_producer = AwaitTick\<rparr>"
    using assms ok by (auto simp: NewTokenBucket_def validateRate_def createAndPreFillBurstChannel_def preFill_full
        split: if_splits)
  have "second div ratePerSec \<ge> second div maxRate"
    using ok(1,2) by (intro zdiv_mono2) (simp_all add: minRate_def maxRate_def second_def)
  then have "second div ratePerSec > 0" by (simp add: second_def maxRate_def)
  then show "limiter_wf r" "rl_burst r = nat burst" "rl_tokens r = nat burst" "rl_interval r = second div ratePerSec"
    by (simp_all add: r limiter_wf_def)
qed

lemma NewTokenBucket_accepts: "(\<exists>x. NewTokenBucket q b = Inr x) \<longleftrightarrow> 1 \<le> q \<and> q \<le> 5000 \<and> 1 \<le> b"
  by (auto simp: NewTokenBucket_def validateRate_def createAndPreFillBurstChannel_def minRate_def maxRate_def)

text \<open>
  C39. The limiter admits no more than it promises: construction succeeds exactly for rates of
  1 to 5000 and a positive burst, with a positive tick interval; in every stretch of a run the
  messages let through are at most the burst, the two ticks that may be under way, and the
  ticks that fired in it; and the bucket never overflows.
\<close>

theorem limiter_bounds:
  assumes "NewTokenBucket ratePerSec burst = Inr r" "limiterRun (es1 @ es2) r = Some r'"
  shows "(\<forall>q b. (\<exists>x. NewTokenBucket q b = Inr x) \<longleftrightarrow> 1 \<le> q \<and> q \<le> 5000 \<and> 1 \<le> b) \<and> 0 < rl_interval r \<and>
    rl_tokens r' \<le> nat burst \<and>
    count_list es2 AwaitReturns \<le> nat burst + 2 + count_list es2 TickFires"
proof -
  note new = NewTokenBucket_wf [OF assms(1)]
  have split: "limiterRun (xs @ ys) q = (case limiterRun xs q of None \<Rightarrow> None | Some q1 \<Rightarrow> limiterRun ys q1)" for xs ys q
    by (induction xs arbitrary: q) (auto split: option.split)
  obtain r1 where r1: "limiterRun es1 r = Some r1" "limiterRun es2 r1 = Some r'"
    using assms(2) by (auto simp: split split: option.splits)
  have wf1: "limiter_wf r1" "rl_burst r1 = nat burst" and wf: "rl_tokens r' \<le> nat burst"
    using limiterRun_wf [OF r1(1) new(1)] limiterRun_wf [OF r1(2)] new(2) by (auto simp: limiter_wf_def)
  have "inHand r1 \<le> nat burst + 2" using wf1 by (simp add: inHand_def limiter_wf_def)
  with limiterRun_supply [OF r1(2)] wf new(1) NewTokenBucket_accepts show ?thesis by (simp add: limiter_wf_def)
qed

theorem limiter_bounds_witness:
  "\<exists>r r'. NewTokenBucket 100 2 = Inr r \<and>
     limiterRun ([AwaitReturns] @ [AwaitReturns, TickFires, TakeTick, PutToken, AwaitReturns]) r = Some r' \<and>
     0 < rl_interval r \<and> rl_tokens r' \<le> 2"
proof -
  obtain r where r: "NewTokenBucket 100 2 = Inr r"
    by (simp add: NewTokenBucket_def validateRate_def minRate_def maxRate_def createAndPreFillBurstChannel_def)
  have "r = \<lparr>rl_tokens = 2, rl_burst = 2, rl_interval = second div 100, rl_tickerOn = True,
      rl_tickPending = False, rl_cancelled = False, rl_producer = AwaitTick\<rparr>"
    using r by (simp add: NewTokenBucket_def validateRate_def minRate_def maxRate_def createAndPreFillBurstChannel_def
        preFill_full)
  then obtain r' where run:
    "limiterRun ([AwaitReturns] @ [AwaitReturns, TickFires, TakeTick, PutToken, AwaitReturns]) r = Some r'"
    by (simp add: limiterStep_def Await_def tick_def takeTick_def putToken_def)
  from limiter_bounds [OF r run] r run show ?thesis by auto
qed

section \<open>A stopped limiter\<close>

text \<open>
  Stopped with an empty bucket and no tick in the producer's hand, the limiter never lets anyone through
  again, so a caller blocked in \<open>Await\<close> stays blocked, and the producer's goroutine waits for a
  tick that never comes instead of seeing the cancelled context.
\<close>

lemma stopped_limiter_blocks:
  assumes "rl_tokens r = 0" "rl_producer r = AwaitTick" "limiterRun es (StopLimiter r) = Some r'"
  shows "Await r' = None \<and> rl_producer r' = AwaitTick"
proof -
  have stuck: "limiterStep e (StopLimiter r) = Some r1 \<Longrightarrow> r1 = StopLimiter r" for e r1
    using assms(1,2) by (cases e; cases r) (auto simp: limiterStep_def tick_def takeTick_def putToken_def producerQuit_def
        Await_def StopLimiter_def)
  have "limiterRun xs (StopLimiter r) = Some r' \<Longrightarrow> r' = StopLimiter r" for xs
    by (induction xs) (auto split: option.splits dest: stuck)
  from this [OF assms(3)] assms(1,2) show ?thesis by (simp add: Await_def StopLimiter_def)
qed

end
