(* ===== verification/Go_Strings.thy ===== *)
theory Go_Strings
  imports Demux_Prelude
begin

text \<open>
  Decimal numbers in Go strings, as \<open>strconv.ParseInt\<close> and the duration parser read them, with
  a reference printer. A Go string is its bytes; the bytes are characters here.
\<close>

section \<open>Reading and printing decimals\<close>

fun digitsVal :: "nat \<Rightarrow> string \<Rightarrow> nat option" where
  "digitsVal acc [] = Some acc"
| "digitsVal acc (c # cs) =
     (let n = of_char c :: nat in if 48 \<le> n \<and> n \<le> 57 then digitsVal (acc * 10 + (n - 48)) cs else None)"

definition ParseInt :: "string \<Rightarrow> int option" where
  "ParseInt s =
     (let neg = (case s of c # _ \<Rightarrow> c = CHR ''-'' | [] \<Rightarrow> False);
          ds = (case s of c # r \<Rightarrow> if c = CHR ''-'' \<or> c = CHR ''+'' then r else s | [] \<Rightarrow> s)
      in if ds = [] then None
         else case digitsVal 0 ds of
           None \<Rightarrow> None
         | Some n \<Rightarrow>
             if \<not> neg \<and> n \<ge> 2 ^ 63 then None
             else if neg \<and> n > 2 ^ 63 then None
             else Some (if neg then - int n else int n))"

fun showNat :: "nat \<Rightarrow> string" where
  "showNat n = (if n < 10 then [char_of (48 + n)] else showNat (n div 10) @ [char_of (48 + n mod 10)])"

definition showInt :: "int \<Rightarrow> string" where
  "showInt i = (if i < 0 then CHR ''-'' # showNat (nat (- i)) else showNat (nat i))"

section \<open>Reading inverts printing\<close>

lemma byte_char [simp]: "n < 256 \<Longrightarrow> of_char (char_of n) = (n :: nat)"
  by simp

lemma digitsVal_append: "digitsVal a (xs @ ys) = (case digitsVal a xs of None \<Rightarrow> None | Some b \<Rightarrow> digitsVal b ys)"
  by (induction xs arbitrary: a) (auto simp: Let_def)

declare showNat.simps [simp del]

lemma digitsVal_digit: "d < 10 \<Longrightarrow> digitsVal a [char_of (48 + d)] = Some (a * 10 + d)"
  by (simp add: Let_def)

lemma digitsVal_showNat: "digitsVal 0 (showNat n) = Some n"
proof (induction n rule: showNat.induct)
  case (1 n)
  show ?case
  proof (cases "n < 10")
    case True
    then have "showNat n = [char_of (48 + n)]" by (simp add: showNat.simps [of n])
    with digitsVal_digit [OF True, of 0] show ?thesis by simp
  next
    case False
    then have "showNat n = showNat (n div 10) @ [char_of (48 + n mod 10)]" by (simp add: showNat.simps [of n])
    with 1 [OF False] digitsVal_digit [of "n mod 10" "n div 10"] show ?thesis
      by (simp add: digitsVal_append del: digitsVal.simps)
  qed
qed

lemma char_of_neq: "n < 256 \<Longrightarrow> of_char c \<noteq> (n :: nat) \<Longrightarrow> char_of n \<noteq> c"
  by auto

lemma showNat_hd: "\<exists>c cs. showNat n = c # cs \<and> c \<noteq> CHR ''-'' \<and> c \<noteq> CHR ''+''"
proof (induction n rule: showNat.induct)
  case (1 n)
  show ?case
  proof (cases "n < 10")
    case True
    then have "showNat n = [char_of (48 + n)]" by (simp add: showNat.simps [of n])
    moreover have "char_of (48 + n) \<noteq> CHR ''-''" by (rule char_of_neq) (use True in simp_all)
    moreover have "char_of (48 + n) \<noteq> CHR ''+''" by (rule char_of_neq) (use True in simp_all)
    ultimately show ?thesis by blast
  next
    case False
    then have "showNat n = showNat (n div 10) @ [char_of (48 + n mod 10)]" by (simp add: showNat.simps [of n])
    with 1 [OF False] show ?thesis by (metis append_Cons)
  qed
qed

lemma ParseInt_showInt:
  assumes "- (2 ^ 63) \<le> i" "i < 2 ^ 63"
  shows "ParseInt (showInt i) = Some i"
proof -
  obtain c cs where c: "showNat (nat \<bar>i\<bar>) = c # cs" "c \<noteq> CHR ''-''" "c \<noteq> CHR ''+''" using showNat_hd by blast
  have v: "digitsVal 0 (c # cs) = Some (nat \<bar>i\<bar>)" using digitsVal_showNat [of "nat \<bar>i\<bar>"] by (simp only: c(1))
  show ?thesis
  proof (cases "i < 0")
    case True
    then have s: "showInt i = CHR ''-'' # c # cs" using c(1) by (simp add: showInt_def)
    have n: "\<not> nat \<bar>i\<bar> > 2 ^ 63" using True assms(1) by (simp add: not_less nat_le_iff)
    have "ParseInt (CHR ''-'' # c # cs) = (case digitsVal 0 (c # cs) of None \<Rightarrow> None
      | Some m \<Rightarrow> if m > 2 ^ 63 then None else Some (- int m))"
      by (simp only: ParseInt_def Let_def list.case if_True if_False simp_thms list.distinct)
    then have "ParseInt (showInt i) = Some (- int (nat \<bar>i\<bar>))" by (simp only: s v n option.case if_False)
    with True show ?thesis by simp
  next
    case False
    then have s: "showInt i = c # cs" using c(1) by (simp add: showInt_def)
    have n: "\<not> nat \<bar>i\<bar> \<ge> 2 ^ 63" using False assms(2) by (simp add: not_le nat_less_iff)
    have "ParseInt (c # cs) = (case digitsVal 0 (c # cs) of None \<Rightarrow> None
      | Some m \<Rightarrow> if m \<ge> 2 ^ 63 then None else Some (int m))"
      by (simp only: ParseInt_def Let_def list.case if_False simp_thms list.distinct c(2,3))
    then have "ParseInt (showInt i) = Some (int (nat \<bar>i\<bar>))" by (simp only: s v n option.case if_False)
    with False show ?thesis by simp
  qed
qed

end
