(* ===== verification/License_Check.thy ===== *)
theory License_Check
  imports Go_Strings
begin

text \<open>
  The license check (demux/config/verify), with the builder's wrapper around it: a token is \<open>payload.signature\<close>, both in unpadded
  URL-safe base64; the payload is a URL-encoded query whose \<open>kid\<close> names the public key. What
  the code uses of base64, of \<open>url.ParseQuery\<close> and of \<open>time.Unix\<close> is written out. Ed25519 verification is the parameter \<open>verify\<close>, of key, message and signature,
  and \<open>getKey\<close> is the key lookup, which may panic. Errors are values, texts left out.
\<close>

section \<open>Decoders of the standard library\<close>

definition b64val :: "char \<Rightarrow> nat option" where
  "b64val c = (let n = of_char c :: nat in
     if 65 \<le> n \<and> n \<le> 90 then Some (n - 65) else if 97 \<le> n \<and> n \<le> 122 then Some (n - 71)
     else if 48 \<le> n \<and> n \<le> 57 then Some (n + 4) else if n = 45 then Some 62
     else if n = 95 then Some 63 else None)"

fun joinSextets :: "nat list \<Rightarrow> nat list option" where
  "joinSextets [] = Some []"
| "joinSextets [a] = None"
| "joinSextets [a, b] = Some [a * 4 + b div 16]"
| "joinSextets [a, b, c] = Some [a * 4 + b div 16, (b mod 16) * 16 + c div 4]"
| "joinSextets (a # b # c # d # vs) =
     map_option (\<lambda>bs. [a * 4 + b div 16, (b mod 16) * 16 + c div 4, (c mod 4) * 64 + d] @ bs) (joinSextets vs)"

text \<open>Line breaks are skipped, and left-over bits of the last character are not looked at.\<close>

definition DecodeString :: "string \<Rightarrow> string option" where
  "DecodeString s =
     (case those (map b64val (filter (\<lambda>c. c \<noteq> CHR 0x0D \<and> c \<noteq> CHR 0x0A) s)) of
        None \<Rightarrow> None
      | Some vs \<Rightarrow> map_option (map char_of) (joinSextets vs))"

definition unhex :: "char \<Rightarrow> nat option" where
  "unhex c = (let n = of_char c :: nat in
     if 48 \<le> n \<and> n \<le> 57 then Some (n - 48) else if 97 \<le> n \<and> n \<le> 102 then Some (n - 87)
     else if 65 \<le> n \<and> n \<le> 70 then Some (n - 55) else None)"

fun QueryUnescape :: "string \<Rightarrow> string option" where
  "QueryUnescape [] = Some []"
| "QueryUnescape (c # s) =
     (if c = CHR ''%'' then
        (case s of
           h # l # r \<Rightarrow>
             (case (unhex h, unhex l) of
                (Some a, Some b) \<Rightarrow> map_option ((#) (char_of (16 * a + b))) (QueryUnescape r)
              | _ \<Rightarrow> None)
         | _ \<Rightarrow> None)
      else map_option ((#) (if c = CHR ''+'' then CHR '' '' else c)) (QueryUnescape s))"

definition cut :: "char \<Rightarrow> string \<Rightarrow> string \<times> string" where
  "cut c s = (takeWhile (\<lambda>x. x \<noteq> c) s, drop 1 (dropWhile (\<lambda>x. x \<noteq> c) s))"

definition queryPair :: "string \<Rightarrow> (string \<times> string) list option" where
  "queryPair piece =
     (if CHR '';'' \<in> set piece then None
      else if piece = [] then Some []
      else let (k, v) = cut (CHR ''='') piece in
        (case (QueryUnescape k, QueryUnescape v) of (Some k', Some v') \<Rightarrow> Some [(k', v')] | _ \<Rightarrow> None))"

text \<open>The values in the order of the query; the first one of a key is the one \<open>Get\<close> returns.\<close>

function ParseQuery :: "string \<Rightarrow> (string \<times> string) list option" where
  "ParseQuery query =
     (if query = [] then Some []
      else let (piece, rest) = cut (CHR ''&'') query in
        (case (queryPair piece, ParseQuery rest) of (Some kvs, Some kvs') \<Rightarrow> Some (kvs @ kvs') | _ \<Rightarrow> None))"
  by auto

lemma cut_shorter: "s \<noteq> [] \<Longrightarrow> length (snd (cut c s)) < length s"
  using length_dropWhile_le [of "\<lambda>x. x \<noteq> c" s] by (cases s) (auto simp: cut_def less_Suc_eq_le)

termination ParseQuery
proof (relation "measure length")
  fix query pr piece rest
  assume "query \<noteq> []" "pr = cut (CHR ''&'') query" "(piece, rest) = pr"
  then show "(rest, query) \<in> measure length" using cut_shorter [of query "CHR ''&''"] by (simp add: prod_eq_iff)
qed simp

definition valuesGet :: "(string \<times> string) list \<Rightarrow> string \<Rightarrow> string" where
  "valuesGet v k = (case map_of v k of Some s \<Rightarrow> s | None \<Rightarrow> [])"

text \<open>\<open>time.Unix\<close> counts from year 1 in 64 bits and wraps around.\<close>

definition timeUnix :: "int \<Rightarrow> time" where
  "timeUnix n =
     ((n + 62135596800 + 2 ^ 63) mod 2 ^ 64 - 2 ^ 63 - 62135596800) * second"

section \<open>The check\<close>

datatype license_error =
    TokenTooLong
  | InvalidToken
  | PayloadDecodeFailed
  | InvalidPayload
  | InvalidKid string
  | MalformedSignature
  | BadSignature
  | BadClaims string
  | Expired
  | NotYetValid

datatype 'a checked = Value 'a | Failed license_error | Panicked string

datatype Level = Debug | Info

record Claims =
  KeyID :: string
  Issuer :: string
  Subject :: string
  ClaimType :: string
  IssuedAt :: time
  ExpiresAt :: time

definition tokenSplit :: "string \<Rightarrow> license_error + (string \<times> string)" where
  "tokenSplit token =
     (let i = length (takeWhile (\<lambda>c. c \<noteq> CHR ''.'') token) in
      if i = length token \<or> i = 0 \<or> i = length token - 1 then Inl InvalidToken
      else if CHR ''.'' \<in> set (drop (i + 1) token) then Inl InvalidToken
      else Inr (take i token, drop (i + 1) token))"

definition tsClaim :: "string \<Rightarrow> license_error + time" where
  "tsClaim s = (case ParseInt s of None \<Rightarrow> Inl (BadClaims s) | Some n \<Rightarrow> Inr (timeUnix n))"

definition parseClaims :: "(string \<times> string) list \<Rightarrow> license_error + Claims" where
  "parseClaims v =
     (case tsClaim (valuesGet v ''iat'') of
        Inl e \<Rightarrow> Inl e
      | Inr issued \<Rightarrow>
          (case tsClaim (valuesGet v ''exp'') of
             Inl e \<Rightarrow> Inl e
           | Inr expires \<Rightarrow>
               Inr \<lparr>KeyID = valuesGet v ''kid'', Issuer = valuesGet v ''iss'', Subject = valuesGet v ''sub'',
                 ClaimType = valuesGet v ''typ'', IssuedAt = issued, ExpiresAt = expires\<rparr>))"

definition maxTokenLen :: nat where
  "maxTokenLen = 8192"

definition getClaims ::
  "(string \<Rightarrow> string \<Rightarrow> string \<Rightarrow> bool) \<Rightarrow> (string \<Rightarrow> string + string) \<Rightarrow> string \<Rightarrow> Claims checked" where
  "getClaims verify getKey token =
     (if length token > maxTokenLen then Failed TokenTooLong
      else case tokenSplit token of
        Inl e \<Rightarrow> Failed e
      | Inr (payload, signature) \<Rightarrow>
          (case DecodeString payload of
             None \<Rightarrow> Failed PayloadDecodeFailed
           | Some payloadRaw \<Rightarrow>
               (case ParseQuery payloadRaw of
                  None \<Rightarrow> Failed InvalidPayload
                | Some vals \<Rightarrow>
                    (case getKey (valuesGet vals ''kid'') of
                       Inl p \<Rightarrow> Panicked p
                     | Inr pub \<Rightarrow>
                         if length pub \<noteq> 32 then Failed (InvalidKid (valuesGet vals ''kid''))
                         else case DecodeString signature of
                           None \<Rightarrow> Failed MalformedSignature
                         | Some sig \<Rightarrow>
                             if length sig \<noteq> 64 \<or> \<not> verify pub payload sig then Failed BadSignature
                             else case parseClaims vals of Inl e \<Rightarrow> Failed e | Inr claims \<Rightarrow> Value claims))))"

text \<open>The built-in key lookup: an unknown key id has no key, which is an empty one.\<close>

definition GetPublicKey :: "string \<Rightarrow> string + string" where
  "GetPublicKey kid = Inr (if kid = ''fd57299352df11ba'' then map char_of
     [0xdd, 0x99, 0x81, 0xf9, 0x72, 0xc0, 0x6a, 0x8b,
      0x7b, 0xae, 0x74, 0x8a, 0x20, 0xa5, 0x7d, 0x6a,
      0x88, 0xf0, 0x13, 0xcb, 0x0d, 0x31, 0xa8, 0x16,
      0x67, 0x65, 0xab, 0x5b, 0xe9, 0x36, 0x27, 0xf3 :: nat] else [])"

datatype license_message = NoMessage | LicenseTerms | LicensedTo string

definition License ::
  "(string \<Rightarrow> string \<Rightarrow> string \<Rightarrow> bool) \<Rightarrow> (string \<Rightarrow> string + string) \<Rightarrow> string \<Rightarrow> time \<Rightarrow>
   string + (license_message \<times> Level \<times> license_error option)" where
  "License verify getKey token now =
     (if token = [] then Inr (LicenseTerms, Debug, None)
      else case getClaims verify getKey token of
        Panicked p \<Rightarrow> Inl p
      | Failed e \<Rightarrow> Inr (LicenseTerms, Debug, Some e)
      | Value claims \<Rightarrow>
          if \<not> now < ExpiresAt claims then Inr (LicenseTerms, Info, Some Expired)
          else if now < IssuedAt claims then Inr (LicenseTerms, Debug, Some NotYetValid)
          else Inr (LicensedTo (Subject claims), Info, None))"

text \<open>The builder's wrapper, which turns a panic of the check into a warning.\<close>

definition licenseStatus ::
  "(string \<Rightarrow> string \<Rightarrow> string \<Rightarrow> bool) \<Rightarrow> (string \<Rightarrow> string + string) \<Rightarrow> string \<Rightarrow> time \<Rightarrow>
   license_message \<times> Level \<times> (string + license_error) option" where
  "licenseStatus verify getKey token now =
     (case License verify getKey token now of
        Inr (msg, level, err) \<Rightarrow> (msg, level, map_option Inr err)
      | Inl p \<Rightarrow> (NoMessage, Debug, Some (Inl p)))"

section \<open>Encoders\<close>

text \<open>
  The encodings an issuer uses, as reference definitions: base64, the escaping and joining of
  \<open>url.Values\<close>, decimal numbers, and the token made of them.
\<close>

definition b64char :: "nat \<Rightarrow> char" where
  "b64char v = (if v < 26 then char_of (65 + v) else if v < 52 then char_of (71 + v)
     else if v < 62 then char_of (v - 4) else if v = 62 then CHR ''-'' else CHR ''_'')"

fun sextets :: "nat list \<Rightarrow> nat list" where
  "sextets [] = []"
| "sextets [x] = [x div 4, (x mod 4) * 16]"
| "sextets [x, y] = [x div 4, (x mod 4) * 16 + y div 16, (y mod 16) * 4]"
| "sextets (x # y # z # r) = [x div 4, (x mod 4) * 16 + y div 16, (y mod 16) * 4 + z div 64, z mod 64] @ sextets r"

definition EncodeToString :: "string \<Rightarrow> string" where
  "EncodeToString s = map b64char (sextets (map of_char s))"

definition plainChar :: "char \<Rightarrow> bool" where
  "plainChar c = (let n = of_char c :: nat in
     48 \<le> n \<and> n \<le> 57 \<or> 65 \<le> n \<and> n \<le> 90 \<or> 97 \<le> n \<and> n \<le> 122 \<or> n \<in> {45, 46, 95, 126})"

definition hexchar :: "nat \<Rightarrow> char" where
  "hexchar v = (if v < 10 then char_of (48 + v) else char_of (55 + v))"

fun QueryEscape :: "string \<Rightarrow> string" where
  "QueryEscape [] = []"
| "QueryEscape (c # s) =
     (if plainChar c then [c] else if c = CHR '' '' then ''+''
      else [CHR ''%'', hexchar (of_char c div 16), hexchar (of_char c mod 16)]) @ QueryEscape s"

fun encodeValues :: "(string \<times> string) list \<Rightarrow> string" where
  "encodeValues [] = []"
| "encodeValues [(k, v)] = QueryEscape k @ ''='' @ QueryEscape v"
| "encodeValues ((k, v) # kvs) = QueryEscape k @ ''='' @ QueryEscape v @ ''&'' @ encodeValues kvs"

section \<open>Decoding inverts encoding\<close>

lemma b64val_b64char: "v < 64 \<Longrightarrow> b64val (b64char v) = Some v"
  by (auto simp: b64val_def b64char_def Let_def)

lemma sextets_small: "\<forall>x \<in> set xs. x < 256 \<Longrightarrow> \<forall>v \<in> set (sextets xs). v < 64"
  by (induction xs rule: sextets.induct) auto

lemma join_sextets: "\<forall>x \<in> set xs. x < 256 \<Longrightarrow> joinSextets (sextets xs) = Some xs"
  by (induction xs rule: sextets.induct) (auto simp: mult.commute)

lemma b64char_plain: "v < 64 \<Longrightarrow> b64char v \<notin> {CHR ''.'', CHR 0x0D, CHR 0x0A}"
  using b64val_b64char [of v] by (auto simp: b64val_def Let_def split: if_splits)

lemma those_map_Some: "\<forall>x \<in> set xs. f (g x) = Some x \<Longrightarrow> those (map f (map g xs)) = Some xs"
  by (induction xs) auto

lemma Decode_Encode: "DecodeString (EncodeToString s) = Some s"
proof -
  let ?v = "sextets (map of_char s) :: nat list"
  have bytes: "\<forall>x \<in> set (map of_char s :: nat list). x < 256" by (auto simp: of_char_of)
  note small = sextets_small [OF bytes]
  have "filter (\<lambda>c. c \<noteq> CHR 0x0D \<and> c \<noteq> CHR 0x0A) (map b64char ?v) = map b64char ?v"
    using small b64char_plain by (auto simp: filter_id_conv)
  moreover have "those (map b64val (map b64char ?v)) = Some ?v"
    by (rule those_map_Some) (use small b64val_b64char in blast)
  ultimately show ?thesis by (simp add: DecodeString_def EncodeToString_def join_sextets [OF bytes] o_def)
qed

lemma unhex_hexchar: "v < 16 \<Longrightarrow> unhex (hexchar v) = Some v"
  by (auto simp: unhex_def hexchar_def Let_def)

lemma byte_split: "16 * (of_char c div 16) + of_char c mod 16 = (of_char c :: nat)"
  by (rule mult_div_mod_eq)

lemma of_char_lt: "of_char c < (256 :: nat)"
  by (simp add: of_char_of)

lemma Unescape_Escape: "QueryUnescape (QueryEscape s) = Some s"
proof (induction s)
  case (Cons c s)
  have "of_char c div 16 < (16 :: nat)" using of_char_lt [of c] by (simp add: less_mult_imp_div_less)
  then have hex: "unhex (hexchar (of_char c div 16)) = Some (of_char c div 16)"
    "unhex (hexchar (of_char c mod 16)) = Some (of_char c mod 16)" by (simp_all add: unhex_hexchar)
  have "plainChar c \<Longrightarrow> c \<noteq> CHR ''%'' \<and> c \<noteq> CHR ''+''" by (auto simp: plainChar_def Let_def)
  with Cons.IH hex show ?case by (simp add: byte_split)
qed simp

lemma hexchar_chars: "v < 16 \<Longrightarrow> hexchar v \<notin> {CHR ''&'', CHR ''='', CHR '';''}"
  using unhex_hexchar [of v] by (auto simp: unhex_def Let_def split: if_splits)

lemma plainChar_chars: "plainChar c \<Longrightarrow> c \<notin> {CHR ''&'', CHR ''='', CHR '';''}"
  by (auto simp: plainChar_def Let_def)

lemma Escape_chars: "\<forall>c \<in> set (QueryEscape s). c \<notin> {CHR ''&'', CHR ''='', CHR '';''}"
proof (induction s)
  case (Cons c s)
  have "of_char c div 16 < (16 :: nat)" using of_char_lt [of c] by (simp add: less_mult_imp_div_less)
  note hex = hexchar_chars [OF this] hexchar_chars [of "of_char c mod 16"]
  show ?case
  proof (cases "plainChar c")
    case True
    with plainChar_chars [OF True] Cons.IH show ?thesis by simp
  next
    case False
    with hex Cons.IH show ?thesis by (cases "c = CHR '' ''") simp_all
  qed
qed simp

lemma cut_at:
  assumes "c \<notin> set xs"
  shows "cut c (xs @ c # ys) = (xs, ys)" "cut c xs = (xs, [])"
proof -
  from assms have "\<forall>x \<in> set xs. x \<noteq> c" by auto
  then show "cut c (xs @ c # ys) = (xs, ys)" "cut c xs = (xs, [])"
    by (simp_all add: cut_def takeWhile_eq_all_conv dropWhile_eq_Nil_conv [THEN iffD2])
qed

lemma queryPair_encoded: "queryPair (QueryEscape k @ CHR ''='' # QueryEscape v) = Some [(k, v)]"
proof -
  have "CHR '';'' \<notin> set (QueryEscape k @ CHR ''='' # QueryEscape v)" "CHR ''='' \<notin> set (QueryEscape k)"
    using Escape_chars [of k] Escape_chars [of v] by auto
  then show ?thesis by (simp add: queryPair_def cut_at Unescape_Escape)
qed

declare ParseQuery.simps [simp del]

lemma ParseQuery_encoded: "ParseQuery (encodeValues kvs) = Some kvs"
proof (induction kvs rule: encodeValues.induct)
  case 1
  then show ?case by (simp add: ParseQuery.simps)
next
  case (2 k v)
  have "CHR ''&'' \<notin> set (QueryEscape k @ CHR ''='' # QueryEscape v)"
    using Escape_chars [of k] Escape_chars [of v] by auto
  then show ?case
    by (simp add: ParseQuery.simps [of "QueryEscape k @ CHR ''='' # QueryEscape v"] cut_at queryPair_encoded
        ParseQuery.simps [of "[]"])
next
  case (3 k v kv kvs)
  let ?p = "QueryEscape k @ CHR ''='' # QueryEscape v"
  have "CHR ''&'' \<notin> set ?p" using Escape_chars [of k] Escape_chars [of v] by auto
  from cut_at(1) [OF this, of "encodeValues (kv # kvs)"] 3 show ?case
    by (simp add: ParseQuery.simps [of "QueryEscape k @ CHR ''='' # QueryEscape v @ CHR ''&'' # encodeValues (kv # kvs)"]
        queryPair_encoded)
qed

section \<open>What the check accepts\<close>

definition claimValues :: "string \<Rightarrow> string \<Rightarrow> string \<Rightarrow> string \<Rightarrow> int \<Rightarrow> int \<Rightarrow> (string \<times> string) list" where
  "claimValues kid iss sub typ iat exp =
     [(''exp'', showInt exp), (''iat'', showInt iat), (''iss'', iss), (''kid'', kid), (''sub'', sub), (''typ'', typ)]"

definition mint :: "(string \<Rightarrow> string) \<Rightarrow> (string \<times> string) list \<Rightarrow> string" where
  "mint sign vals = (let payload = EncodeToString (encodeValues vals) in
     payload @ CHR ''.'' # EncodeToString (sign payload))"

lemma tokenSplit_iff:
  "tokenSplit token = Inr (p, s) \<longleftrightarrow>
   token = p @ CHR ''.'' # s \<and> p \<noteq> [] \<and> s \<noteq> [] \<and> CHR ''.'' \<notin> set p \<and> CHR ''.'' \<notin> set s"
proof
  let ?t = "takeWhile (\<lambda>c. c \<noteq> CHR ''.'') token"
  assume sp: "tokenSplit token = Inr (p, s)"
  then have i: "length ?t < length token" "?t \<noteq> []" "length ?t \<noteq> length token - 1"
    using length_takeWhile_le [of "\<lambda>c. c \<noteq> CHR ''.''" token] by (auto simp: tokenSplit_def Let_def split: if_splits)
  have ps: "p = take (length ?t) token" "s = drop (length ?t + 1) token" "CHR ''.'' \<notin> set s"
    using sp by (auto simp: tokenSplit_def Let_def split: if_splits)
  have "p = ?t" unfolding ps(1) by (metis takeWhile_eq_take)
  moreover have "token ! length ?t = CHR ''.''" using nth_length_takeWhile [OF i(1)] by simp
  moreover have "token = take (length ?t) token @ token ! length ?t # drop (Suc (length ?t)) token"
    by (rule id_take_nth_drop [OF i(1)])
  moreover have "s \<noteq> []" using i(1,3) by (simp add: ps(2))
  moreover have "CHR ''.'' \<notin> set ?t" by (auto dest: set_takeWhileD)
  ultimately show "token = p @ CHR ''.'' # s \<and> p \<noteq> [] \<and> s \<noteq> [] \<and> CHR ''.'' \<notin> set p \<and> CHR ''.'' \<notin> set s"
    using ps i(2) by (metis Suc_eq_plus1)
next
  assume a: "token = p @ CHR ''.'' # s \<and> p \<noteq> [] \<and> s \<noteq> [] \<and> CHR ''.'' \<notin> set p \<and> CHR ''.'' \<notin> set s"
  then have "\<forall>c \<in> set p. c \<noteq> CHR ''.''" by auto
  then have "takeWhile (\<lambda>c. c \<noteq> CHR ''.'') token = p" using a by simp
  with a show "tokenSplit token = Inr (p, s)" by (simp add: tokenSplit_def Let_def)
qed

lemma Encode_chars: "CHR ''.'' \<notin> set (EncodeToString s)"
proof -
  have "\<forall>x \<in> set (map of_char s :: nat list). x < 256" by (auto simp: of_char_of)
  from sextets_small [OF this] have "\<forall>v \<in> set (sextets (map of_char s)). CHR ''.'' \<noteq> b64char v"
    using b64char_plain by fastforce
  then show ?thesis by (auto simp: EncodeToString_def)
qed

lemma Encode_nonempty: "s \<noteq> [] \<Longrightarrow> EncodeToString s \<noteq> []"
  by (cases "map of_char s :: nat list" rule: sextets.cases) (auto simp: EncodeToString_def)

lemma claimValues_get:
  "valuesGet (claimValues kid iss sub typ iat exp) ''kid'' = kid" "valuesGet (claimValues kid iss sub typ iat exp) ''iss'' = iss"
  "valuesGet (claimValues kid iss sub typ iat exp) ''sub'' = sub" "valuesGet (claimValues kid iss sub typ iat exp) ''typ'' = typ"
  "valuesGet (claimValues kid iss sub typ iat exp) ''iat'' = showInt iat"
  "valuesGet (claimValues kid iss sub typ iat exp) ''exp'' = showInt exp"
  by (simp_all add: claimValues_def valuesGet_def)

lemma getClaims_mint:
  assumes "- (2 ^ 63) \<le> iat" "iat < 2 ^ 63" "- (2 ^ 63) \<le> exp" "exp < 2 ^ 63"
    and "length (mint sign (claimValues kid iss sub typ iat exp)) \<le> maxTokenLen"
    and "getKey kid = Inr pub" "length pub = 32" "\<forall>p. length (sign p) = 64 \<and> verify pub p (sign p)"
  shows "getClaims verify getKey (mint sign (claimValues kid iss sub typ iat exp)) =
    Value \<lparr>KeyID = kid, Issuer = iss, Subject = sub, ClaimType = typ, IssuedAt = timeUnix iat, ExpiresAt = timeUnix exp\<rparr>"
proof -
  let ?v = "claimValues kid iss sub typ iat exp"
  let ?p = "EncodeToString (encodeValues ?v)"
  have "encodeValues ?v \<noteq> []" by (simp add: claimValues_def)
  moreover have "sign ?p \<noteq> []" using assms(8) by (metis list.size(3) numeral_eq_iff zero_neq_numeral)
  ultimately have split: "tokenSplit (mint sign ?v) = Inr (?p, EncodeToString (sign ?p))"
    unfolding tokenSplit_iff by (simp add: mint_def Let_def Encode_chars Encode_nonempty)
  have claims: "parseClaims ?v =
    Inr \<lparr>KeyID = kid, Issuer = iss, Subject = sub, ClaimType = typ, IssuedAt = timeUnix iat, ExpiresAt = timeUnix exp\<rparr>"
    by (simp add: parseClaims_def claimValues_get tsClaim_def ParseInt_showInt [OF assms(1,2)] ParseInt_showInt [OF assms(3,4)])
  have "\<not> length (mint sign ?v) > maxTokenLen" using assms(5) by simp
  then show ?thesis unfolding getClaims_def split
    by (simp add: Decode_Encode ParseQuery_encoded claimValues_get assms(6-8) claims)
qed

text \<open>
  C34. License tokens round-trip: a token an issuer mints from a key id, issuer, subject,
  type and two 64-bit times, signed with a key the lookup knows, within the size limit,
  is decoded to exactly those claims, whatever characters they contain; and the consumer
  reports its subject as the licensee in the token's validity period.
\<close>

theorem license_roundtrip:
  assumes "- (2 ^ 63) \<le> iat" "iat < 2 ^ 63" "- (2 ^ 63) \<le> exp" "exp < 2 ^ 63"
    and "length (mint sign (claimValues kid iss sub typ iat exp)) \<le> maxTokenLen"
    and "getKey kid = Inr pub" "length pub = 32" "\<forall>p. length (sign p) = 64 \<and> verify pub p (sign p)"
  shows "getClaims verify getKey (mint sign (claimValues kid iss sub typ iat exp)) =
      Value \<lparr>KeyID = kid, Issuer = iss, Subject = sub, ClaimType = typ, IssuedAt = timeUnix iat, ExpiresAt = timeUnix exp\<rparr> \<and>
    (timeUnix iat \<le> now \<and> now < timeUnix exp \<longrightarrow>
      licenseStatus verify getKey (mint sign (claimValues kid iss sub typ iat exp)) now = (LicensedTo sub, Info, None))"
proof -
  have claims: "getClaims verify getKey (mint sign (claimValues kid iss sub typ iat exp)) =
      Value \<lparr>KeyID = kid, Issuer = iss, Subject = sub, ClaimType = typ, IssuedAt = timeUnix iat, ExpiresAt = timeUnix exp\<rparr>"
    by (rule getClaims_mint) (fact assms)+
  have "mint sign (claimValues kid iss sub typ iat exp) \<noteq> []" by (simp add: mint_def Let_def)
  with claims show ?thesis by (simp add: licenseStatus_def License_def)
qed

definition licensed_by ::
  "(string \<Rightarrow> string \<Rightarrow> string \<Rightarrow> bool) \<Rightarrow> (string \<Rightarrow> string + string) \<Rightarrow> string \<Rightarrow> time \<Rightarrow> string \<Rightarrow> bool" where
  "licensed_by verify getKey token now who \<longleftrightarrow>
     (\<exists>payload signature raw vals pub sig iat exp.
        token = payload @ CHR ''.'' # signature \<and> CHR ''.'' \<notin> set payload \<union> set signature \<and> length token \<le> 8192 \<and>
        DecodeString payload = Some raw \<and> ParseQuery raw = Some vals \<and>
        getKey (valuesGet vals ''kid'') = Inr pub \<and> length pub = 32 \<and>
        DecodeString signature = Some sig \<and> length sig = 64 \<and> verify pub payload sig \<and>
        who = valuesGet vals ''sub'' \<and>
        ParseInt (valuesGet vals ''iat'') = Some iat \<and> ParseInt (valuesGet vals ''exp'') = Some exp \<and>
        timeUnix iat \<le> now \<and> now < timeUnix exp)"

text \<open>
  C35. Only a valid signature licenses: the consumer reports a licensee only if the token is
  two dot-free parts, the key its payload names has 32 bytes, the decoded signature has 64 and
  verifies for that payload under that key, the reported name is the payload's subject, and the
  time is inside the period the payload gives. In every other case, a panicking key lookup
  included, the status is returned with the terms or nothing.
\<close>

theorem license_sound:
  assumes "licenseStatus verify getKey token now = (msg, level, err)"
  shows "(\<forall>who. msg = LicensedTo who \<longrightarrow>
      licensed_by verify getKey token now who \<and> level = Info \<and> err = None) \<and>
    ((\<forall>who. msg \<noteq> LicensedTo who) \<longrightarrow> msg \<in> {LicenseTerms, NoMessage} \<and> (err = None \<longleftrightarrow> token = []))"
proof (cases "\<exists>who. msg = LicensedTo who")
  case True
  then obtain who claims where w: "msg = LicensedTo who" "token \<noteq> []" "getClaims verify getKey token = Value claims"
    "IssuedAt claims \<le> now" "now < ExpiresAt claims" "who = Subject claims" "level = Info" "err = None"
    using assms by (auto simp: licenseStatus_def License_def split: checked.splits if_splits)
  from w(3) obtain payload signature raw vals pub sig where g: "tokenSplit token = Inr (payload, signature)"
    "length token \<le> 8192" "DecodeString payload = Some raw" "ParseQuery raw = Some vals"
    "getKey (valuesGet vals ''kid'') = Inr pub" "length pub = 32" "DecodeString signature = Some sig" "length sig = 64"
    "verify pub payload sig" "parseClaims vals = Inr claims"
    by (auto simp: getClaims_def maxTokenLen_def split: if_splits sum.splits option.splits)
  from g(10) obtain iat exp where c: "ParseInt (valuesGet vals ''iat'') = Some iat" "ParseInt (valuesGet vals ''exp'') = Some exp"
    "IssuedAt claims = timeUnix iat" "ExpiresAt claims = timeUnix exp" "Subject claims = valuesGet vals ''sub''"
    by (auto simp: parseClaims_def tsClaim_def split: option.splits)
  from g(1) have "token = payload @ CHR ''.'' # signature \<and> CHR ''.'' \<notin> set payload \<union> set signature"
    by (simp add: tokenSplit_iff)
  then have "licensed_by verify getKey token now who"
    unfolding licensed_by_def using g(2-9) c(1,2) w(4-6) [unfolded c] by blast
  with w show ?thesis by simp
next
  case False
  then show ?thesis using assms
    by (auto simp: licenseStatus_def License_def split: sum.splits checked.splits if_splits)
qed

lemma GetPublicKey_size: "GetPublicKey kid = Inr pub \<Longrightarrow> length pub = 32 \<longleftrightarrow> kid = ''fd57299352df11ba''"
  by (auto simp: GetPublicKey_def split: if_splits)

definition exSign :: "string \<Rightarrow> string" where
  "exSign p = replicate 64 (CHR ''s'')"

definition exToken :: string where
  "exToken = mint exSign (claimValues ''k'' ''i'' ''A&B'' ''t'' 1 9)"

lemma exToken_short: "length exToken \<le> maxTokenLen"
  by code_simp

lemma exToken_times: "timeUnix 1 \<le> 5 * second" "5 * second < timeUnix 9"
  by code_simp+

theorem license_roundtrip_witness:
  "licenseStatus (\<lambda>pub p s. s = exSign p) (\<lambda>_. Inr (replicate 32 (CHR ''p''))) exToken (5 * second) =
     (LicensedTo ''A&B'', Info, None)"
  using license_roundtrip [of 1 9 exSign "''k''" "''i''" "''A&B''" "''t''" "\<lambda>_. Inr (replicate 32 (CHR ''p''))" _
      "\<lambda>pub p s. s = exSign p" "5 * second"] exToken_short exToken_times
  by (simp add: exToken_def exSign_def)

theorem license_sound_witness:
  "licenseStatus (\<lambda>pub p s. s = exSign p) (\<lambda>_. Inr (replicate 32 (CHR ''p''))) exToken (5 * second) =
     (LicensedTo ''A&B'', Info, None) \<and>
   (\<exists>payload signature. exToken = payload @ CHR ''.'' # signature \<and> DecodeString signature = Some (exSign payload))"
proof -
  have "getClaims (\<lambda>pub p s. s = exSign p) (\<lambda>_. Inr (replicate 32 (CHR ''p''))) exToken =
      Value \<lparr>KeyID = ''k'', Issuer = ''i'', Subject = ''A&B'', ClaimType = ''t'', IssuedAt = timeUnix 1, ExpiresAt = timeUnix 9\<rparr>"
    unfolding exToken_def by (rule getClaims_mint [where pub = "replicate 32 (CHR ''p'')"])
      (use exToken_short in \<open>simp_all only: exToken_def exSign_def length_replicate\<close>, simp_all)
  then have s: "licenseStatus (\<lambda>pub p s. s = exSign p) (\<lambda>_. Inr (replicate 32 (CHR ''p''))) exToken (5 * second) =
     (LicensedTo ''A&B'', Info, None)"
    using exToken_times by (auto simp: licenseStatus_def License_def exToken_def mint_def Let_def)
  from license_sound [OF s] s show ?thesis unfolding licensed_by_def by blast
qed

end
