(* ===== verification/Config_Json.thy ===== *)
theory Config_Json
  imports Go_Strings Demux_Config
begin

text \<open>
  Reading a configuration document (demux/config/demux_config.go, \<open>UnmarshalJSON\<close>): the
  numbers come from the JSON decoder as they are, durations as strings that
  \<open>time.ParseDuration\<close> reads. The decoder's result is an argument. \<open>frac\<close> is the float
  arithmetic of that parser on the digits after a decimal point: the nanoseconds they stand for
  in a unit.
\<close>

section \<open>Durations\<close>

definition isDigit :: "char \<Rightarrow> bool" where
  "isDigit c = (let n = of_char c :: nat in 48 \<le> n \<and> n \<le> 57)"

definition unitChar :: "char \<Rightarrow> bool" where
  "unitChar c \<longleftrightarrow> c \<noteq> CHR ''.'' \<and> \<not> isDigit c"

definition unitOf :: "string \<Rightarrow> nat option" where
  "unitOf u =
     (if u = ''ns'' then Some 1
      else if u = ''us'' \<or> u = [CHR 0xC2, CHR 0xB5, CHR ''s''] \<or> u = [CHR 0xCE, CHR 0xBC, CHR ''s''] then Some 1000
      else if u = ''ms'' then Some 1000000 else if u = ''s'' then Some 1000000000
      else if u = ''m'' then Some 60000000000 else if u = ''h'' then Some 3600000000000 else None)"

definition decimal :: "string \<Rightarrow> nat" where
  "decimal ds = (case digitsVal 0 ds of Some n \<Rightarrow> n | None \<Rightarrow> 0)"

definition fractionDigits :: "string \<Rightarrow> string \<times> string" where
  "fractionDigits s =
     (case s of c # r \<Rightarrow> if c = CHR ''.'' then (takeWhile isDigit r, dropWhile isDigit r) else ([], s) | [] \<Rightarrow> ([], s))"

text \<open>The loop over the components of a duration, with the sum so far, which is a \<open>uint64\<close>.\<close>

function durationLoop :: "(string \<Rightarrow> nat \<Rightarrow> nat) \<Rightarrow> nat \<Rightarrow> string \<Rightarrow> nat option" where
  "durationLoop frac d s =
     (if s = [] then Some d
      else if \<not> (hd s = CHR ''.'' \<or> isDigit (hd s)) then None
      else
        let ds = takeWhile isDigit s;
            (fs, s2) = fractionDigits (dropWhile isDigit s);
            u = takeWhile unitChar s2
        in if decimal ds > 2 ^ 63 \<or> ds = [] \<and> fs = [] \<or> u = [] then None
           else case unitOf u of
             None \<Rightarrow> None
           | Some unit \<Rightarrow>
               if decimal ds > 2 ^ 63 div unit then None
               else
                 let v = (decimal ds * unit + (if fs = [] then 0 else frac fs unit)) mod 2 ^ 64;
                     d' = (d + v) mod 2 ^ 64
                 in if v > 2 ^ 63 \<or> d' > 2 ^ 63 then None else durationLoop frac d' (dropWhile unitChar s2))"
  by auto

lemma fractionDigits_length: "length (snd (fractionDigits s)) \<le> length s"
  using length_dropWhile_le [of isDigit "tl s"] by (cases s) (auto simp: fractionDigits_def le_SucI)

lemma dropWhile_shorter: "takeWhile P xs \<noteq> [] \<Longrightarrow> length (dropWhile P xs) < length xs"
  using takeWhile_dropWhile_id [of P xs] by (metis length_append length_greater_0_conv less_add_same_cancel2)

termination durationLoop
proof (relation "measure (\<lambda>(frac, d, s). length s)")
  fix frac d s ds pr fs s2 u unit v d'
  assume "(fs, s2) = pr" "pr = fractionDigits (dropWhile isDigit s)" "u = takeWhile unitChar s2"
    "\<not> (2 ^ 63 < decimal ds \<or> ds = [] \<and> fs = [] \<or> u = [])"
  then have "length (dropWhile unitChar s2) < length s2" "length s2 \<le> length (dropWhile isDigit s)"
    using dropWhile_shorter [of unitChar s2] fractionDigits_length [of "dropWhile isDigit s"] by (auto simp: prod_eq_iff)
  then show "((frac, d', dropWhile unitChar s2), frac, d, s) \<in> measure (\<lambda>(frac, d, s). length s)"
    using length_dropWhile_le [of isDigit s] by simp
qed simp

definition ParseDuration :: "(string \<Rightarrow> nat \<Rightarrow> nat) \<Rightarrow> string \<Rightarrow> duration option" where
  "ParseDuration frac orig =
     (let neg = (case orig of c # _ \<Rightarrow> c = CHR ''-'' | [] \<Rightarrow> False);
          s = (case orig of c # r \<Rightarrow> if c = CHR ''-'' \<or> c = CHR ''+'' then r else orig | [] \<Rightarrow> orig)
      in if s = ''0'' then Some 0
         else if s = [] then None
         else case durationLoop frac 0 s of
           None \<Rightarrow> None
         | Some d \<Rightarrow> if neg then Some (- int d) else if d > 2 ^ 63 - 1 then None else Some (int d))"

section \<open>The document\<close>

text \<open>The document as decoded: a number that is absent keeps its field, an absent string is empty.\<close>

record json_alias =
  ja_ConcurrentKeys :: "int option"
  ja_PerKeyBufferLen :: "int option"
  ja_CommitIngestChannelLen :: "int option"
  ja_CommitPartitionSliceLen :: "int option"
  ja_WorkerShardsCount :: "int option"
  ja_PollTimeout :: string
  ja_AutoCommitInterval :: string
  ja_DrainTimeout :: string
  ja_AwaitAssignmentsTimeout :: string
  ja_QueryTimeout :: string
  ja_AcquireWorkerTimeoutCircuitBreaker :: string
  ja_RebalancePausePollingTimeout :: string
  ja_AcquireCommitGuardTimeout :: string

datatype unmarshal_error = JsonError string | DurationError string string

definition orKeep :: "int option \<Rightarrow> int \<Rightarrow> int" where
  "orKeep v old = (case v of Some x \<Rightarrow> x | None \<Rightarrow> old)"

definition readNumbers :: "json_alias \<Rightarrow> DemuxConfig \<Rightarrow> DemuxConfig" where
  "readNumbers a c = c\<lparr>ConcurrentKeys := orKeep (ja_ConcurrentKeys a) (ConcurrentKeys c),
     PerKeyBufferLen := orKeep (ja_PerKeyBufferLen a) (PerKeyBufferLen c),
     CommitIngestChannelLen := orKeep (ja_CommitIngestChannelLen a) (CommitIngestChannelLen c),
     CommitPartitionSliceLen := orKeep (ja_CommitPartitionSliceLen a) (CommitPartitionSliceLen c),
     WorkerShardsCount := orKeep (ja_WorkerShardsCount a) (WorkerShardsCount c)\<rparr>"

type_synonym duration_field = "string \<times> string \<times> (duration \<Rightarrow> DemuxConfig \<Rightarrow> DemuxConfig)"

definition durationFields :: "json_alias \<Rightarrow> duration_field list" where
  "durationFields a =
     [(''pollTimeout'', ja_PollTimeout a, \<lambda>d c. c\<lparr>PollTimeout := d\<rparr>),
      (''autoCommitInterval'', ja_AutoCommitInterval a, \<lambda>d c. c\<lparr>AutoCommitInterval := d\<rparr>),
      (''queryTimeout'', ja_QueryTimeout a, \<lambda>d c. c\<lparr>QueryTimeout := d\<rparr>),
      (''drainTimeout'', ja_DrainTimeout a, \<lambda>d c. c\<lparr>DrainTimeout := d\<rparr>),
      (''awaitAssignmentsTimeout'', ja_AwaitAssignmentsTimeout a, \<lambda>d c. c\<lparr>AwaitAssignmentsTimeout := d\<rparr>),
      (''acquireWorkerTimeoutCircuitBreaker'', ja_AcquireWorkerTimeoutCircuitBreaker a,
        \<lambda>d c. c\<lparr>AcquireWorkerTimeoutCircuitBreaker := d\<rparr>),
      (''rebalancePausePollingTimeout'', ja_RebalancePausePollingTimeout a,
        \<lambda>d c. c\<lparr>RebalancePausePollingTimeout := d\<rparr>),
      (''acquireCommitGuardTimeout'', ja_AcquireCommitGuardTimeout a, \<lambda>d c. c\<lparr>AcquireCommitGuardTimeout := d\<rparr>)]"

text \<open>A string that does not parse leaves its field zero and the later ones untouched.\<close>

fun readDurations ::
  "(string \<Rightarrow> nat \<Rightarrow> nat) \<Rightarrow> duration_field list \<Rightarrow> DemuxConfig \<Rightarrow> unmarshal_error option \<times> DemuxConfig" where
  "readDurations frac [] c = (None, c)"
| "readDurations frac ((name, s, setField) # rest) c =
     (if s = [] then readDurations frac rest c
      else case ParseDuration frac s of
        None \<Rightarrow> (Some (DurationError name s), setField 0 c)
      | Some d \<Rightarrow> readDurations frac rest (setField d c))"

definition UnmarshalJSON ::
  "(string \<Rightarrow> nat \<Rightarrow> nat) \<Rightarrow> string option \<Rightarrow> json_alias \<Rightarrow> DemuxConfig \<Rightarrow> unmarshal_error option \<times> DemuxConfig" where
  "UnmarshalJSON frac jsonError a c =
     (case jsonError of
        Some e \<Rightarrow> (Some (JsonError e), readNumbers a c)
      | None \<Rightarrow> readDurations frac (durationFields a) (readNumbers a c))"

section \<open>What is read\<close>

declare durationLoop.simps [simp del]

lemma showNat_digits: "\<forall>c \<in> set (showNat n). isDigit c"
proof (induction n rule: showNat.induct)
  case (1 n)
  show ?case
  proof (cases "n < 10")
    case True
    then show ?thesis by (simp add: showNat.simps [of n] isDigit_def Let_def)
  next
    case False
    with 1 show ?thesis by (simp add: showNat.simps [of n] isDigit_def Let_def)
  qed
qed

lemma unitOf_chars: "unitOf u = Some k \<Longrightarrow> u \<noteq> [] \<and> (\<forall>c \<in> set u. unitChar c) \<and> 0 < k"
  by (auto simp: unitOf_def unitChar_def isDigit_def Let_def split: if_splits)

lemma fractionDigits_unit: "unitOf u = Some k \<Longrightarrow> fractionDigits u = ([], u)"
  using unitOf_chars [of u k] by (cases u) (auto simp: fractionDigits_def unitChar_def)

lemma durationLoop_unit:
  assumes "unitOf u = Some k" "n * k < 2 ^ 63"
  shows "durationLoop frac 0 (showNat n @ u) = Some (n * k)"
proof -
  note U = unitOf_chars [OF assms(1)]
  obtain c cs where c: "showNat n = c # cs" using showNat_hd by blast
  have hd: "isDigit (hd (showNat n @ u))" using showNat_digits [of n] c by simp
  have nd: "\<not> isDigit (hd u)" using U by (cases u) (auto simp: unitChar_def)
  have split: "takeWhile isDigit (showNat n @ u) = showNat n" "dropWhile isDigit (showNat n @ u) = u"
    using showNat_digits [of n] nd U by (cases u; simp)+
  have unit: "takeWhile unitChar u = u" "dropWhile unitChar u = []" using U by (simp_all add: takeWhile_eq_all_conv)
  have v: "decimal (showNat n) = n" by (simp add: decimal_def digitsVal_showNat)
  have "n * 1 \<le> n * k" using U by (intro mult_le_mono2) simp
  then have n: "n \<le> 2 ^ 63" using assms(2) by linarith
  have q: "n \<le> 2 ^ 63 div k" using assms(2) U by (simp add: less_eq_div_iff_mult_less_eq)
  have m: "n * k mod 2 ^ 64 = n * k" using assms(2) by (intro mod_less) simp
  have neg: "showNat n @ u \<noteq> []" "showNat n \<noteq> []" "u \<noteq> []" "\<not> 2 ^ 63 < n" "\<not> 2 ^ 63 div k < n" "\<not> 2 ^ 63 < n * k"
    using c U n q assms(2) by simp_all
  have "durationLoop frac 0 (showNat n @ u) = durationLoop frac (n * k) []"
    by (subst durationLoop.simps)
      (simp only: neg hd split fractionDigits_unit [OF assms(1)] Let_def prod.case unit v assms(1) option.case simp_thms
        if_True if_False add_0 add_0_right m)
  then show ?thesis by (simp add: durationLoop.simps)
qed
lemma ParseDuration_unit:
  assumes "unitOf u = Some k" "n * k < 2 ^ 63"
  shows "ParseDuration frac (showNat n @ u) = Some (int (n * k))"
proof -
  obtain c cs where c: "showNat n = c # cs" "c \<noteq> CHR ''-''" "c \<noteq> CHR ''+''" using showNat_hd by blast
  have "u \<noteq> []" "\<forall>x \<in> set u. \<not> isDigit x" using unitOf_chars [OF assms(1)] by (auto simp: unitChar_def)
  then have "c # cs @ u \<noteq> ''0''" by (cases cs; cases u) (auto simp: isDigit_def)
  moreover have "\<not> n * k > 2 ^ 63 - 1" using assms(2) by simp
  moreover have "durationLoop frac 0 (c # cs @ u) = Some (n * k)" using durationLoop_unit [OF assms, of frac] c(1) by simp
  ultimately show ?thesis unfolding ParseDuration_def c(1) append_Cons Let_def
    by (simp only: list.case c(2,3) simp_thms if_False if_True option.case list.distinct)
qed

text \<open>A document that spells out a configuration, durations in nanoseconds.\<close>

definition showDuration :: "duration \<Rightarrow> string" where
  "showDuration d = showNat (nat d) @ ''ns''"

definition document :: "DemuxConfig \<Rightarrow> json_alias" where
  "document c = \<lparr>ja_ConcurrentKeys = Some (ConcurrentKeys c), ja_PerKeyBufferLen = Some (PerKeyBufferLen c),
     ja_CommitIngestChannelLen = Some (CommitIngestChannelLen c),
     ja_CommitPartitionSliceLen = Some (CommitPartitionSliceLen c), ja_WorkerShardsCount = Some (WorkerShardsCount c),
     ja_PollTimeout = showDuration (PollTimeout c), ja_AutoCommitInterval = showDuration (AutoCommitInterval c),
     ja_DrainTimeout = showDuration (DrainTimeout c),
     ja_AwaitAssignmentsTimeout = showDuration (AwaitAssignmentsTimeout c), ja_QueryTimeout = showDuration (QueryTimeout c),
     ja_AcquireWorkerTimeoutCircuitBreaker = showDuration (AcquireWorkerTimeoutCircuitBreaker c),
     ja_RebalancePausePollingTimeout = showDuration (RebalancePausePollingTimeout c),
     ja_AcquireCommitGuardTimeout = showDuration (AcquireCommitGuardTimeout c)\<rparr>"

definition durations :: "DemuxConfig \<Rightarrow> duration list" where
  "durations c = [PollTimeout c, AutoCommitInterval c, DrainTimeout c, AwaitAssignmentsTimeout c, QueryTimeout c,
     AcquireWorkerTimeoutCircuitBreaker c, RebalancePausePollingTimeout c, AcquireCommitGuardTimeout c]"

lemma ParseDuration_show:
  assumes "0 \<le> d" "d < 2 ^ 63"
  shows "ParseDuration frac (showDuration d) = Some d" "showDuration d \<noteq> []"
proof -
  have "nat d * 1 < 2 ^ 63" using assms by (simp add: nat_less_iff)
  from ParseDuration_unit [OF _ this, of "''ns''"] assms(1) show "ParseDuration frac (showDuration d) = Some d"
    by (simp add: showDuration_def unitOf_def)
  show "showDuration d \<noteq> []" by (simp add: showDuration_def)
qed

lemma readDurations_error:
  "fst (readDurations frac flds c) = None \<longleftrightarrow>
   (\<forall>(name, s, setField) \<in> set flds. s \<noteq> [] \<longrightarrow> ParseDuration frac s \<noteq> None)"
proof (induction flds arbitrary: c)
  case (Cons fld flds)
  obtain name s setField where f: "fld = (name, s, setField)" by (cases fld) auto
  show ?case
  proof (cases "s = []")
    case False
    then show ?thesis using Cons.IH by (cases "ParseDuration frac s") (simp_all add: f)
  qed (use Cons.IH in \<open>simp add: f\<close>)
qed simp



end
