(* ===== verification/Engine_Snapshot.thy ===== *)
theory Engine_Snapshot
  imports Demux_Drain
begin

text \<open>
  The point-in-time view of the engine (demux/metrics/snapshot, the samplers the builder wires
  into its recorder, and \<open>ShardSnapshots\<close> of processor_demux.go). A sampler reads one
  component; \<open>engineSnapshot\<close> is the snapshot of an engine that does not move in between.
  Serialisation to JSON is left out.
\<close>

section \<open>The samplers\<close>

record ShardSnapshot =
  Shard :: nat
  ActiveWorkers :: nat
  PooledWorkers :: nat

definition ShardSnapshots :: "DemuxConfig \<Rightarrow> 'a demux \<Rightarrow> ShardSnapshot list" where
  "ShardSnapshots c s = sort_key Shard
     (map (\<lambda>i. \<lparr>Shard = i, ActiveWorkers = activeCount (shards s i),
                 PooledWorkers = length (workerPool (shards s i))\<rparr>) [0 ..< nat (WorkerShardsCount c)])"

record ConcurrencySnapshot =
  GuardActive :: nat
  GuardCapacity :: nat
  OverflowActive :: nat
  OverflowCapacity :: nat
  CommitIngestActive :: nat
  CommitIngestCap :: nat

text \<open>\<open>overflow\<close> is the capacity of the overflow guard, if there is one.\<close>

definition sampleConcurrency :: "DemuxConfig \<Rightarrow> nat option \<Rightarrow> 'a demux \<Rightarrow> 'a committer \<Rightarrow> ConcurrencySnapshot" where
  "sampleConcurrency c overflow s oc =
     \<lparr>GuardActive = guardLen s, GuardCapacity = nat (ConcurrentKeys c),
      OverflowActive = (case overflow of Some _ \<Rightarrow> overflowLen s + overflowOthers s | None \<Rightarrow> 0),
      OverflowCapacity = (case overflow of Some n \<Rightarrow> n | None \<Rightarrow> 0),
      CommitIngestActive = length (commitsIn oc), CommitIngestCap = nat (CommitIngestChannelLen c)\<rparr>"

section \<open>The recorder\<close>

record ThroughputSnapshot =
  Windows :: "ThroughputEntry list"
  ts_TotalProcessed :: int
  TotalDeadLettered :: int
  AvgProcessDuration :: duration
  MaxProcessDuration :: duration
  AvgEndToEndDuration :: duration
  MaxEndToEndDuration :: duration
  MinEndToEndDuration :: duration

record SummarySnapshot =
  sum_TopicName :: string
  AssignedPartitionCount :: nat
  sum_TotalProcessed :: int
  LastRebalanceTime :: time

record Snapshot =
  Timestamp :: time
  Summary :: SummarySnapshot
  Throughput :: ThroughputSnapshot
  PreCommits :: "time \<times> PartitionSnapshot list"
  Concurrency :: ConcurrencySnapshot
  Shards :: "ShardSnapshot list"

definition TakeSnapshot ::
  "time \<Rightarrow> string \<Rightarrow> ConcurrencySnapshot \<Rightarrow> ShardSnapshot list \<Rightarrow> time \<times> PartitionSnapshot list \<Rightarrow> WindowData \<Rightarrow> Snapshot" where
  "TakeSnapshot now topic concurrency shardInfo preCommits wd =
     (let windows = buildThroughput now wd;
          windowProcessed = fold (\<lambda>w n. n + ProcessedCount w) windows 0;
          windowDeadLettered = fold (\<lambda>w n. n + DeadLetterCount w) windows 0;
          assignedCount = fold (\<lambda>p n. if ps_Assigned p then n + 1 else n) (snd preCommits) 0
      in \<lparr>Timestamp = now,
          Summary = \<lparr>sum_TopicName = topic, AssignedPartitionCount = assignedCount,
            sum_TotalProcessed = wd_TotalProcessed wd, LastRebalanceTime = fst preCommits\<rparr>,
          Throughput = \<lparr>Windows = windows, ts_TotalProcessed = windowProcessed, TotalDeadLettered = windowDeadLettered,
            AvgProcessDuration = (if TotalCount wd > 0 then TotalProcessNanos wd sdiv TotalCount wd else 0),
            MaxProcessDuration = MaxProcessNanos wd,
            AvgEndToEndDuration = (if TotalCount wd > 0 then TotalEndToEndNanos wd sdiv TotalCount wd else 0),
            MaxEndToEndDuration = MaxEndToEndNanos wd, MinEndToEndDuration = MinEndToEndNanos wd\<rparr>,
          PreCommits = preCommits, Concurrency = concurrency, Shards = shardInfo\<rparr>)"

definition engineSnapshot ::
  "DemuxConfig \<Rightarrow> nat option \<Rightarrow> time \<Rightarrow> string \<Rightarrow> 'a demux \<Rightarrow> 'a committer \<Rightarrow> Snapshot" where
  "engineSnapshot c overflow now topic s oc =
     TakeSnapshot now topic (sampleConcurrency c overflow s oc) (ShardSnapshots c s) (PreCommitsSnapshot oc)
       (committerWindowData oc)"

section \<open>A snapshot agrees with the engine\<close>

lemma ShardSnapshots_eq:
  "ShardSnapshots c s = map (\<lambda>i. \<lparr>Shard = i, ActiveWorkers = activeCount (shards s i),
     PooledWorkers = length (workerPool (shards s i))\<rparr>) [0 ..< nat (WorkerShardsCount c)]"
  unfolding ShardSnapshots_def by (rule sort_key_id_if_sorted) (simp add: o_def)

lemma fold_sum: "fold (\<lambda>w n. n + f w) xs (a :: int) = a + (\<Sum>x\<leftarrow>xs. f x)"
  by (induction xs arbitrary: a) simp_all

lemma fold_count: "fold (\<lambda>p n. if P p then n + 1 else n) xs (a :: nat) = a + length (filter P xs)"
  by (induction xs arbitrary: a) simp_all

definition ownedKeys :: "DemuxConfig \<Rightarrow> 'a demux \<Rightarrow> string list" where
  "ownedKeys c s = concat (map (\<lambda>i. map fst (workers (shards s i))) [0 ..< nat (WorkerShardsCount c)])"

lemma ownedKeys_owner:
  assumes "demux_inv nx c overflowCap s" "k \<in> set (ownedKeys c s)"
  shows "\<exists>x. owner c s k = Some x"
proof -
  obtain i where k: "k \<in> fst ` set (workers (shards s i))" using assms(2) by (auto simp: ownedKeys_def)
  with demux_invD(5) [OF assms(1), of i] have "shardOf c k = i" by (auto simp: shard_ok_def)
  with k show ?thesis by (simp add: owner_def weak_map_of_SomeI image_iff) (metis prod.collapse weak_map_of_SomeI)
qed

lemma distinct_ownedKeys:
  assumes "demux_inv nx c overflowCap s"
  shows "distinct (ownedKeys c s)"
proof -
  have ok: "distinct (map fst (workers (shards s i)))" "k \<in> fst ` set (workers (shards s i)) \<Longrightarrow> shardOf c k = i" for i k
    using demux_invD(5) [OF assms, of i] by (auto simp: shard_ok_def)
  have "distinct (concat (map (\<lambda>i. map fst (workers (shards s i))) is))" if "distinct is" for "is"
    using that
  proof (induction "is")
    case (Cons i js)
    have "fst ` set (workers (shards s i)) \<inter> fst ` set (workers (shards s j)) = {}" if "j \<in> set js" for j
      using ok(2) [of _ i] ok(2) [of _ j] that Cons.prems by fastforce
    with Cons ok(1) show ?case by auto
  qed simp
  then show ?thesis by (simp add: ownedKeys_def)
qed

lemma length_ownedKeys:
  assumes "demux_inv nx c overflowCap s"
  shows "length (ownedKeys c s) = (\<Sum>r\<leftarrow>ShardSnapshots c s. ActiveWorkers r)"
  using demux_invD(5) [OF assms]
  by (simp add: ownedKeys_def ShardSnapshots_eq length_concat o_def shard_ok_def)

text \<open>A worker in the map holds a token, or the polling goroutine holds one for it.\<close>

definition heldFor :: "nexus \<Rightarrow> 'a demux \<Rightarrow> nat \<Rightarrow> nat" where
  "heldFor nx s x = workerToken nx False (wk s x) + workerToken nx True (wk s x) +
     (case sender s of Handing _ y \<Rightarrow> of_bool (x = y) | _ \<Rightarrow> 0)"

lemma heldFor_owned:
  assumes "demux_inv nx c overflowCap s" "owner c s k = Some x"
  shows "1 \<le> heldFor nx s x"
proof -
  have "serves (sender s) k x (wk s x)" using linkedD(3) [OF demux_invD(1) [OF assms(1)]] assms(2) .
  then show ?thesis
    by (cases "wphase (wk s x)"; cases "workItems (wk s x)")
      (auto simp: serves_def heldFor_def workerToken_def)
qed

lemma heldFor_sum:
  "(\<Sum>x < fresh s. heldFor nx s x) \<le> tokensOut nx False s + tokensOut nx True s"
proof -
  have "(\<Sum>x < fresh s. case sender s of Handing _ y \<Rightarrow> of_bool (x = y) | _ \<Rightarrow> 0)
      \<le> senderToken nx False (sender s) + senderToken nx True (sender s)"
    by (cases "sender s") (auto simp: senderToken_def of_bool_def)
  then show ?thesis by (simp add: heldFor_def tokensOut_def sum.distrib)
qed

lemma active_bounded:
  assumes "demux_inv nx c overflowCap s"
  shows "(\<Sum>r\<leftarrow>ShardSnapshots c s. ActiveWorkers r) \<le> guardLen s + overflowLen s"
proof -
  let ?own = "\<lambda>k. the (owner c s k)"
  let ?K = "set (ownedKeys c s)"
  have own: "owner c s k = Some (?own k)" if "k \<in> ?K" for k using ownedKeys_owner [OF assms that] by auto
  have inj: "inj_on ?own ?K"
    using own linkedD(4) [OF demux_invD(1) [OF assms]] by (intro inj_onI) metis
  have sub: "?own ` ?K \<subseteq> {..< fresh s}" using own linkedD(1) [OF demux_invD(1) [OF assms]] by fastforce
  have "length (ownedKeys c s) = card (?own ` ?K)"
    using distinct_card [OF distinct_ownedKeys [OF assms]] card_image [OF inj] by simp
  also have "\<dots> = (\<Sum>x \<in> ?own ` ?K. 1)" by simp
  also have "\<dots> \<le> (\<Sum>x \<in> ?own ` ?K. heldFor nx s x)"
    by (rule sum_mono) (use heldFor_owned [OF assms] own in blast)
  also have "\<dots> \<le> (\<Sum>x < fresh s. heldFor nx s x)" by (rule sum_mono2) (use sub in auto)
  also have "\<dots> \<le> tokensOut nx False s + tokensOut nx True s" by (rule heldFor_sum)
  also have "\<dots> = guardLen s + overflowLen s" using demux_invD(3) [OF assms] by (simp add: tokens_def)
  finally show ?thesis unfolding length_ownedKeys [OF assms] .
qed

lemma windowData_duration: "BucketDuration (windowData rb) = bucketSeconds rb * second"
  by (simp add: windowData_def windowAdd_fold emptyWindow_def)

lemma buildThroughput_times:
  assumes "BucketDuration wd = secs * second" "1 \<le> secs" "0 \<le> now" "ThroughputPerBucket wd \<noteq> []"
  shows "length (buildThroughput now wd) = length (ThroughputPerBucket wd)"
    "FromTime (hd (buildThroughput now wd)) \<le> now \<and> now < FromTime (hd (buildThroughput now wd)) + BucketDuration wd"
    "Suc i < length (ThroughputPerBucket wd) \<Longrightarrow>
      FromTime (buildThroughput now wd ! Suc i) + BucketDuration wd = FromTime (buildThroughput now wd ! i)"
    "map ProcessedCount (buildThroughput now wd) = rev (ThroughputPerBucket wd)"
proof -
  have s: "BucketDuration wd sdiv second = secs"
    using assms(1,2) by (simp add: second_def signed_divide_int_def sgn_if)
  have e: "unix now sdiv secs = unix now div secs"
    using assms(2,3) by (simp add: unix_def second_def signed_divide_int_def sgn_if pos_imp_zdiv_nonneg_iff zdiv_eq_0_iff)
  let ?from = "unix now div secs * secs * second"
  have b: "buildThroughput now wd = map (\<lambda>i. let fromTime = ?from - int i * BucketDuration wd;
      src = length (ThroughputPerBucket wd) - 1 - i in
      \<lparr>FromTime = fromTime, ToTime = fromTime + (BucketDuration wd - millisecond),
       ProcessedCount = ThroughputPerBucket wd ! src, DeadLetterCount = DeadLetterPerBucket wd ! src\<rparr>)
      [0..<length (ThroughputPerBucket wd)]"
    unfolding buildThroughput_def s Let_def using assms(2,4) e by simp
  show "length (buildThroughput now wd) = length (ThroughputPerBucket wd)" by (simp add: b)
  have "unix now div secs = now div (secs * second)"
    using zdiv_zmult2_eq [of secs now second] assms(2) by (simp add: unix_def mult.commute)
  then have "?from = now - now mod (secs * second)"
    using div_mult_mod_eq [of now "secs * second"] by (simp add: mult.assoc)
  moreover have "0 \<le> now mod (secs * second)" "now mod (secs * second) < secs * second"
    using assms(2) by (simp_all add: second_def)
  moreover have "FromTime (hd (buildThroughput now wd)) = ?from"
    unfolding b using assms(4) by (simp add: hd_map Let_def)
  ultimately show "FromTime (hd (buildThroughput now wd)) \<le> now \<and> now < FromTime (hd (buildThroughput now wd)) + BucketDuration wd"
    using assms(1) by linarith
  show "Suc i < length (ThroughputPerBucket wd) \<Longrightarrow>
      FromTime (buildThroughput now wd ! Suc i) + BucketDuration wd = FromTime (buildThroughput now wd ! i)"
    by (simp add: b Let_def algebra_simps)
  show "map ProcessedCount (buildThroughput now wd) = rev (ThroughputPerBucket wd)"
    by (rule nth_equalityI) (simp_all add: b Let_def rev_nth)
qed



end
