(* ===== verification/Consumer_Builder.thy ===== *)
theory Consumer_Builder
  imports Subscription Polling_Loop Consumer_Lifecycle Metrics_Collector Bandwidth_Aggregator Rate_Limiter
    License_Check Config_Json Engine_Snapshot
begin

text \<open>
  The builder (demux/demux_consumer_builder.go): the fluent settings and \<open>Build\<close>, which fills
  in what was not set and wires the components to each other. Loggers are left out. The
  host's callbacks matter here only for being set or not, except for the two that shape a
  message's envelope. \<open>Build\<close> changes the builder, so the builder is part of its result.
\<close>

section \<open>The settings\<close>

datatype rate_limiter = NoOpRateLimiter | TokenBucketLimiter limiter

record ('a, 's) consumer_builder =
  bd_topicName :: string
  bd_shutdownCallback :: "callback option"
  bd_metricsSink :: "(metrics \<Rightarrow> sink_result) option"
  bd_extractEnvelope :: "('a \<Rightarrow> envelope) option"
  bd_enrichContext :: "(ctx option \<Rightarrow> 'a \<Rightarrow> ctx option) option"
  bd_demuxConfig :: "DemuxConfig option"
  bd_ctx :: "ctx option"
  bd_bandwidthMetricsSink :: bool
  bd_bandwidthFlushInterval :: duration
  bd_service :: "'s option"
  bd_overflowGuard :: "nat option"
  bd_rateLimiter :: "rate_limiter option"
  bd_licenseKeyFn :: "(string \<Rightarrow> string + string) option"

text \<open>
  \<open>strings.TrimSpace\<close> leaves nothing of a string of white space: ASCII, or one of the white
  space code points of Unicode in UTF-8.
\<close>

definition byteIn :: "char \<Rightarrow> nat set \<Rightarrow> bool" where
  "byteIn c ns \<longleftrightarrow> of_char c \<in> ns"

fun allSpace :: "string \<Rightarrow> bool" where
  "allSpace [] = True"
| "allSpace (a # s) =
     (if byteIn a {9, 10, 11, 12, 13, 32} then allSpace s
      else case s of
        [] \<Rightarrow> False
      | b # s2 \<Rightarrow>
          if byteIn a {0xC2} \<and> byteIn b {0x85, 0xA0} then allSpace s2
          else case s2 of
            [] \<Rightarrow> False
          | c # s3 \<Rightarrow>
              (byteIn a {0xE1} \<and> byteIn b {0x9A} \<and> byteIn c {0x80} \<or>
               byteIn a {0xE2} \<and> byteIn b {0x80} \<and> byteIn c ({0x80..0x8A} \<union> {0xA8, 0xA9, 0xAF}) \<or>
               byteIn a {0xE2} \<and> byteIn b {0x81} \<and> byteIn c {0x9F} \<or>
               byteIn a {0xE3} \<and> byteIn b {0x80} \<and> byteIn c {0x80}) \<and> allSpace s3)"

datatype builder_error = EmptyTopicName | NilProcessMessage | NilDeadLetter

definition NewBuilder :: "string \<Rightarrow> 'f option \<Rightarrow> 'g option \<Rightarrow> builder_error + ('a, 's) consumer_builder" where
  "NewBuilder topic processMessage deadLetter =
     (if allSpace topic then Inl EmptyTopicName
      else if processMessage = None then Inl NilProcessMessage
      else if deadLetter = None then Inl NilDeadLetter
      else Inr \<lparr>bd_topicName = topic, bd_shutdownCallback = None, bd_metricsSink = None, bd_extractEnvelope = None,
        bd_enrichContext = None, bd_demuxConfig = None, bd_ctx = None, bd_bandwidthMetricsSink = False,
        bd_bandwidthFlushInterval = 0, bd_service = None, bd_overflowGuard = None,
        bd_rateLimiter = Some NoOpRateLimiter, bd_licenseKeyFn = None\<rparr>)"

type_synonym ('a, 's) setting = "('a, 's) consumer_builder \<Rightarrow> ('a, 's) consumer_builder"

definition WithMetricsSink :: "(metrics \<Rightarrow> sink_result) option \<Rightarrow> ('a, 's) setting" where
  "WithMetricsSink sink b = b\<lparr>bd_metricsSink := sink\<rparr>"

definition WithBandwidthMetricsSink :: "bool \<Rightarrow> ('a, 's) setting" where
  "WithBandwidthMetricsSink sink b = b\<lparr>bd_bandwidthMetricsSink := sink\<rparr>"

definition WithBandwidthFlushInterval :: "duration \<Rightarrow> ('a, 's) setting" where
  "WithBandwidthFlushInterval d b = b\<lparr>bd_bandwidthFlushInterval := d\<rparr>"

definition WithDemuxConfig :: "DemuxConfig \<Rightarrow> ('a, 's) setting" where
  "WithDemuxConfig cfg b = b\<lparr>bd_demuxConfig := Some cfg\<rparr>"

definition WithContext :: "ctx option \<Rightarrow> ('a, 's) setting" where
  "WithContext ctx b = b\<lparr>bd_ctx := ctx\<rparr>"

definition WithOverflowGuard :: "nat option \<Rightarrow> ('a, 's) setting" where
  "WithOverflowGuard guard b = b\<lparr>bd_overflowGuard := guard\<rparr>"

definition WithExtractEnvelope :: "('a \<Rightarrow> envelope) option \<Rightarrow> ('a, 's) setting" where
  "WithExtractEnvelope fn b = b\<lparr>bd_extractEnvelope := fn\<rparr>"

definition WithEnrichContext :: "(ctx option \<Rightarrow> 'a \<Rightarrow> ctx option) option \<Rightarrow> ('a, 's) setting" where
  "WithEnrichContext fn b = b\<lparr>bd_enrichContext := fn\<rparr>"

definition WithShutdownCallback :: "callback option \<Rightarrow> ('a, 's) setting" where
  "WithShutdownCallback fn b = b\<lparr>bd_shutdownCallback := fn\<rparr>"

definition WithRateLimiter :: "rate_limiter option \<Rightarrow> ('a, 's) setting" where
  "WithRateLimiter limiter b = b\<lparr>bd_rateLimiter := limiter\<rparr>"

definition WithServiceIdentity :: "'s \<Rightarrow> ('a, 's) setting" where
  "WithServiceIdentity service b = b\<lparr>bd_service := Some service\<rparr>"

section \<open>Build\<close>

record ('a, 's, 'p) engine =
  eng_config :: DemuxConfig
  eng_extractEnvelope :: "'a \<Rightarrow> envelope"
  eng_metricsSink :: "metrics \<Rightarrow> sink_result"
  eng_collector :: "'a collector"
  eng_aggregator :: "('s, 'p) aggregator option"
  eng_committer :: "'a committer"
  eng_demux :: "'a demux"
  eng_overflow :: "nat option"
  eng_rateLimiter :: rate_limiter
  eng_subscription :: "'a subscription"
  eng_consumer :: consumer
  eng_license :: "license_message \<times> Level \<times> (string + license_error) option"

datatype build_panic = InvalidConfig config_error | NilRateLimiter

text \<open>What the adapter provides: its envelope extraction, and whether it reports bandwidth.\<close>

record 'a broker_port =
  bp_ExtractEnvelope :: "'a \<Rightarrow> envelope"
  bp_bandwidth :: bool

definition zeroConfig :: DemuxConfig where
  "zeroConfig = \<lparr>ConcurrentKeys = 0, PerKeyBufferLen = 0, PollTimeout = 0, AutoCommitInterval = 0, DrainTimeout = 0,
     AwaitAssignmentsTimeout = 0, CommitIngestChannelLen = 0, CommitPartitionSliceLen = 0, QueryTimeout = 0,
     AcquireWorkerTimeoutCircuitBreaker = 0, WorkerShardsCount = 0, RebalancePausePollingTimeout = 0,
     AcquireCommitGuardTimeout = 0\<rparr>"

definition enriched :: "(ctx option \<Rightarrow> 'a \<Rightarrow> ctx option) option \<Rightarrow> ('a \<Rightarrow> envelope) \<Rightarrow> 'a \<Rightarrow> envelope" where
  "enriched enrich baseExtract =
     (case enrich of
        None \<Rightarrow> baseExtract
      | Some f \<Rightarrow> (\<lambda>payload. let env = baseExtract payload in env\<lparr>env_Ctx := f (env_Ctx env) payload\<rparr>))"

definition withDefaults :: "'a broker_port \<Rightarrow> DemuxConfig \<Rightarrow> ('a, 's) setting" where
  "withDefaults port cfg b = b\<lparr>bd_demuxConfig := Some cfg,
     bd_extractEnvelope := Some (enriched (bd_enrichContext b)
       (case bd_extractEnvelope b of Some f \<Rightarrow> f | None \<Rightarrow> bp_ExtractEnvelope port)),
     bd_ctx := Some (case bd_ctx b of Some x \<Rightarrow> x | None \<Rightarrow> 0),
     bd_licenseKeyFn := Some (case bd_licenseKeyFn b of Some f \<Rightarrow> f | None \<Rightarrow> GetPublicKey),
     bd_metricsSink := Some (case bd_metricsSink b of Some f \<Rightarrow> f | None \<Rightarrow> (\<lambda>_. SinkOk))\<rparr>"

definition buildAggregator :: "'a broker_port \<Rightarrow> ('a, 's) consumer_builder \<Rightarrow> ('s, 'p) aggregator option" where
  "buildAggregator port b =
     (if bd_bandwidthMetricsSink b \<and> bp_bandwidth port then
        Some (NewAggregator
          ((if bd_bandwidthFlushInterval b > 0 then [WithFlushInterval (bd_bandwidthFlushInterval b)] else []) @
           (case bd_service b of Some _ \<Rightarrow> [WithService (bd_service b)] | None \<Rightarrow> [])))
      else None)"

definition Build ::
  "bool \<Rightarrow> (string \<Rightarrow> string \<Rightarrow> string \<Rightarrow> bool) \<Rightarrow> string \<Rightarrow> time \<Rightarrow> 'a broker_port \<Rightarrow> ('a, 's) consumer_builder \<Rightarrow>
   build_panic + (('a, 's, 'p) engine \<times> ('a, 's) consumer_builder)" where
  "Build skip verify token now port b =
     (case SetDemuxConfigDefaults skip (case bd_demuxConfig b of Some c \<Rightarrow> c | None \<Rightarrow> zeroConfig) of
        Inl err \<Rightarrow> Inl (InvalidConfig err)
      | Inr cfg \<Rightarrow>
          (let b1 = withDefaults port cfg b;
               overflowCap = (case bd_overflowGuard b of Some n \<Rightarrow> n | None \<Rightarrow> 0);
               aggregator = buildAggregator port b1;
               committer = NewCommitter now
           in case bd_rateLimiter b of
                None \<Rightarrow> Inl NilRateLimiter
              | Some limiter \<Rightarrow>
                  Inr (\<lparr>eng_config = cfg,
                        eng_extractEnvelope = the (bd_extractEnvelope b1),
                        eng_metricsSink = the (bd_metricsSink b1),
                        eng_collector = NewCollector cfg (NewWorkItemsPool cfg) {},
                        eng_aggregator = aggregator,
                        eng_committer = committer,
                        eng_demux = NewDemux cfg overflowCap,
                        eng_overflow = bd_overflowGuard b,
                        eng_rateLimiter = limiter,
                        eng_subscription = NewSubscription (bd_topicName b) NewPartitionOffsets committer NewCircuitBreaker,
                        eng_consumer = NewConsumer (bd_shutdownCallback b) (aggregator \<noteq> None),
                        eng_license = licenseStatus verify (the (bd_licenseKeyFn b1)) token now\<rparr>, b1)))"

section \<open>What is built\<close>

definition engine_wf :: "nexus \<Rightarrow> ('a, 's, 'p) engine \<Rightarrow> bool" where
  "engine_wf nx e \<longleftrightarrow> config_valid (eng_config e) \<and>
     pool_inv {} (mc_pool (eng_collector e)) \<and> collector_inv (eng_collector e) \<and>
     (case eng_aggregator e of Some a \<Rightarrow> agg_inv a \<and> agg_content a = [] | None \<Rightarrow> True) \<and>
     committer_wf (eng_committer e) \<and> rb_wf (metricsBuffer (eng_committer e)) \<and>
     sub_committer (eng_subscription e) = eng_committer e \<and>
     demux_inv nx (eng_config e) (case eng_overflow e of Some n \<Rightarrow> n | None \<Rightarrow> 0) (eng_demux e) \<and>
     claim_ok (eng_consumer e) \<and> reasons_ok (eng_consumer e) \<and>
     \<not> cb_tripped (con_breaker (eng_consumer e)) \<and> sub_breaker (eng_subscription e) = con_breaker (eng_consumer e)"

lemma buildAggregator_inv:
  assumes "buildAggregator port b = Some a"
  shows "agg_inv a" "agg_content a = []" "agg_service a = bd_service b"
  using assms by (auto simp: buildAggregator_def NewAggregator_def WithFlushInterval_def WithService_def agg_inv_def
      agg_content_def defaultMaxBuffer_def split: if_splits option.splits)

lemma NewCommitter_window: "rb_wf (metricsBuffer (NewCommitter now))"
  by (simp add: NewCommitter_def newRingBuffer_wf(1))

lemma Build_Inr:
  assumes "Build skip verify token now port b = Inr (e, b')"
  obtains cfg limiter where
    "SetDemuxConfigDefaults skip (case bd_demuxConfig b of Some c \<Rightarrow> c | None \<Rightarrow> zeroConfig) = Inr cfg"
    "bd_rateLimiter b = Some limiter" "b' = withDefaults port cfg b" "eng_config e = cfg"
    "eng_collector e = NewCollector cfg (NewWorkItemsPool cfg) {}" "eng_aggregator e = buildAggregator port b'"
    "eng_committer e = NewCommitter now" "sub_committer (eng_subscription e) = NewCommitter now"
    "eng_demux e = NewDemux cfg (case bd_overflowGuard b of Some n \<Rightarrow> n | None \<Rightarrow> 0)" "eng_overflow e = bd_overflowGuard b"
    "eng_consumer e = NewConsumer (bd_shutdownCallback b) (eng_aggregator e \<noteq> None)"
    "sub_breaker (eng_subscription e) = NewCircuitBreaker"
    "eng_extractEnvelope e = enriched (bd_enrichContext b)
       (case bd_extractEnvelope b of Some f \<Rightarrow> f | None \<Rightarrow> bp_ExtractEnvelope port)"
  using assms by (auto simp: Build_def Let_def withDefaults_def NewSubscription_def split: sum.splits option.splits)

lemma Build_wf:
  fixes e :: "('a, 's, 'p) engine"
  assumes "Build False verify token now port b = Inr (e, b')"
  shows "engine_wf nx e"
proof -
  obtain cfg limiter where B:
    "SetDemuxConfigDefaults False (case bd_demuxConfig b of Some c \<Rightarrow> c | None \<Rightarrow> zeroConfig) = Inr cfg"
    "b' = withDefaults port cfg b" "eng_config e = cfg"
    "eng_collector e = NewCollector cfg (NewWorkItemsPool cfg) {}" "eng_aggregator e = buildAggregator port b'"
    "eng_committer e = NewCommitter now" "sub_committer (eng_subscription e) = NewCommitter now"
    "eng_demux e = NewDemux cfg (case bd_overflowGuard b of Some n \<Rightarrow> n | None \<Rightarrow> 0)" "eng_overflow e = bd_overflowGuard b"
    "eng_consumer e = NewConsumer (bd_shutdownCallback b) (eng_aggregator e \<noteq> None)"
    "sub_breaker (eng_subscription e) = NewCircuitBreaker"
    by (rule Build_Inr [OF assms])
  have pool: "pool_inv {} (NewWorkItemsPool cfg :: 'a pool)" using NewWorkItemsPool_inv by blast
  have c: "con_breaker (eng_consumer e) = NewCircuitBreaker" by (simp add: B(10) NewConsumer_def)
  have "case eng_aggregator e of Some a \<Rightarrow> agg_inv a \<and> agg_content a = [] | None \<Rightarrow> True"
    using buildAggregator_inv [of port b'] by (auto simp: B(5) split: option.split)
  moreover have "collector_inv (eng_collector e)" "pool_inv {} (mc_pool (eng_collector e))"
    using NewCollector_inv(1) [OF pool] pool by (simp_all add: B(4) NewCollector_def)
  moreover have "claim_ok (eng_consumer e)" "reasons_ok (eng_consumer e)"
    unfolding B(10) by (rule NewConsumer_inv)+
  ultimately show ?thesis unfolding engine_wf_def c B(11)
    by (simp add: B(3,6-9) SetDemuxConfigDefaults_valid [OF B(1)] NewCommitter_wf NewCommitter_window NewDemux_inv
        NewCircuitBreaker_def)
qed


definition exBuilder :: "(nat, nat) consumer_builder" where
  "exBuilder = WithBandwidthMetricsSink True (WithServiceIdentity 9 (WithDemuxConfig exConfig
     (WithEnrichContext (Some (\<lambda>c x. Some (x + 1)))
       (projr (NewBuilder ''orders'' (Some ()) (Some ()))))))"

definition exPort :: "nat broker_port" where
  "exPort = \<lparr>bp_ExtractEnvelope = (\<lambda>x. \<lparr>env_Key = ''k'', env_Partition = 0, env_Offset = int x, env_Ctx = None\<rparr>),
     bp_bandwidth = True\<rparr>"

lemma exBuilder_fields:
  "bd_demuxConfig exBuilder = Some exConfig" "bd_rateLimiter exBuilder = Some NoOpRateLimiter"
  "bd_service exBuilder = Some 9" "bd_bandwidthMetricsSink exBuilder" "bd_extractEnvelope exBuilder = None"
  "bd_enrichContext exBuilder = Some (\<lambda>c x. Some (x + 1))"
  by (simp_all add: exBuilder_def NewBuilder_def WithBandwidthMetricsSink_def WithServiceIdentity_def WithDemuxConfig_def
      WithEnrichContext_def byteIn_def)


text \<open>
  Building twice from one builder enriches twice: the first \<open>Build\<close> stores the enriched
  extraction in the builder, and the second wraps it again.
\<close>

lemma build_twice_enriches_twice:
  fixes e e2 :: "('a, 's, 'p) engine"
  assumes "Build skip verify token now port b = Inr (e, b1)" "Build skip verify token now port b1 = Inr (e2, b2)"
    and "bd_enrichContext b = Some f" "bd_extractEnvelope b = None"
  shows "env_Ctx (eng_extractEnvelope e2 x) = f (f (env_Ctx (bp_ExtractEnvelope port x)) x) x"
proof -
  obtain cfg where b1: "b1 = withDefaults port cfg b" by (rule Build_Inr [OF assms(1)])
  have "eng_extractEnvelope e2 = enriched (bd_enrichContext b1)
      (case bd_extractEnvelope b1 of Some g \<Rightarrow> g | None \<Rightarrow> bp_ExtractEnvelope port)"
    by (rule Build_Inr [OF assms(2)])
  then show ?thesis using assms(3,4) by (simp add: b1 withDefaults_def enriched_def Let_def)
qed

end
