(* ===== verification/Engine_Run.thy ===== *)
theory Engine_Run
  imports Commit_Safety Consumer_Builder
begin

text \<open>
  The running engine: the polling goroutine, the processor, the fan-out with its workers, the
  committer, the breaker and the broker, in one state and in any interleaving. The pipeline's
  items are those of the demux; the committer, the predecessor offsets and the broker are those
  of Commit_Safety, whose own deliveries and completions are replaced by the pipeline's. A step
  is one of the pipeline, one of the polling loop, or any other step of Commit_Safety.
\<close>

section \<open>The state and its steps\<close>

record 'a plant =
  pt_world :: "'a world"
  pt_demux :: "'a demux"
  pt_mode :: poll_mode
  pt_breaker :: CircuitBreaker

text \<open>
  \<open>Process\<close> up to its first select: the borrowed item is filled and stamped with its
  predecessor and its read time, or the message is refused.
\<close>

definition withReadTime :: "time \<Rightarrow> 'a work_item \<Rightarrow> 'a work_item" where
  "withReadTime t w = w\<lparr>wi_Metrics := (wi_Metrics w)\<lparr>met_ReadTime := t\<rparr>\<rparr>"

definition enterPipeline ::
  "('a \<Rightarrow> envelope) \<Rightarrow> DemuxConfig \<Rightarrow> 'a \<Rightarrow> 'a work_item \<Rightarrow> time \<Rightarrow> PartitionOffsets \<Rightarrow> 'a demux \<Rightarrow>
   (offset_error + ('a work_item \<times> 'a demux option)) \<times> PartitionOffsets" where
  "enterPipeline extractEnvelope c payload w0 t po d =
     (case toWorkItem extractEnvelope payload w0 po of
        (Some e, w, po') \<Rightarrow> (Inl e, po')
      | (None, w, po') \<Rightarrow> (Inr (withReadTime t w, Process c (withReadTime t w) d), po'))"

text \<open>
  What a pipeline step hands on: the items it gave to \<open>collectAndCommit\<close> go to the ingest
  channel, and its trips to the breaker. \<open>render\<close> is the text of a reason.
\<close>

definition handOn :: "(trip_reason \<Rightarrow> string) \<Rightarrow> 'a demux \<Rightarrow> 'a plant \<Rightarrow> 'a plant" where
  "handOn render d P =
     (let ws = drop (length (handed (pt_demux P))) (handed d);
          rs = drop (length (trips (pt_demux P))) (trips d);
          s = pt_world P
      in P\<lparr>pt_demux := d,
           pt_world := s\<lparr>handled := set (map PartitionOffset ws) \<union> handled s,
                         committerOf := fold CollectAndCommit ws (committerOf s)\<rparr>,
           pt_breaker := fold (\<lambda>r. TriggerEmergencyShutdown (Some (render r))) rs (pt_breaker P)\<rparr>)"

text \<open>The polling loop ends with the error of a message it could not forward.\<close>

definition stopPolling :: "string \<Rightarrow> 'a plant \<Rightarrow> 'a plant" where
  "stopPolling e P = P\<lparr>pt_mode := Stopped, pt_breaker := TriggerEmergencyShutdown (Some e) (pt_breaker P)\<rparr>"

definition isPoll :: "'a event \<Rightarrow> bool" where
  "isPoll e \<longleftrightarrow> (case e of Poll _ \<Rightarrow> True | _ \<Rightarrow> False)"

text \<open>\<open>detectMainCtxDone\<close> sets the flag of a shard once the breaker has cancelled its context.\<close>

definition detectMainCtxDone :: "CircuitBreaker \<Rightarrow> 'a event \<Rightarrow> bool" where
  "detectMainCtxDone cb e \<longleftrightarrow> (case e of ContextDone _ \<Rightarrow> MainCtxDone cb | _ \<Rightarrow> True)"

inductive plant_step ::
  "nexus \<Rightarrow> DemuxConfig \<Rightarrow> nat \<Rightarrow> ('a \<Rightarrow> envelope) \<Rightarrow> (trip_reason \<Rightarrow> string) \<Rightarrow> 'a plant \<Rightarrow> 'a plant \<Rightarrow> bool"
  for nx c overflowCap extractEnvelope render where
  poll: "pt_mode P = Running \<Longrightarrow> blank w0 \<Longrightarrow>
    enterPipeline extractEnvelope c payload w0 t (prevs (pt_world P)) (pt_demux P) = (Inr (w, Some d), po) \<Longrightarrow>
    wi_offset w \<in> recs (pt_world P) (wi_partition w) \<Longrightarrow>
    fetchPos (pt_world P) (wi_partition w) \<le> wi_offset w \<Longrightarrow>
    recs (pt_world P) (wi_partition w) \<inter> {fetchPos (pt_world P) (wi_partition w) ..< wi_offset w} = {} \<Longrightarrow>
    plant_step nx c overflowCap extractEnvelope render P (P\<lparr>pt_demux := d, pt_world := (pt_world P)\<lparr>prevs := po,
      fetchPos := (fetchPos (pt_world P))(wi_partition w := wi_offset w + 1)\<rparr>\<rparr>)"
| refuse: "pt_mode P = Running \<Longrightarrow>
    enterPipeline extractEnvelope c payload w0 t (prevs (pt_world P)) (pt_demux P) = (Inl e, po) \<Longrightarrow>
    plant_step nx c overflowCap extractEnvelope render P
      (stopPolling text (P\<lparr>pt_world := (pt_world P)\<lparr>prevs := po\<rparr>\<rparr>))"
| pipeline: "\<not> isPoll e \<Longrightarrow> e \<noteq> Wake WakeTimer \<Longrightarrow> detectMainCtxDone (pt_breaker P) e \<Longrightarrow>
    demuxStep nx c overflowCap e (pt_demux P) = Some d \<Longrightarrow>
    plant_step nx c overflowCap extractEnvelope render P (handOn render d P)"
| timeout: "demuxStep nx c overflowCap (Wake WakeTimer) (pt_demux P) = Some d \<Longrightarrow>
    plant_step nx c overflowCap extractEnvelope render P (stopPolling text (handOn render d P))"
| loop_end: "MainCtxDone (pt_breaker P) \<Longrightarrow> plant_step nx c overflowCap extractEnvelope render P (P\<lparr>pt_mode := Stopped\<rparr>)"
| control: "world_step nx (pt_world P) s \<Longrightarrow> inflight s = [] \<Longrightarrow>
    plant_step nx c overflowCap extractEnvelope render P (P\<lparr>pt_world := s\<rparr>)"
| trip: "plant_step nx c overflowCap extractEnvelope render P
    (P\<lparr>pt_breaker := TriggerEmergencyShutdown reason (pt_breaker P)\<rparr>)"

text \<open>
  The start: the parts the builder made, next to a broker whose committed positions are
  accounted for.
\<close>

definition plant_init :: "('a, 's, 'p) engine \<Rightarrow> 'a plant \<Rightarrow> bool" where
  "plant_init e P \<longleftrightarrow> pt_demux P = eng_demux e \<and> committerOf (pt_world P) = sub_committer (eng_subscription e) \<and>
     prevs (pt_world P) = sub_prevs (eng_subscription e) \<and> pt_breaker P = sub_breaker (eng_subscription e) \<and>
     pt_mode P = Running \<and> world_init (pt_world P)"

inductive plant_reach ::
  "nexus \<Rightarrow> DemuxConfig \<Rightarrow> nat \<Rightarrow> ('a \<Rightarrow> envelope) \<Rightarrow> (trip_reason \<Rightarrow> string) \<Rightarrow> 'a plant \<Rightarrow> 'a plant \<Rightarrow> bool"
  for nx c overflowCap extractEnvelope render P0 where
  start: "plant_reach nx c overflowCap extractEnvelope render P0 P0"
| step: "plant_reach nx c overflowCap extractEnvelope render P0 P \<Longrightarrow>
    plant_step nx c overflowCap extractEnvelope render P P' \<Longrightarrow>
    plant_reach nx c overflowCap extractEnvelope render P0 P'"

section \<open>What the pipeline carries\<close>

definition workerCarries :: "('a work_item \<Rightarrow> bool) \<Rightarrow> 'a worker \<Rightarrow> bool" where
  "workerCarries Q v \<longleftrightarrow> list_all Q (workItems v) \<and> (\<forall>w. wphase v = Processing w \<longrightarrow> Q w)"

definition senderCarries :: "('a work_item \<Rightarrow> bool) \<Rightarrow> 'a sender \<Rightarrow> bool" where
  "senderCarries Q sn \<longleftrightarrow> (case sn of Polling \<Rightarrow> True | Waiting w \<Rightarrow> Q w | Trying w \<Rightarrow> Q w | Handing w x \<Rightarrow> Q w
     | Releasing ov \<Rightarrow> True)"

definition carries :: "('a work_item \<Rightarrow> bool) \<Rightarrow> 'a demux \<Rightarrow> bool" where
  "carries Q d \<longleftrightarrow> (\<forall>x. workerCarries Q (wk d x)) \<and> senderCarries Q (sender d)"

definition stampProperty :: "('a work_item \<Rightarrow> bool) \<Rightarrow> bool" where
  "stampProperty Q \<longleftrightarrow> (\<forall>w w'. sameStamp w w' \<longrightarrow> Q w \<longrightarrow> Q w')"

lemma carriesI [intro?]:
  "(\<And>x. workerCarries Q (wk d x)) \<Longrightarrow> senderCarries Q (sender d) \<Longrightarrow> carries Q d"
  by (simp add: carries_def)

lemma carriesD:
  assumes "carries Q d"
  shows "workerCarries Q (wk d x)" "senderCarries Q (sender d)"
  using assms by (simp_all add: carries_def)

lemma carries_mono: "carries Q d \<Longrightarrow> (\<And>w. Q w \<Longrightarrow> R w) \<Longrightarrow> carries R d"
  by (fastforce simp: carries_def workerCarries_def senderCarries_def list_all_iff split: sender.splits)

lemma workerCarries_New [simp]: "workerCarries Q (NewWorker i)"
  by (simp add: workerCarries_def NewWorker_def)

lemma stamped_writes [simp]:
  "sameStamp w (withRoute i w)" "sameStamp w (withDepth n (withRoute i w))" "sameStamp w (onTraits f w)"
  "sameStamp w (withReadTime t w)"
  by (simp_all add: sameStamp_def withRoute_def withDepth_def onTraits_def withReadTime_def)

lemma stampPropertyD: "stampProperty Q \<Longrightarrow> Q w \<Longrightarrow> sameStamp w w' \<Longrightarrow> Q w'"
  by (auto simp: stampProperty_def)


section \<open>Every step of the pipeline keeps it\<close>

text \<open>
  A property of stamps that holds of all items in the pipeline holds after every step, and of
  the items the step hands over.
\<close>

definition keepsItems :: "('a work_item \<Rightarrow> bool) \<Rightarrow> 'a demux \<Rightarrow> 'a demux \<Rightarrow> bool" where
  "keepsItems Q d d' \<longleftrightarrow> (carries Q d \<longrightarrow> carries Q d' \<and> list_all Q (drop (length (handed d)) (handed d')))"

lemma keepsI: "(carries Q d \<Longrightarrow> carries Q d') \<Longrightarrow> handed d' = handed d \<Longrightarrow> keepsItems Q d d'"
  by (simp add: keepsItems_def)

lemma carries_sender:
  "carries Q d \<Longrightarrow> wk d' = wk d \<Longrightarrow> senderCarries Q (sender d') \<Longrightarrow> carries Q d'"
  by (simp add: carries_def)

lemma carries_worker:
  "carries Q d \<Longrightarrow> wk d' = (wk d)(x := v) \<Longrightarrow> workerCarries Q v \<Longrightarrow> senderCarries Q (sender d') \<Longrightarrow> carries Q d'"
  by (simp add: carries_def)

lemma workerCarries_cong:
  "workerCarries Q v \<Longrightarrow> workItems v' = workItems v \<Longrightarrow> wphase v' = wphase v \<Longrightarrow> workerCarries Q v'"
  by (simp add: workerCarries_def)

lemma Process_keeps: "Process c w d = Some d' \<Longrightarrow> Q w \<Longrightarrow> keepsItems Q d d'"
  by (intro keepsI) (auto simp: Process_def senderCarries_def elim!: carries_sender split: sender.splits if_splits)

lemma awaitGuard_keeps:
  assumes "awaitGuard nx c overflowCap how d = Some d'" "stampProperty Q"
  shows "keepsItems Q d d'"
proof (rule keepsI)
  from assms(1) obtain w where w: "sender d = Waiting w" by (auto simp: awaitGuard_def split: sender.splits)
  show "handed d' = handed d" using assms(1) by (auto simp: awaitGuard_def split: sender.splits wake.splits if_splits)
  assume c: "carries Q d"
  with w have "Q w" by (simp add: carries_def senderCarries_def)
  moreover from this have "Q (onTraits (SetUsedOverflow nx) w)" by (rule stampPropertyD [OF assms(2)]) simp
  ultimately show "carries Q d'"
    using assms(1) w by (intro carries_sender [OF c])
      (auto simp: awaitGuard_def senderCarries_def split: wake.splits if_splits)
qed

lemma BorrowWorker_wk:
  assumes "BorrowWorker i d = (x, d1)"
  shows "wk d1 y = wk d y \<or> wk d1 y = NewWorker i" "sender d1 = sender d" "handed d1 = handed d"
  using assms by (auto simp: BorrowWorker_def split: list.splits)

lemma SendToWorker_keeps:
  assumes "SendToWorkerForProcessing nx c late d = Some d'" "stampProperty Q"
  shows "keepsItems Q d d'"
proof -
  from assms(1) obtain w0 where w0: "sender d = Trying w0"
    by (auto simp: SendToWorkerForProcessing_def split: sender.splits)
  define i where "i = shardOf c (wi_key w0)"
  show ?thesis
  proof (cases "map_of (workers (shards d i)) (wi_key w0)")
    case None
    obtain x d1 where b: "BorrowWorker i d = (x, d1)" by fastforce
    have key: "wi_key (withRoute i w0) = wi_key w0" by (simp add: withRoute_def)
    have d': "wk d' = (wk d1)(x := (wk d1 x)\<lparr>IsActive := True\<rparr>)" "sender d' = Handing (withRoute i w0) x" "handed d' = handed d"
      using assms(1) w0 None b key BorrowWorker_wk(3) [OF b] unfolding i_def
      by (auto simp: SendToWorkerForProcessing_def Let_def)
    show ?thesis
    proof (rule keepsI [OF _ d'(3)], rule carriesI)
      assume c: "carries Q d"
      then have "Q w0" using w0 by (simp add: carries_def senderCarries_def)
      then show "senderCarries Q (sender d')"
        using stampPropertyD [OF assms(2), of w0 "withRoute i w0"] by (simp add: d'(2) senderCarries_def)
      have "workerCarries Q (wk d1 y)" for y
        using BorrowWorker_wk(1) [OF b, of y] carriesD(1) [OF c, of y] by auto
      then show "workerCarries Q (wk d' y)" for y
        by (simp add: d'(1) workerCarries_def)
    qed
  next
    case (Some x)
    let ?w1 = "withDepth (length (workItems (wk d x))) (withRoute i w0)"
    have key: "wi_key (withRoute i w0) = wi_key w0" by (simp add: withRoute_def)
    have h: "handed d' = handed d"
      and alt: "(\<exists>ov. wk d' = (wk d)(x := (wk d x)\<lparr>workItems := workItems (wk d x) @ [?w1]\<rparr>) \<and> sender d' = Releasing ov) \<or>
        (\<exists>ov. wk d' = wk d \<and> sender d' = Releasing ov) \<or> wk d' = wk d \<and> sender d' = Trying ?w1"
      using assms(1) w0 Some key unfolding i_def
      by (auto simp: SendToWorkerForProcessing_def Let_def split: if_splits)
    show ?thesis
    proof (rule keepsI [OF _ h])
      assume c: "carries Q d"
      then have "Q w0" using w0 by (simp add: carries_def senderCarries_def)
      then have "Q ?w1" by (rule stampPropertyD [OF assms(2)]) simp
      with alt carriesD(1) [OF c, of x] show "carries Q d'"
        by (elim disjE exE conjE)
          (auto simp: senderCarries_def workerCarries_def intro: carries_sender [OF c] carries_worker [OF c])
    qed
  qed
qed

lemma handOver_keeps:
  assumes "handOver c d = Some d'"
  shows "keepsItems Q d d'"
proof (rule keepsI)
  from assms obtain w x where p: "sender d = Handing w x" by (auto simp: handOver_def split: sender.splits)
  then have d': "wk d' = (wk d)(x := (wk d x)\<lparr>workItems := workItems (wk d x) @ [w]\<rparr>)" "sender d' = Polling"
    and h: "handed d' = handed d"
    using assms by (auto simp: handOver_def split: if_splits)
  show "handed d' = handed d" by (rule h)
  assume c: "carries Q d"
  with p have "Q w" by (simp add: carries_def senderCarries_def)
  with carriesD(1) [OF c, of x] show "carries Q d'"
    by (intro carries_worker [OF c d'(1)]) (simp_all add: d'(2) senderCarries_def workerCarries_def)
qed

lemma takeToken_keeps:
  assumes "takeToken ov d = Some d'"
  shows "wk d' = wk d \<and> sender d' = sender d \<and> handed d' = handed d"
  using assms by (auto simp: takeToken_def split: if_splits)

lemma releaseToken_keeps:
  assumes "releaseToken d = Some d'"
  shows "keepsItems Q d d'"
proof -
  from assms obtain ov d1 where "sender d = Releasing ov" "takeToken ov d = Some d1" "d' = d1\<lparr>sender := Polling\<rparr>"
    by (auto simp: releaseToken_def split: sender.splits)
  with takeToken_keeps [OF this(2)] show ?thesis
    by (intro keepsI) (auto simp: senderCarries_def elim!: carries_sender)
qed

text \<open>A step of one worker that only rearranges what the worker has.\<close>

lemma setWorker_keeps:
  assumes "d' = setWorker x v d1" "wk d1 = wk d" "sender d1 = sender d" "handed d1 = handed d"
    "workerCarries Q (wk d x) \<Longrightarrow> workerCarries Q v"
  shows "keepsItems Q d d'"
proof (rule keepsI)
  show "handed d' = handed d" using assms by (simp add: setWorker_def)
  assume c: "carries Q d"
  show "carries Q d'"
    using carriesD(2) [OF c] assms(5) [OF carriesD(1) [OF c]]
    by (intro carries_worker [OF c, of d' x v]) (simp_all add: assms setWorker_def)
qed

lemma receiveItem_keeps:
  assumes "receiveItem nx x d = Some d'"
  shows "keepsItems Q d d'"
proof -
  from assms obtain w ws where ws: "workItems (wk d x) = w # ws"
    by (auto simp: receiveItem_def Let_def split: list.splits)
  then obtain v where v: "d' = setWorker x v (d\<lparr>taken := taken d @ [w]\<rparr>)" "workItems v = ws"
      "wphase v = Processing w \<or> wphase v = Hot"
    using assms by (auto simp: receiveItem_def Let_def split: phase.splits if_splits)
  show ?thesis by (rule setWorker_keeps [OF v(1)]) (use v(2,3) ws in \<open>auto simp: workerCarries_def\<close>)
qed

lemma finishItem_keeps:
  assumes "finishItem nx ct r sink x d = Some d'" "stampProperty Q"
  shows "keepsItems Q d d'"
proof -
  from assms(1) obtain w where w: "wphase (wk d x) = Processing w"
    by (auto simp: finishItem_def Let_def split: phase.splits)
  define o1 where "o1 = processWorkItem nx False (ct_start ct) (ct_finish ct) r (ct_now ct) sink w"
  let ?v = "(wk d x)\<lparr>wphase := Hot\<rparr>"
  have d': "wk d' = (wk d)(x := ?v)" "sender d' = sender d"
      "handed d' = handed d @ (case o1 of Committed w1 \<Rightarrow> [w1] | _ \<Rightarrow> [])"
    using assms(1) w unfolding o1_def
    by (auto simp: finishItem_def Let_def setWorker_def split: outcome.splits)
  have "carries Q d'" if c: "carries Q d"
    using carriesD [OF c] by (intro carries_worker [OF c d'(1)]) (simp_all add: d'(2) workerCarries_def)
  moreover have "Q w1" if c: "carries Q d" and "o1 = Committed w1" for w1
  proof -
    have "Q w" using carriesD(1) [OF c, of x] w by (simp add: workerCarries_def)
    then show ?thesis
      by (rule stampPropertyD [OF assms(2)]) (rule processWorkItem_stamp [OF that(2) [unfolded o1_def]])
  qed
  ultimately show ?thesis by (auto simp: keepsItems_def d'(3) split: outcome.splits)
qed

lemma worker_moves_keep:
  "fallThrough x d = Some d' \<Longrightarrow> keepsItems Q d d'" "exitWorker x d = Some d' \<Longrightarrow> keepsItems Q d d'"
  "retireWorker x d = Some d' \<Longrightarrow> keepsItems Q d d'"
  by (auto simp: fallThrough_def exitWorker_def retireWorker_def Let_def workerCarries_def
      intro!: setWorker_keeps [of _ x _ _ d] split: if_splits)

lemma freeToken_keeps:
  assumes "freeToken x d = Some d'"
  shows "keepsItems Q d d'"
proof -
  from assms obtain d1 where d1: "takeToken (usedOverflow (wk d x)) d = Some d1"
      "d' = setWorker x ((wk d x)\<lparr>wphase := Returning, partitionKey := ''''\<rparr>) d1"
    by (auto simp: freeToken_def Let_def split: if_splits)
  show ?thesis by (rule setWorker_keeps [OF d1(2)]) (use takeToken_keeps [OF d1(1)] in \<open>auto simp: workerCarries_def\<close>)
qed

lemma ReturnWorker_wk:
  "workItems (wk (ReturnWorker n i x d) y) = workItems (wk d y)" "wphase (wk (ReturnWorker n i x d) y) = wphase (wk d y)"
  "sender (ReturnWorker n i x d) = sender d" "handed (ReturnWorker n i x d) = handed d"
  by (simp_all add: ReturnWorker_def)

lemma same_items_keep:
  assumes "\<And>y. workItems (wk d' y) = workItems (wk d y)"
    "\<And>y w. wphase (wk d' y) = Processing w \<Longrightarrow> wphase (wk d y) = Processing w"
    "sender d' = sender d" "handed d' = handed d"
  shows "keepsItems Q d d'"
proof (rule keepsI [OF _ assms(4)], rule carriesI)
  assume c: "carries Q d"
  show "senderCarries Q (sender d')" using carriesD(2) [OF c] assms(3) by simp
  show "workerCarries Q (wk d' y)" for y
    using carriesD(1) [OF c, of y] assms(1,2) [of y] by (simp add: workerCarries_def)
qed

lemma returnSelf_keeps: "returnSelf c overflowCap x d = Some d' \<Longrightarrow> keepsItems Q d d'"
  by (rule same_items_keep)
    (auto simp: returnSelf_def Let_def ReturnWorker_wk setWorker_def split: if_splits)

lemma prune_keeps: "keepsItems Q d (pruneIdleWorkers m i d)"
  by (rule same_items_keep) (auto simp: pruneIdleWorkers_def Let_def split: list.splits if_splits)

lemma demuxStep_keeps:
  assumes "demuxStep nx c overflowCap e d = Some d'" "stampProperty Q" "\<And>w. e = Poll w \<Longrightarrow> Q w"
  shows "keepsItems Q d d'"
proof (cases e)
  case (ContextDone i)
  with assms(1) show ?thesis by (intro same_items_keep) (auto simp: demuxStep_def)
next
  case OthersTake
  with assms(1) show ?thesis by (intro same_items_keep) (auto simp: demuxStep_def split: if_splits)
next
  case OthersGive
  with assms(1) show ?thesis by (intro same_items_keep) (auto simp: demuxStep_def split: if_splits)
qed (use assms in \<open>auto simp: demuxStep_def intro: Process_keeps awaitGuard_keeps SendToWorker_keeps handOver_keeps
    releaseToken_keeps receiveItem_keeps finishItem_keeps worker_moves_keep freeToken_keeps returnSelf_keeps prune_keeps\<close>)

section \<open>The invariant of the running engine\<close>

text \<open>What is true of the log stays true of a later log.\<close>

lemma world_step_grows:
  assumes "world_step nx s s'"
  shows "grows s s'"
  using assms
proof (cases rule: world_step.cases)
  case append
  then show ?thesis using append_grows by blast
next
  case compact
  then show ?thesis using compact_grows by blast
qed (auto intro!: log_grows)

definition wellDelivered :: "'a world \<Rightarrow> 'a work_item \<Rightarrow> bool" where
  "wellDelivered s w \<longleftrightarrow> delivered s (wi_partition w) w"

lemma wellDelivered_stamp: "stampProperty (wellDelivered s)"
  by (auto simp: stampProperty_def wellDelivered_def delivered_def sameStamp_def)

definition plant_inv :: "nexus \<Rightarrow> DemuxConfig \<Rightarrow> nat \<Rightarrow> 'a plant \<Rightarrow> bool" where
  "plant_inv nx c overflowCap P \<longleftrightarrow> world_inv (pt_world P) \<and> inflight (pt_world P) = [] \<and>
     demux_inv nx c overflowCap (pt_demux P) \<and> carries (wellDelivered (pt_world P)) (pt_demux P) \<and>
     breaker_wf (pt_breaker P) \<and> (pt_mode P = Running \<or> MainCtxDone (pt_breaker P))"

lemma plant_invD:
  assumes "plant_inv nx c overflowCap P"
  shows "world_inv (pt_world P)" "inflight (pt_world P) = []" "demux_inv nx c overflowCap (pt_demux P)"
    "carries (wellDelivered (pt_world P)) (pt_demux P)" "breaker_wf (pt_breaker P)"
    "pt_mode P = Running \<or> MainCtxDone (pt_breaker P)"
  using assms by (simp_all add: plant_inv_def)

lemma grows_carries: "grows s s' \<Longrightarrow> carries (wellDelivered s) d \<Longrightarrow> carries (wellDelivered s') d"
  by (erule carries_mono) (simp add: wellDelivered_def grows_in_flight)

lemma Trigger_done:
  "breaker_wf cb \<Longrightarrow> MainCtxDone (TriggerEmergencyShutdown r cb)"
  by (auto simp: breaker_wf_def MainCtxDone_def TriggerEmergencyShutdown_def NewCircuitBreaker_def Let_def)

lemma fold_Trigger_wf:
  "breaker_wf cb \<Longrightarrow> breaker_wf (fold (\<lambda>r. TriggerEmergencyShutdown (f r)) rs cb)"
  "breaker_wf cb \<Longrightarrow> MainCtxDone cb \<Longrightarrow> MainCtxDone (fold (\<lambda>r. TriggerEmergencyShutdown (f r)) rs cb)"
  by (induction rs arbitrary: cb) (simp_all add: Trigger_wf Trigger_done)

lemma fold_CollectAndCommit: "fold CollectAndCommit ws oc = oc\<lparr>commitsIn := commitsIn oc @ ws\<rparr>"
  by (induction ws arbitrary: oc) (simp_all add: CollectAndCommit_def)

lemma handed_world_inv:
  assumes inv: "world_inv s" and ws: "list_all (wellDelivered s) ws"
  defines "s1 \<equiv> s\<lparr>handled := set (map PartitionOffset ws) \<union> handled s\<rparr>"
  shows "world_inv (s1\<lparr>committerOf := fold CollectAndCommit ws (committerOf s)\<rparr>)" "grows s s1"
proof -
  show g: "grows s s1" unfolding s1_def by (intro log_grows) auto
  have inv1: "world_inv s1"
    by (rule grows_inv [OF inv g]) (use world_invD(1) [OF inv] in \<open>auto simp: s1_def partition_ok_def\<close>)
  have "truthful s1 (wi_partition w) w" if "w \<in> set ws" for w
    using that ws grows_in_flight [OF g]
    by (force simp: truthful_def s1_def wellDelivered_def list_all_iff PartitionOffset_def)
  with world_invD(3) [OF inv1] have "committer_safe s1 (fold CollectAndCommit ws (committerOf s1))"
    by (auto simp: fold_CollectAndCommit committer_safe_def all_trackers_def)
  from committer_inv [OF inv1 this] show "world_inv (s1\<lparr>committerOf := fold CollectAndCommit ws (committerOf s)\<rparr>)"
    by (simp add: s1_def)
qed

lemma world_inv_no_inflight: "world_inv s \<Longrightarrow> world_inv (s\<lparr>inflight := []\<rparr>)"
  by (rule grows_inv [of s]) (use world_invD(1) [of s] in \<open>auto simp: partition_ok_def\<close>)

lemma blank_overflow:
  fixes w0 :: "'a work_item"
  assumes "blank w0" "toWorkItem extractEnvelope payload w0 po = (None, w, po')"
  shows "\<not> usesOverflow nx (withReadTime t w)"
proof -
  have "wi_traits w = wi_traits w0" using assms(2) by (auto simp: toWorkItem_def Let_def split: prod.splits sum.splits)
  moreover have "wi_traits (w0\<lparr>wi_Metrics := (wi_Metrics w0)\<lparr>met_WorkerPool := 0\<rparr>\<rparr>) = wi_traits (newWorkItem (wi_ptr w0) :: 'a work_item)"
    using arg_cong [of _ _ wi_traits, OF iffD1 [OF blank_def assms(1)]] .
  then have "wi_traits w0 = 0" by (simp add: newWorkItem_def zeroMetrics_def)
  ultimately show ?thesis by (simp add: usesOverflow_def withReadTime_def)
qed

lemma poll_inv_step:
  assumes inv: "plant_inv nx c overflowCap P" and nx: "marksOverflow nx" and w0: "blank w0"
    and e: "enterPipeline extractEnvelope c payload w0 t (prevs (pt_world P)) (pt_demux P) = (Inr (w, Some d), po)"
    and rec: "wi_offset w \<in> recs (pt_world P) (wi_partition w)" "fetchPos (pt_world P) (wi_partition w) \<le> wi_offset w"
      "recs (pt_world P) (wi_partition w) \<inter> {fetchPos (pt_world P) (wi_partition w) ..< wi_offset w} = {}"
  shows "plant_inv nx c overflowCap (P\<lparr>pt_demux := d, pt_world := (pt_world P)\<lparr>prevs := po,
      fetchPos := (fetchPos (pt_world P))(wi_partition w := wi_offset w + 1)\<rparr>\<rparr>)"
proof -
  let ?s = "pt_world P"
  note I = plant_invD [OF inv]
  from e obtain w1 where t: "toWorkItem extractEnvelope payload w0 (prevs ?s) = (None, w1, po)" "w = withReadTime t w1"
      and step: "Process c w (pt_demux P) = Some d"
    by (auto simp: enterPipeline_def split: prod.splits option.splits)
  have same: "wi_partition w = wi_partition w1" "wi_offset w = wi_offset w1" by (simp_all add: t(2) withReadTime_def)
  define s1 where "s1 = ?s\<lparr>prevs := po, inflight := w1 # inflight ?s,
      fetchPos := (fetchPos ?s)(wi_partition w1 := wi_offset w1 + 1)\<rparr>"
  define s2 where "s2 = ?s\<lparr>prevs := po, fetchPos := (fetchPos ?s)(wi_partition w := wi_offset w + 1)\<rparr>"
  have s2: "s2 = s1\<lparr>inflight := []\<rparr>" using I(2) by (simp add: s1_def s2_def same)
  have inv1: "world_inv s1" unfolding s1_def by (rule deliver_inv [OF I(1) t(1)]) (use rec same in simp_all)
  have dl: "delivered s2 = delivered ?s" by (simp add: s2_def)
  have "delivered s1 (wi_partition w1) w1" by (rule world_invD(2) [OF inv1]) (simp add: s1_def)
  then have "wellDelivered s2 w1" by (simp add: wellDelivered_def s1_def dl)
  then have w: "wellDelivered s2 w" unfolding t(2) by (rule stampPropertyD [OF wellDelivered_stamp]) simp
  have ds: "demuxStep nx c overflowCap (Poll w) (pt_demux P) = Some d" using step by (simp add: demuxStep_def)
  have "demux_inv nx c overflowCap d"
    by (rule demuxStep_inv [OF I(3) nx _ ds]) (simp add: okEvent_def t(2) blank_overflow [OF w0 t(1)])
  moreover have "carries (wellDelivered s2) (pt_demux P)" using I(4) by (simp add: wellDelivered_def [abs_def] dl)
  then have "carries (wellDelivered s2) d"
    using demuxStep_keeps [OF ds wellDelivered_stamp, of s2] w by (simp add: keepsItems_def)
  ultimately show ?thesis
    using world_inv_no_inflight [OF inv1] I(2,5,6) by (simp add: plant_inv_def s2 [symmetric]) (simp add: s2_def)
qed

lemma handOn_inv:
  assumes inv: "plant_inv nx c overflowCap P" and nx: "marksOverflow nx" and e: "\<not> isPoll e"
    and d: "demuxStep nx c overflowCap e (pt_demux P) = Some d"
  shows "plant_inv nx c overflowCap (handOn render d P)"
proof -
  note I = plant_invD [OF inv]
  let ?ws = "drop (length (handed (pt_demux P))) (handed d)" and ?s = "pt_world P"
  define s1 where "s1 = ?s\<lparr>handled := set (map PartitionOffset ?ws) \<union> handled ?s\<rparr>"
  define s2 where "s2 = s1\<lparr>committerOf := fold CollectAndCommit ?ws (committerOf ?s)\<rparr>"
  have k: "keepsItems (wellDelivered ?s) (pt_demux P) d"
    by (rule demuxStep_keeps [OF d wellDelivered_stamp]) (use e in \<open>auto simp: isPoll_def\<close>)
  with I(4) have c: "carries (wellDelivered ?s) d" "list_all (wellDelivered ?s) ?ws" by (simp_all add: keepsItems_def)
  note H = handed_world_inv [OF I(1) c(2), folded s1_def, folded s2_def]
  have "grows ?s s2" unfolding s2_def by (rule grows_trans [OF H(2)]) simp
  from grows_carries [OF this c(1)] have "carries (wellDelivered s2) d" .
  moreover have "demux_inv nx c overflowCap d"
    by (rule demuxStep_inv [OF I(3) nx _ d]) (use e in \<open>simp add: okEvent_def isPoll_def split: event.splits\<close>)
  moreover have "inflight s2 = []" using I(2) by (simp add: s2_def s1_def)
  moreover define cb where
    "cb = fold (\<lambda>r. TriggerEmergencyShutdown (Some (render r))) (drop (length (trips (pt_demux P))) (trips d)) (pt_breaker P)"
  have "breaker_wf cb" unfolding cb_def by (rule fold_Trigger_wf(1) [OF I(5)])
  moreover have "pt_mode P = Running \<or> MainCtxDone cb"
    using I(6) fold_Trigger_wf(2) [OF I(5), of "\<lambda>r. Some (render r)"] unfolding cb_def by auto
  moreover have "handOn render d P = P\<lparr>pt_demux := d, pt_world := s2, pt_breaker := cb\<rparr>"
    by (simp add: handOn_def Let_def s2_def s1_def cb_def)
  ultimately show ?thesis using H(1) by (simp add: plant_inv_def)
qed

lemma stopPolling_inv: "plant_inv nx c overflowCap P \<Longrightarrow> plant_inv nx c overflowCap (stopPolling text P)"
  by (simp add: plant_inv_def stopPolling_def Trigger_wf Trigger_done)

lemma refused_prevs:
  "enterPipeline extractEnvelope c payload w0 t po d = (Inl e, po') \<Longrightarrow> po' = po"
  using toWorkItem_error by (auto simp: enterPipeline_def split: prod.splits option.splits)

lemma plant_step_inv:
  assumes "plant_step nx c overflowCap extractEnvelope render P P'" "plant_inv nx c overflowCap P" "marksOverflow nx"
  shows "plant_inv nx c overflowCap P'"
  using assms(1)
proof (cases rule: plant_step.cases)
  case poll
  then show ?thesis using poll_inv_step [OF assms(2,3)] by blast
next
  case refuse
  then show ?thesis using stopPolling_inv [OF assms(2)] refused_prevs by fastforce
next
  case pipeline
  then show ?thesis using handOn_inv [OF assms(2,3)] by blast
next
  case (timeout d)
  moreover have "\<not> isPoll (Wake WakeTimer)" by (simp add: isPoll_def)
  ultimately show ?thesis using stopPolling_inv [OF handOn_inv [OF assms(2,3)]] by blast
next
  case loop_end
  with assms(2) show ?thesis by (simp add: plant_inv_def)
next
  case (control s)
  note I = plant_invD [OF assms(2)]
  from control I grows_carries [OF world_step_grows [OF control(2)] I(4)] world_step_inv [OF I(1) control(2)]
  show ?thesis by (simp add: plant_inv_def)
next
  case trip
  with assms(2) show ?thesis by (simp add: plant_inv_def Trigger_wf Trigger_done)
qed

section \<open>Every run\<close>

lemma plant_reach_inv:
  assumes "plant_reach nx c overflowCap extractEnvelope render P0 P" "plant_inv nx c overflowCap P0" "marksOverflow nx"
  shows "plant_inv nx c overflowCap P"
  using assms by induction (blast intro: plant_step_inv)+

lemma carries_New [simp]: "carries Q (NewDemux c overflowCap)"
proof -
  have borrow: "carries Q d1" if "BorrowWorker i d = (x, d1)" "carries Q d" for i x and d d1 :: "'a demux"
  proof (rule carriesI)
    show "senderCarries Q (sender d1)" using carriesD(2) [OF that(2)] BorrowWorker_wk(2) [OF that(1)] by simp
    show "workerCarries Q (wk d1 y)" for y
      using carriesD(1) [OF that(2), of y] BorrowWorker_wk(1) [OF that(1), of y] by auto
  qed
  have many: "carries Q d1" if "borrowWorkers n i d = (xs, d1)" "carries Q d" for n i xs and d d1 :: "'a demux"
    using that
  proof (induction n arbitrary: d xs d1)
    case (Suc n)
    obtain x d2 where b: "BorrowWorker i d = (x, d2)" by fastforce
    with Suc.prems(1) obtain ys where "borrowWorkers n i d2 = (ys, d1)" by (auto split: prod.splits)
    from Suc.IH [OF this borrow [OF b Suc.prems(2)]] show ?case .
  qed simp
  have ret1: "carries Q (ReturnWorker m i x d)" if "carries Q d" for m i x and d :: "'a demux"
    using that by (simp add: carries_def workerCarries_def ReturnWorker_wk)
  have ret: "carries Q (fold (ReturnWorker m i) xs d)" if "carries Q d" for m i xs and d :: "'a demux"
    using that by (induction xs arbitrary: d) (simp_all add: ret1)
  have shard: "carries Q (NewWorkerShard c overflowCap i d)" if "carries Q d" for i and d :: "'a demux"
  proof -
    have "carries Q (d\<lparr>shards := (shards d)(i := emptyShard)\<rparr>)" using that by (simp add: carries_def)
    then show ?thesis by (auto simp: NewWorkerShard_def Let_def split: prod.splits intro: ret many)
  qed
  have all: "carries Q (fold (NewWorkerShard c overflowCap) is d)" if "carries Q d" for "is" and d :: "'a demux"
    using that by (induction "is" arbitrary: d) (simp_all add: shard)
  show ?thesis unfolding NewDemux_def by (rule all) (simp add: carries_def senderCarries_def)
qed

lemma plant_init_inv:
  assumes b: "Build False verify token now port b = Inr (e, b')" and i: "plant_init e P"
  shows "plant_inv nx (eng_config e) (case eng_overflow e of Some n \<Rightarrow> n | None \<Rightarrow> 0) P"
proof -
  obtain cfg limiter where B: "eng_config e = cfg"
    "eng_demux e = NewDemux cfg (case bd_overflowGuard b of Some n \<Rightarrow> n | None \<Rightarrow> 0)" "eng_overflow e = bd_overflowGuard b"
    "sub_breaker (eng_subscription e) = NewCircuitBreaker"
    by (rule Build_Inr [OF b])
  have d: "pt_demux P = NewDemux (eng_config e) (case eng_overflow e of Some n \<Rightarrow> n | None \<Rightarrow> 0)"
    "pt_breaker P = NewCircuitBreaker"
    using i by (simp_all add: plant_init_def B)
  have "world_init (pt_world P)" "pt_mode P = Running" using i by (simp_all add: plant_init_def)
  then show ?thesis
    by (simp add: plant_inv_def world_init_inv d NewDemux_inv breaker_wf_def) (simp add: world_init_def)
qed

end
