(* ===== verification/Engine_Rebalance.thy ===== *)
theory Engine_Rebalance
  imports Engine_Run
begin

text \<open>
  Rebalances of the running engine: the handler's effects on committer, predecessor offsets and
  breaker are steps of Engine_Run, so that what holds in every run holds across rebalances. A
  run of a small engine, from its builder to its first commit, closes the theory.
\<close>

section \<open>Rebalances\<close>

text \<open>
  The handler of a rebalance is not a step of its own: its effects are steps of the running
  engine, one after the other, so that pipeline and commit ticks may come in between.
\<close>

abbreviation plant_steps ::
  "nexus \<Rightarrow> DemuxConfig \<Rightarrow> nat \<Rightarrow> ('a \<Rightarrow> envelope) \<Rightarrow> (trip_reason \<Rightarrow> string) \<Rightarrow> 'a plant \<Rightarrow> 'a plant \<Rightarrow> bool" where
  "plant_steps nx c overflowCap extractEnvelope render \<equiv> (plant_step nx c overflowCap extractEnvelope render)\<^sup>*\<^sup>*"

lemma control_steps:
  "world_step nx (pt_world P) s \<Longrightarrow> inflight s = [] \<Longrightarrow>
   plant_steps nx c overflowCap extractEnvelope render P (P\<lparr>pt_world := s\<rparr>)"
  by (intro r_into_rtranclp plant_step.control)

lemma trip_steps:
  "plant_steps nx c overflowCap extractEnvelope render P (P\<lparr>pt_breaker := TriggerEmergencyShutdown r (pt_breaker P)\<rparr>)"
  by (intro r_into_rtranclp plant_step.trip)

lemma marks_steps:
  assumes "\<And>r s. world_step nx s (s\<lparr>committerOf := f r (committerOf s)\<rparr>)" "inflight (pt_world P) = []"
  shows "plant_steps nx c overflowCap extractEnvelope render P
    (P\<lparr>pt_world := (pt_world P)\<lparr>committerOf := fold f rs (committerOf (pt_world P))\<rparr>\<rparr>)"
  using assms(2)
proof (induction rs arbitrary: P)
  case (Cons r rs)
  let ?P = "P\<lparr>pt_world := (pt_world P)\<lparr>committerOf := f r (committerOf (pt_world P))\<rparr>\<rparr>"
  have "plant_steps nx c overflowCap extractEnvelope render P ?P"
    by (rule control_steps [OF assms(1)]) (use Cons.prems in simp)
  moreover have "plant_steps nx c overflowCap extractEnvelope render ?P
      (?P\<lparr>pt_world := (pt_world ?P)\<lparr>committerOf := fold f rs (committerOf (pt_world ?P))\<rparr>\<rparr>)"
    by (rule Cons.IH) (use Cons.prems in simp)
  ultimately show ?case by simp
qed simp

lemma partitionOffsetsOf_mem:
  "(p, b) \<in> set (partitionOffsetsOf infos) \<Longrightarrow> \<exists>r \<in> set infos. ri_Partition r = p \<and> ri_CommittedOffset r = b"
proof -
  have "(p, b) \<in> set (fold (\<lambda>r. AList.update (ri_Partition r) (ri_CommittedOffset r)) infos al) \<Longrightarrow>
      (p, b) \<in> set al \<or> (\<exists>r \<in> set infos. ri_Partition r = p \<and> ri_CommittedOffset r = b)" for al
  proof (induction infos arbitrary: al)
    case (Cons r infos)
    then have "(p, b) \<in> set (AList.update (ri_Partition r) (ri_CommittedOffset r) al) \<or>
        (\<exists>q \<in> set infos. ri_Partition q = p \<and> ri_CommittedOffset q = b)" by simp
    then show ?case using set_update_cases by fastforce
  qed simp
  from this [of "[]"] show "(p, b) \<in> set (partitionOffsetsOf infos) \<Longrightarrow> ?thesis" by (simp add: partitionOffsetsOf_def)
qed

lemma assign_steps:
  assumes "infos \<noteq> []" "inflight (pt_world P) = []"
    and pos: "\<And>r. r \<in> set infos \<Longrightarrow> start (ri_Partition r) \<le> brokerPos (pt_world P) (ri_Partition r) \<and>
      (ri_CommittedOffset r < 0 \<or> ri_CommittedOffset r \<le> brokerPos (pt_world P) (ri_Partition r))"
  shows "plant_steps nx c overflowCap extractEnvelope render P (P\<lparr>pt_world := (pt_world P)
    \<lparr>prevs := ResetPrevOffsets (map ri_Partition infos) (prevs (pt_world P)),
     fetchPos := (\<lambda>p. if p \<in> ri_Partition ` set infos then start p else fetchPos (pt_world P) p),
     committerOf := fold (\<lambda>r. MarkPartitionAssigned now (ri_Partition r)) infos
       (ResetCommittedOffsets nx (partitionOffsetsOf infos) (committerOf (pt_world P)))\<rparr>\<rparr>)"
proof -
  let ?s = "pt_world P"
  define s1 where "s1 = ?s\<lparr>prevs := ResetPrevOffsets (map ri_Partition infos) (prevs ?s),
    fetchPos := (\<lambda>p. if p \<in> set (map ri_Partition infos) then start p else fetchPos ?s p)\<rparr>"
  define s2 where "s2 = s1\<lparr>committerOf := ResetCommittedOffsets nx (partitionOffsetsOf infos) (committerOf s1)\<rparr>"
  have "world_step nx ?s s1" unfolding s1_def by (rule world_step.fetch_from) (use assms(1) pos in auto)
  then have 1: "plant_steps nx c overflowCap extractEnvelope render P (P\<lparr>pt_world := s1\<rparr>)"
    by (rule control_steps) (simp add: s1_def assms(2))
  have "world_step nx s1 s2" unfolding s2_def
    by (rule world_step.baselines) (use pos in \<open>auto simp: s1_def dest!: partitionOffsetsOf_mem\<close>)
  then have 2: "plant_steps nx c overflowCap extractEnvelope render (P\<lparr>pt_world := s1\<rparr>) (P\<lparr>pt_world := s2\<rparr>)"
    using control_steps [of nx "P\<lparr>pt_world := s1\<rparr>" s2] by (simp add: s2_def s1_def assms(2))
  have 3: "plant_steps nx c overflowCap extractEnvelope render (P\<lparr>pt_world := s2\<rparr>)
      (P\<lparr>pt_world := s2\<lparr>committerOf := fold (\<lambda>r. MarkPartitionAssigned now (ri_Partition r)) infos (committerOf s2)\<rparr>\<rparr>)"
    using marks_steps [of nx "\<lambda>r. MarkPartitionAssigned now (ri_Partition r)" "P\<lparr>pt_world := s2\<rparr>"]
    by (simp add: world_step.mark_assigned s2_def s1_def assms(2))
  from 1 2 3 show ?thesis by (simp add: s2_def s1_def)
qed

text \<open>The messages the drain of a revocation offers to the broker.\<close>

definition drainOffers :: "nexus \<Rightarrow> (coordinator_error \<Rightarrow> string) \<Rightarrow> 'a drain_env \<Rightarrow> 'a subscription \<Rightarrow> 'a message list" where
  "drainOffers nx render env s = fst (snd (CoordinatorDrain nx render env (sub_committer s) (sub_breaker s)))"

lemma drain_steps:
  assumes "CoordinatorDrain nx render env (committerOf (pt_world P)) (pt_breaker P) = (err, sent, oc, cb)"
    "de_arrivals env = []" "inflight (pt_world P) = []" "positionsAfter sent (brokerPos (pt_world P)) b"
  shows "plant_steps nx c overflowCap extractEnvelope renderT P
    (P\<lparr>pt_world := (pt_world P)\<lparr>committerOf := oc, brokerPos := b\<rparr>, pt_breaker := cb\<rparr>)"
proof -
  let ?s = "pt_world P"
  have "plant_steps nx c overflowCap extractEnvelope renderT P (P\<lparr>pt_world := ?s\<lparr>committerOf := oc, brokerPos := b\<rparr>\<rparr>)"
  proof (cases "de_workersDone env")
    case True
    then obtain derr where "DrainCommitter nx (de_now env) (de_broker env) (de_acquired env) (de_timeoutAfter env)
        (committerOf ?s) = (derr, sent, oc)"
      using assms(1,2) by (auto simp: CoordinatorDrain_def drainWorkers_def drainCommitter_def Let_def split: prod.splits)
    then have "world_step nx ?s (?s\<lparr>committerOf := oc, brokerPos := b\<rparr>)" by (rule world_step.drain) (rule assms(4))
    then show ?thesis by (rule control_steps) (simp add: assms(3))
  next
    case False
    then have "oc = committerOf ?s" "sent = []"
      using assms(1,2) by (auto simp: CoordinatorDrain_def drainWorkers_def Let_def)
    moreover from this assms(4) have "b = brokerPos ?s" by (auto simp: positionsAfter_def)
    ultimately show ?thesis by simp
  qed
  moreover have "cb = pt_breaker P \<or> (\<exists>r. cb = TriggerEmergencyShutdown r (pt_breaker P))"
    using assms(1) by (auto simp: CoordinatorDrain_def Let_def split: prod.splits option.splits)
  moreover have "plant_steps nx c overflowCap extractEnvelope renderT (P\<lparr>pt_world := ?s\<lparr>committerOf := oc, brokerPos := b\<rparr>\<rparr>)
      (P\<lparr>pt_world := ?s\<lparr>committerOf := oc, brokerPos := b\<rparr>, pt_breaker := TriggerEmergencyShutdown r (pt_breaker P)\<rparr>)" for r
    using trip_steps [of nx c overflowCap extractEnvelope renderT "P\<lparr>pt_world := ?s\<lparr>committerOf := oc, brokerPos := b\<rparr>\<rparr>" r]
    by simp
  ultimately show ?thesis by (auto intro: rtranclp_trans)
qed

lemma revoke_steps:
  assumes "CoordinatorDrain nx render env (committerOf (pt_world P)) (pt_breaker P) = (err, sent, oc, cb)"
    "de_arrivals env = []" "inflight (pt_world P) = []" "positionsAfter sent (brokerPos (pt_world P)) b"
  shows "plant_steps nx c overflowCap extractEnvelope renderT P
    (P\<lparr>pt_world := (pt_world P)\<lparr>committerOf := fold (\<lambda>r. MarkPartitionRevoked now (ri_Partition r)) infos oc, brokerPos := b\<rparr>,
       pt_breaker := cb\<rparr>)"
proof -
  let ?P = "P\<lparr>pt_world := (pt_world P)\<lparr>committerOf := oc, brokerPos := b\<rparr>, pt_breaker := cb\<rparr>"
  have "plant_steps nx c overflowCap extractEnvelope renderT ?P
      (?P\<lparr>pt_world := (pt_world ?P)\<lparr>committerOf := fold (\<lambda>r. MarkPartitionRevoked now (ri_Partition r)) infos oc\<rparr>\<rparr>)"
    using marks_steps [of nx "\<lambda>r. MarkPartitionRevoked now (ri_Partition r)" ?P] assms(3)
    by (simp add: world_step.mark_revoked)
  from rtranclp_trans [OF drain_steps [OF assms] this] show ?thesis by (rule back_subst) simp
qed


section \<open>Runs\<close>

text \<open>An engine that owns partition 0, with message 5 read, is assigned the partition again from offset 5.\<close>

definition exLog :: "'a committer \<Rightarrow> PartitionOffsets \<Rightarrow> 'a world" where
  "exLog oc po = \<lparr>committerOf = oc, prevs = po, inflight = [], recs = (\<lambda>p. if p = 0 then {5} else {}),
     logEnd = (\<lambda>p. if p = 0 then 6 else 0), handled = {}, fetchPos = (\<lambda>p. if p = 0 then 5 else 0),
     brokerPos = (\<lambda>p. if p = 0 then 5 else 0)\<rparr>"

definition exReassigned :: "unit plant" where
  "exReassigned = \<lparr>pt_world = exLog exOwner [(0, 5)], pt_demux = NewDemux exSmall 0, pt_mode = Running,
     pt_breaker = NewCircuitBreaker\<rparr>"


text \<open>
  A run of a small engine, built with one concurrent key and two shards: it owns partition 0,
  polls message 5, hands it to a worker, which processes it, and commits it.
\<close>

definition exTiny :: DemuxConfig where
  "exTiny = zeroConfig\<lparr>ConcurrentKeys := 1, PerKeyBufferLen := 1, WorkerShardsCount := 2\<rparr>"

definition exTinyValid :: DemuxConfig where
  "exTinyValid = projr (SetDemuxConfigDefaults False exTiny)"

definition exTinyBuilder :: "(nat, nat) consumer_builder" where
  "exTinyBuilder = WithDemuxConfig exTiny (projr (NewBuilder ''orders'' (Some ()) (Some ())))"

definition exStarted :: "nat plant" where
  "exStarted = \<lparr>pt_world = exLog (NewCommitter 0) [], pt_demux = NewDemux exTinyValid 0, pt_mode = Running,
     pt_breaker = NewCircuitBreaker\<rparr>"

definition exAssigned :: "nat plant" where
  "exAssigned = exStarted\<lparr>pt_world := (pt_world exStarted)\<lparr>committerOf :=
     MarkPartitionAssigned 1 0 (ResetCommittedOffsets exNexus [(0, 5)] (NewCommitter 0))\<rparr>\<rparr>"

definition exEntry :: "nat work_item \<times> nat demux option" where
  "exEntry = projr (fst (enterPipeline (bp_ExtractEnvelope exPort) exTinyValid 5 (newWorkItem 3) 10 [] (pt_demux exAssigned)))"

definition exPolled :: "nat plant" where
  "exPolled = exAssigned\<lparr>pt_demux := the (snd exEntry), pt_world := (pt_world exAssigned)\<lparr>prevs := [(0, 5)],
     fetchPos := (fetchPos (pt_world exAssigned))(0 := 6)\<rparr>\<rparr>"

definition exDrive :: "nat event \<Rightarrow> nat plant \<Rightarrow> nat plant" where
  "exDrive ev P = handOn (\<lambda>_. []) (the (demuxStep exNexus exTinyValid 0 ev (pt_demux P))) P"

definition exWork :: "nat \<Rightarrow> nat event list" where
  "exWork x = [TrySend False, HandOver, Receive x, Finish x exTimes call_result.Returned call_result.Returned]"

definition exProcessed :: "nat plant" where
  "exProcessed = fold exDrive (exWork 0) exPolled"


definition exCommitted :: "nat plant" where
  "exCommitted = (let s = pt_world exProcessed; oc = ingestBatch exNexus 30 (committerOf s) in
     exProcessed\<lparr>pt_world := s\<lparr>committerOf := snd (snd (CommitOffsets exNexus 40 (\<lambda>_. None) True oc)),
       brokerPos := (brokerPos s)(0 := 6)\<rparr>\<rparr>)"

abbreviation exReach :: "nat plant \<Rightarrow> bool" where
  "exReach \<equiv> plant_reach exNexus exTinyValid 0 (bp_ExtractEnvelope exPort) (\<lambda>_. []) exStarted"

lemma exReach_control: "exReach P \<Longrightarrow> world_step exNexus (pt_world P) s \<Longrightarrow> inflight s = [] \<Longrightarrow> exReach (P\<lparr>pt_world := s\<rparr>)"
  by (blast intro: plant_reach.step plant_step.control)

lemma exAssigned_reach: "exReach exAssigned"
proof -
  let ?s = "(pt_world exStarted)\<lparr>committerOf := ResetCommittedOffsets exNexus [(0, 5)] (NewCommitter 0)\<rparr>"
  have "world_step exNexus (pt_world exStarted) ?s"
    using world_step.baselines [of "[(0, 5)]" "pt_world exStarted" exNexus] by (simp add: exStarted_def exLog_def)
  then have "exReach (exStarted\<lparr>pt_world := ?s\<rparr>)"
    by (rule exReach_control [OF plant_reach.start]) (simp add: exStarted_def exLog_def)
  from exReach_control [OF this world_step.mark_assigned [of _ _ 1 0]] show ?thesis
    by (simp add: exAssigned_def exStarted_def exLog_def)
qed

lemma exEntry_ok:
  "enterPipeline (bp_ExtractEnvelope exPort) exTinyValid 5 (newWorkItem 3) 10 (prevs (pt_world exAssigned)) (pt_demux exAssigned)
     = (Inr (fst exEntry, Some (the (snd exEntry))), [(0, 5)])"
  "wi_partition (fst exEntry) = 0" "wi_offset (fst exEntry) = 5"
proof -
  have s: "(case snd exEntry of Some d \<Rightarrow> True | None \<Rightarrow> False)" by code_simp
  show "wi_partition (fst exEntry) = 0" "wi_offset (fst exEntry) = 5" by code_simp+
  have t: "toWorkItem (bp_ExtractEnvelope exPort) 5 (newWorkItem 3) [] = (None, w, po) \<Longrightarrow> po = [(0, 5)]" for w po
    by (simp add: toWorkItem_def GetPrevious_def exPort_def)
  have e: "fst (toWorkItem (bp_ExtractEnvelope exPort) 5 (newWorkItem 3) []) = None"
    by (simp add: toWorkItem_def GetPrevious_def exPort_def)
  then obtain w where "toWorkItem (bp_ExtractEnvelope exPort) 5 (newWorkItem 3) [] = (None, w, [(0, 5)])"
    by (metis prod.collapse t)
  with s show "enterPipeline (bp_ExtractEnvelope exPort) exTinyValid 5 (newWorkItem 3) 10 (prevs (pt_world exAssigned))
      (pt_demux exAssigned) = (Inr (fst exEntry, Some (the (snd exEntry))), [(0, 5)])"
    by (auto simp: exEntry_def enterPipeline_def exAssigned_def exStarted_def exLog_def split: option.splits)
qed

lemma exPolled_reach: "exReach exPolled"
proof -
  have "plant_step exNexus exTinyValid 0 (bp_ExtractEnvelope exPort) (\<lambda>_. []) exAssigned
      (exAssigned\<lparr>pt_demux := the (snd exEntry), pt_world := (pt_world exAssigned)\<lparr>prevs := [(0, 5)],
        fetchPos := (fetchPos (pt_world exAssigned))(wi_partition (fst exEntry) := wi_offset (fst exEntry) + 1)\<rparr>\<rparr>)"
    by (rule plant_step.poll [OF _ blank_new exEntry_ok(1)])
      (simp_all add: exEntry_ok(2,3), simp_all add: exAssigned_def exStarted_def exLog_def)
  from plant_reach.step [OF exAssigned_reach this] show ?thesis by (simp add: exPolled_def exEntry_ok(2,3))
qed

lemma exDrive_reach:
  assumes "exReach P" "\<not> isPoll ev" "ev \<noteq> Wake WakeTimer" "detectMainCtxDone (pt_breaker P) ev"
    "case demuxStep exNexus exTinyValid 0 ev (pt_demux P) of Some d \<Rightarrow> True | None \<Rightarrow> False"
  shows "exReach (exDrive ev P)"
proof -
  from assms(5) obtain d where d: "demuxStep exNexus exTinyValid 0 ev (pt_demux P) = Some d" by (auto split: option.splits)
  from plant_reach.step [OF assms(1) plant_step.pipeline [OF assms(2-4) d]] show ?thesis by (simp add: exDrive_def d)
qed

lemma exProcessed_reach: "exReach exProcessed"
proof -
  let ?e1 = "TrySend False" and ?e4 = "Finish 0 exTimes call_result.Returned call_result.Returned"
  note ev = isPoll_def detectMainCtxDone_def
  have 1: "exReach (exDrive ?e1 exPolled)"
    by (rule exDrive_reach [OF exPolled_reach]) (simp_all add: ev, code_simp)
  have 2: "exReach (exDrive HandOver (exDrive ?e1 exPolled))" by (rule exDrive_reach [OF 1]) (simp_all add: ev, code_simp)
  have 3: "exReach (exDrive (Receive 0) (exDrive HandOver (exDrive ?e1 exPolled)))"
    by (rule exDrive_reach [OF 2]) (simp_all add: ev, code_simp)
  have "exReach (exDrive ?e4 (exDrive (Receive 0) (exDrive HandOver (exDrive ?e1 exPolled))))"
    by (rule exDrive_reach [OF 3]) (simp_all add: ev, code_simp)
  then show ?thesis by (simp add: exProcessed_def exWork_def)
qed

lemma exCommitted_reach: "exReach exCommitted"
proof -
  let ?s = "(pt_world exProcessed)\<lparr>committerOf := ingestBatch exNexus 30 (committerOf (pt_world exProcessed))\<rparr>"
  let ?c = "CommitOffsets exNexus 40 (\<lambda>_. None) True (committerOf ?s)"
  have flight: "inflight (pt_world exProcessed) = []"
    by (simp add: exProcessed_def exWork_def exDrive_def handOn_def Let_def exPolled_def exAssigned_def exStarted_def exLog_def)
  have 1: "exReach (exProcessed\<lparr>pt_world := ?s\<rparr>)"
    by (rule exReach_control [OF exProcessed_reach world_step.ingest]) (simp add: flight)
  have sent: "map (\<lambda>m. (msg_Partition m, msg_Offset m)) (fst (snd ?c)) = [(0, 5)]" by code_simp
  then have "positionsAfter (fst (snd ?c)) (brokerPos ?s) ((brokerPos ?s)(0 := 6))"
    by (auto simp: positionsAfter_def)
  then have "world_step exNexus ?s (?s\<lparr>committerOf := snd (snd ?c), brokerPos := (brokerPos ?s)(0 := 6)\<rparr>)"
    by (intro world_step.tick [where err = "fst ?c" and sent = "fst (snd ?c)" and now = 40 and broker = "\<lambda>_. None" and acq = True])
      simp_all
  from exReach_control [OF 1, simplified, OF this [simplified]] show ?thesis by (simp add: exCommitted_def Let_def flight)
qed

lemma exTiny_accepted: "SetDemuxConfigDefaults False exTiny = Inr exTinyValid"
proof -
  have "(case SetDemuxConfigDefaults False exTiny of Inl _ \<Rightarrow> False | Inr _ \<Rightarrow> True)" by code_simp
  then show ?thesis by (cases "SetDemuxConfigDefaults False exTiny") (simp_all add: exTinyValid_def)
qed

lemma exTiny_built:
  "\<exists>(e :: (nat, nat, nat) engine) b'. Build False (\<lambda>_ _ _. False) [] 0 exPort exTinyBuilder = Inr (e, b') \<and>
     plant_init e exStarted \<and> eng_config e = exTinyValid \<and> eng_overflow e = None \<and>
     eng_extractEnvelope e = bp_ExtractEnvelope exPort"
  by (simp add: Build_def exTinyBuilder_def NewBuilder_def WithDemuxConfig_def byteIn_def exTiny_accepted Let_def plant_init_def)
    (simp add: exStarted_def NewSubscription_def withDefaults_def world_init_def exLog_def covers_def NewPartitionOffsets_def enriched_def, blast)

end
