(* ===== verification/Gap_Storage.thy ===== *)
theory Gap_Storage
  imports Demux_Examples
begin

text \<open>
  The storage of the gap buffer (committer\_process.go, committer\_repair.go, send\_commits.go):
  a Go slice over a backing array, which the committer appends to, sorts and filters in place,
  cuts at the front, truncates and reallocates. Each operation on the slice is shown to be the
  operation on lists that Offset\_Tracker has, and the reallocation policy to return and to keep
  the capacity within its bounds. \<open>grow\<close> is the capacity the runtime chooses when an append has to
  reallocate, of which only the documented minimum is used.
\<close>

section \<open>Slices\<close>

record 'a slice =
  sl_array :: "'a option list"
  sl_start :: nat
  sl_len :: nat

definition sl_cap :: "'a slice \<Rightarrow> nat" where
  "sl_cap s = length (sl_array s) - sl_start s"

definition sl_window :: "'a slice \<Rightarrow> 'a option list" where
  "sl_window s = take (sl_len s) (drop (sl_start s) (sl_array s))"

definition sl_items :: "'a slice \<Rightarrow> 'a list" where
  "sl_items s = map the (sl_window s)"

definition slice_wf :: "'a slice \<Rightarrow> bool" where
  "slice_wf s \<longleftrightarrow> sl_start s + sl_len s \<le> length (sl_array s) \<and> None \<notin> set (sl_window s)"

definition makeSlice :: "'a list \<Rightarrow> nat \<Rightarrow> 'a slice" where
  "makeSlice xs cap = \<lparr>sl_array = map Some xs @ replicate (cap - length xs) None, sl_start = 0, sl_len = length xs\<rparr>"

definition appendSlice :: "(nat \<Rightarrow> nat \<Rightarrow> nat) \<Rightarrow> 'a \<Rightarrow> 'a slice \<Rightarrow> 'a slice" where
  "appendSlice grow x s =
     (if sl_len s < sl_cap s
      then s\<lparr>sl_array := (sl_array s)[sl_start s + sl_len s := Some x], sl_len := Suc (sl_len s)\<rparr>
      else makeSlice (sl_items s @ [x]) (max (Suc (sl_len s)) (grow (sl_cap s) (Suc (sl_len s)))))"

text \<open>\<open>s[n:]\<close> and \<open>s[:0]\<close>.\<close>

definition sliceFrom :: "nat \<Rightarrow> 'a slice \<Rightarrow> 'a slice" where
  "sliceFrom n s = s\<lparr>sl_start := sl_start s + n, sl_len := sl_len s - n\<rparr>"

definition truncateSlice :: "'a slice \<Rightarrow> 'a slice" where
  "truncateSlice s = s\<lparr>sl_len := 0\<rparr>"

text \<open>\<open>slices.Grow\<close> of the standard library.\<close>

definition growSlice :: "(nat \<Rightarrow> nat \<Rightarrow> nat) \<Rightarrow> nat \<Rightarrow> 'a slice \<Rightarrow> 'a slice" where
  "growSlice grow n s =
     (if n \<le> sl_cap s - sl_len s then s
      else makeSlice (sl_items s) (max (sl_len s + n) (grow (sl_cap s) (sl_len s + n))))"

text \<open>
  A slice whose elements were rearranged in place, as \<open>slices.SortFunc\<close> does, or moved to the
  front with the cells behind them cleared, as \<open>slices.CompactFunc\<close> does.
\<close>

definition rewriteSlice :: "'a list \<Rightarrow> 'a slice \<Rightarrow> 'a slice" where
  "rewriteSlice xs s =
     s\<lparr>sl_array := take (sl_start s) (sl_array s) @ map Some xs @ replicate (sl_len s - length xs) None @
         drop (sl_start s + sl_len s) (sl_array s),
       sl_len := length xs\<rparr>"

text \<open>
  \<open>kept := s[:0]; for _, g := range s { if keep(g) { kept = append(kept, g) } }\<close>: the loop reads
  cell \<open>i\<close> and writes cell \<open>j\<close> of the same array; behind \<open>j\<close> the old cells remain.
\<close>

fun keepCells :: "('a \<Rightarrow> bool) \<Rightarrow> nat \<Rightarrow> nat \<Rightarrow> nat \<Rightarrow> 'a option list \<Rightarrow> 'a option list \<times> nat" where
  "keepCells keep 0 i j arr = (arr, j)"
| "keepCells keep (Suc n) i j arr =
     (if keep (the (arr ! i)) then keepCells keep n (Suc i) (Suc j) (arr[j := arr ! i])
      else keepCells keep n (Suc i) j arr)"

definition filterSlice :: "('a \<Rightarrow> bool) \<Rightarrow> 'a slice \<Rightarrow> 'a slice" where
  "filterSlice keep s =
     (let (arr, j) = keepCells keep (sl_len s) (sl_start s) (sl_start s) (sl_array s)
      in s\<lparr>sl_array := arr, sl_len := j - sl_start s\<rparr>)"

section \<open>The reallocation policy\<close>

definition gapBufferSize :: "int \<Rightarrow> nat" where
  "gapBufferSize keys = nat (keys * 3 div 2)"

definition gapBufferSize70Pct :: "nat \<Rightarrow> nat" where
  "gapBufferSize70Pct sz = sz * 70 div 100"

text \<open>The loop that looks for a multiple of the size above the length. It need not end.\<close>

partial_function (option) nextCapacity :: "nat \<Rightarrow> nat \<Rightarrow> nat \<Rightarrow> nat option" where
  "nextCapacity sz len i = (if len < sz * i then Some (sz * i) else nextCapacity sz len (Suc i))"

definition resizeGapBuffer :: "(nat \<Rightarrow> nat \<Rightarrow> nat) \<Rightarrow> nat \<Rightarrow> 'a slice \<Rightarrow> 'a slice option" where
  "resizeGapBuffer grow sz s =
     (if sl_cap s < gapBufferSize70Pct sz then Some (growSlice grow sz s)
      else if sl_cap s > sz * 3 then map_option (makeSlice (sl_items s)) (nextCapacity sz (sl_len s) 4)
      else Some s)"

section \<open>Slices as lists\<close>

lemma sl_items_make [simp]: "sl_items (makeSlice xs cap) = xs"
  by (simp add: sl_items_def sl_window_def makeSlice_def)

lemma makeSlice_wf [simp]: "slice_wf (makeSlice xs cap)"
  by (auto simp: slice_wf_def sl_window_def makeSlice_def)

lemma sl_cap_make [simp]: "sl_cap (makeSlice xs cap) = max (length xs) cap"
  by (simp add: sl_cap_def makeSlice_def)

lemma sl_len_make [simp]: "sl_len (makeSlice xs cap) = length xs"
  by (simp add: makeSlice_def)

lemma length_items: "slice_wf s \<Longrightarrow> length (sl_items s) = sl_len s"
  by (auto simp: sl_items_def sl_window_def slice_wf_def)

lemma len_le_cap: "slice_wf s \<Longrightarrow> sl_len s \<le> sl_cap s"
  by (auto simp: slice_wf_def sl_cap_def)

lemma window_items: "slice_wf s \<Longrightarrow> sl_window s = map Some (sl_items s)"
  by (auto simp: slice_wf_def sl_items_def intro!: map_idI [symmetric]) (metis not_None_eq option.sel)

text \<open>A slice is well formed and has the given items when its array has them at its window.\<close>

lemma slice_split:
  assumes "sl_array s = xs @ map Some ys @ zs" "sl_start s = length xs" "sl_len s = length ys"
  shows "slice_wf s" "sl_items s = ys"
  using assms by (auto simp: slice_wf_def sl_items_def sl_window_def)

lemma slice_array:
  assumes "slice_wf s"
  shows "sl_array s = take (sl_start s) (sl_array s) @ map Some (sl_items s) @ drop (sl_start s + sl_len s) (sl_array s)"
proof -
  have "drop (sl_start s) (sl_array s) = sl_window s @ drop (sl_start s + sl_len s) (sl_array s)"
    by (simp add: sl_window_def add.commute) (metis append_take_drop_id drop_drop)
  then show ?thesis using append_take_drop_id [of "sl_start s" "sl_array s"] by (simp add: window_items [OF assms])
qed

lemma appendSlice_list:
  assumes wf: "slice_wf s"
  shows "slice_wf (appendSlice grow x s)" "sl_items (appendSlice grow x s) = sl_items s @ [x]"
proof -
  have "slice_wf (appendSlice grow x s) \<and> sl_items (appendSlice grow x s) = sl_items s @ [x]"
  proof (cases "sl_len s < sl_cap s")
    case True
    let ?xs = "take (sl_start s) (sl_array s)" and ?zs = "drop (sl_start s + sl_len s) (sl_array s)"
    obtain c zs where zs: "?zs = c # zs" using True by (cases ?zs) (auto simp: sl_cap_def)
    have len: "length ?xs = sl_start s" using True by (simp add: sl_cap_def)
    have "sl_array s = ?xs @ map Some (sl_items s) @ c # zs" using slice_array [OF wf] zs by simp
    then have "(sl_array s)[sl_start s + sl_len s := Some x] = ?xs @ map Some (sl_items s @ [x]) @ zs"
      using len length_items [OF wf] by (metis (no_types, lifting) append.assoc append_Cons append_Nil length_append length_map
        list_update_length map_append list.map(1,2))
    then show ?thesis
      using slice_split [of "appendSlice grow x s" ?xs "sl_items s @ [x]" zs] True len
      by (simp add: appendSlice_def length_items [OF wf])
  qed (simp add: appendSlice_def)
  then show "slice_wf (appendSlice grow x s)" "sl_items (appendSlice grow x s) = sl_items s @ [x]" by simp_all
qed

lemma sliceFrom_list:
  assumes "slice_wf s" "n \<le> sl_len s"
  shows "slice_wf (sliceFrom n s)" "sl_items (sliceFrom n s) = drop n (sl_items s)"
proof -
  have w: "sl_window (sliceFrom n s) = drop n (sl_window s)"
    by (simp add: sl_window_def sliceFrom_def drop_take add.commute)
  then show "sl_items (sliceFrom n s) = drop n (sl_items s)" by (simp add: sl_items_def drop_map)
  show "slice_wf (sliceFrom n s)"
    using assms w by (auto simp: slice_wf_def sliceFrom_def dest: in_set_dropD)
qed

lemma truncateSlice_list: "slice_wf s \<Longrightarrow> slice_wf (truncateSlice s)" "sl_items (truncateSlice s) = []"
  by (auto simp: slice_wf_def truncateSlice_def sl_items_def sl_window_def)

lemma growSlice_list:
  "slice_wf s \<Longrightarrow> slice_wf (growSlice grow n s)" "sl_items (growSlice grow n s) = sl_items s"
  by (auto simp: growSlice_def)

lemma rewriteSlice_list:
  assumes "slice_wf s" "length xs \<le> sl_len s"
  shows "slice_wf (rewriteSlice xs s)" "sl_items (rewriteSlice xs s) = xs"
  using slice_split [of "rewriteSlice xs s" "take (sl_start s) (sl_array s)" xs] assms
  by (simp_all add: rewriteSlice_def slice_wf_def)

lemma keepCells_list:
  "\<exists>js. keepCells keep (length ys) (length (ws @ zs)) (length ws) (ws @ zs @ map Some ys @ us) =
     (ws @ map Some (filter keep ys) @ js @ us, length ws + length (filter keep ys))"
proof (induction ys arbitrary: ws zs)
  case (Cons y ys)
  have at: "(ws @ zs @ map Some (y # ys) @ us) ! length (ws @ zs) = Some y"
    by (metis append.assoc append_Cons list.simps(9) nth_append_length)
  show ?case
  proof (cases "keep y")
    case True
    obtain zs' where zs': "length zs' = length zs"
      "(ws @ zs @ map Some (y # ys) @ us)[length ws := Some y] = (ws @ [Some y]) @ zs' @ map Some ys @ us"
    proof (cases zs)
      case Nil
      then show ?thesis using that [of "[]"] by simp
    next
      case (Cons z vs)
      then show ?thesis using that [of "vs @ [Some y]"] by simp
    qed
    obtain js where "keepCells keep (length ys) (length ((ws @ [Some y]) @ zs')) (length (ws @ [Some y]))
        ((ws @ [Some y]) @ zs' @ map Some ys @ us) =
      ((ws @ [Some y]) @ map Some (filter keep ys) @ js @ us, length (ws @ [Some y]) + length (filter keep ys))"
      using Cons.IH by blast
    with True at zs' show ?thesis by simp
  next
    case False
    obtain js where "keepCells keep (length ys) (length (ws @ zs @ [Some y])) (length ws)
        (ws @ (zs @ [Some y]) @ map Some ys @ us) =
      (ws @ map Some (filter keep ys) @ js @ us, length ws + length (filter keep ys))"
      using Cons.IH by blast
    with False at show ?thesis by simp
  qed
qed simp

lemma filterSlice_list:
  assumes wf: "slice_wf s"
  shows "slice_wf (filterSlice keep s)" "sl_items (filterSlice keep s) = filter keep (sl_items s)"
proof -
  let ?xs = "take (sl_start s) (sl_array s)" and ?us = "drop (sl_start s + sl_len s) (sl_array s)"
  have len: "length ?xs = sl_start s" using wf by (simp add: slice_wf_def)
  obtain js where "keepCells keep (length (sl_items s)) (length (?xs @ [])) (length ?xs) (?xs @ [] @ map Some (sl_items s) @ ?us) =
      (?xs @ map Some (filter keep (sl_items s)) @ js @ ?us, length ?xs + length (filter keep (sl_items s)))"
    using keepCells_list by blast
  then have "keepCells keep (sl_len s) (sl_start s) (sl_start s) (sl_array s) =
      (?xs @ map Some (filter keep (sl_items s)) @ js @ ?us, sl_start s + length (filter keep (sl_items s)))"
    using slice_array [OF wf] len length_items [OF wf] by simp
  then have f: "sl_array (filterSlice keep s) = ?xs @ map Some (filter keep (sl_items s)) @ js @ ?us"
    "sl_start (filterSlice keep s) = length ?xs" "sl_len (filterSlice keep s) = length (filter keep (sl_items s))"
    using len by (simp_all add: filterSlice_def)
  show "slice_wf (filterSlice keep s)" "sl_items (filterSlice keep s) = filter keep (sl_items s)"
    by (rule slice_split [OF f])+
qed

section \<open>The policy returns\<close>

lemma nextCapacity_returns:
  assumes "0 < sz"
  shows "\<exists>k \<ge> i. nextCapacity sz len i = Some (sz * k) \<and> len < sz * k \<and> (k = i \<or> sz * (k - 1) \<le> len)"
proof (induction "Suc len - i" arbitrary: i)
  case 0
  then have "len < i" by simp
  then have "len < sz * i" using assms by (metis less_le_trans mult_le_mono1 nat_mult_1 Suc_leI One_nat_def)
  then show ?case by (intro exI [of _ i]) (simp add: nextCapacity.simps)
next
  case (Suc n)
  show ?case
  proof (cases "len < sz * i")
    case True
    then show ?thesis by (intro exI [of _ i]) (simp add: nextCapacity.simps)
  next
    case False
    have "n = Suc len - Suc i" using Suc.hyps(2) by simp
    from Suc.hyps(1) [OF this] obtain k where k: "k \<ge> Suc i" "nextCapacity sz len (Suc i) = Some (sz * k)"
      "len < sz * k" "k = Suc i \<or> sz * (k - 1) \<le> len" by blast
    have "sz * (k - 1) \<le> len" using k(4) False by auto
    then show ?thesis using k False by (intro exI [of _ k]) (simp add: nextCapacity.simps [of sz len i])
  qed
qed

lemma resizeGapBuffer_returns:
  assumes wf: "slice_wf s" and sz: "0 < sz"
  shows "\<exists>s'. resizeGapBuffer grow sz s = Some s' \<and> slice_wf s' \<and> sl_items s' = sl_items s \<and>
    (sl_cap s' \<le> sz * 3 \<or> sl_cap s < gapBufferSize70Pct sz \<or> sl_cap s' = sz * 4 \<or> sl_cap s' \<le> sl_len s + sz)"
proof (cases "\<not> sl_cap s < gapBufferSize70Pct sz \<and> sl_cap s > sz * 3")
  case True
  obtain k where k: "k \<ge> 4" "nextCapacity sz (sl_len s) 4 = Some (sz * k)" "sl_len s < sz * k"
    "k = 4 \<or> sz * (k - 1) \<le> sl_len s" using nextCapacity_returns [OF sz] by blast
  have "sz * k = sz * (k - 1) + sz" using k(1) by (cases k) simp_all
  then have "k \<noteq> 4 \<longrightarrow> sz * k \<le> sl_len s + sz" using k(4) by linarith
  then show ?thesis using True k length_items [OF wf] by (auto simp: resizeGapBuffer_def)
next
  case False
  then show ?thesis using wf growSlice_list [where s = s] by (auto simp: resizeGapBuffer_def)
qed

text \<open>
  A reallocation from above three times the size ends above three times the size: the next walk
  that leaves something in the buffer and takes less than one size from it reallocates again.
\<close>

lemma resize_repeats:
  assumes "slice_wf s" "0 < sz" "\<not> sl_cap s < gapBufferSize70Pct sz" "sz * 3 < sl_cap s"
    "resizeGapBuffer grow sz s = Some s'" "n < sz"
  shows "sz * 3 < sl_cap (sliceFrom n s') \<and> \<not> sl_cap (sliceFrom n s') < gapBufferSize70Pct sz"
proof -
  obtain k where k: "k \<ge> 4" "nextCapacity sz (sl_len s) 4 = Some (sz * k)" "sl_len s < sz * k"
    using nextCapacity_returns [OF assms(2)] by blast
  with assms have "sl_cap s' = sz * k" by (auto simp: resizeGapBuffer_def length_items)
  moreover have "sz * 4 \<le> sz * k" using k(1) by simp
  ultimately have "sz * 4 \<le> sl_cap s'" by simp
  moreover have "sl_cap (sliceFrom n s') = sl_cap s' - n" by (simp add: sl_cap_def sliceFrom_def)
  moreover have "sz * 70 div 100 \<le> sz" by simp
  ultimately show ?thesis using assms(6) by (auto simp: gapBufferSize70Pct_def)
qed


section \<open>The committer's use of the storage\<close>

text \<open>The storage side of \<open>flushGapBuffers\<close>, \<open>repairSuccessor\<close>, \<open>ResetCommittedOffsets\<close> and \<open>discardOrphanedTracker\<close>.\<close>

definition flushStorage ::
  "(nat \<Rightarrow> nat \<Rightarrow> nat) \<Rightarrow> nat \<Rightarrow> nexus \<Rightarrow> time \<Rightarrow> 'a tracker \<Rightarrow> 'a work_item slice \<Rightarrow> 'a work_item slice option" where
  "flushStorage grow sz nx now t s =
     (if \<not> NeedsGapAdvance t then Some s
      else if sl_len s = 0 then Some s
      else
        (let s1 = rewriteSlice (sortGapBuffer (sl_items s)) s;
             (r, col, n) = flushWalk nx now (CommittedPlusOne t) (LastCommittedOffset t) (sl_items s1) (Ready t)
         in if n = 0 then Some s1
            else if sl_len s1 = n then Some (makeSlice [] sz)
            else resizeGapBuffer grow sz (sliceFrom n s1)))"

definition repairStorage :: "'a tracker \<Rightarrow> 'a work_item slice \<Rightarrow> 'a work_item slice" where
  "repairStorage t s =
     (if Ready t \<noteq> None \<or> sl_len s = 0 \<or> NeedsGapAdvance t \<or> LastCommittedOffset t < 0 then s
      else
        (case repairScan (CommittedPlusOne t) (LastCommittedOffset t) (sl_items s) None of
           None \<Rightarrow> s
         | Some c \<Rightarrow> filterSlice (\<lambda>g. wi_ptr g \<noteq> wi_ptr c \<and> \<not> wi_offset g < wi_offset c) s))"

definition resetStorage :: "'a tracker \<Rightarrow> 'a work_item slice \<Rightarrow> 'a work_item slice" where
  "resetStorage t s = (if Assignment t = Revoke then truncateSlice s else s)"

definition discardStorage :: "'a tracker \<Rightarrow> 'a work_item slice \<Rightarrow> 'a work_item slice" where
  "discardStorage t s =
     (if Ready t = None \<and> sl_len s = 0 then s else if sl_len s > 0 then truncateSlice s else s)"

definition stores :: "'a work_item slice \<Rightarrow> 'a tracker \<Rightarrow> bool" where
  "stores s t \<longleftrightarrow> slice_wf s \<and> sl_items s = GapBuffer t"

lemma storesD:
  assumes "stores s t"
  shows "slice_wf s" "sl_items s = GapBuffer t" "sl_len s = length (GapBuffer t)"
  using assms length_items [of s] by (auto simp: stores_def)

lemma flushWalk_length: "flushWalk nx now c l gs rdy = (r, col, n) \<Longrightarrow> n \<le> length gs"
  by (induction nx now c l gs rdy arbitrary: r col n rule: flushWalk.induct) (auto split: if_splits prod.splits)

lemma length_sortGapBuffer: "length (sortGapBuffer xs) \<le> length xs"
  using size_mset_mono [OF sortGapBuffer_subset [of xs]] by simp

lemma flushStorage_stores:
  assumes st: "stores s t" and sz: "0 < sz"
  shows "\<exists>s'. flushStorage grow sz nx now t s = Some s' \<and> stores s' (fst (flushTracker nx now t))"
proof (cases "NeedsGapAdvance t \<and> GapBuffer t \<noteq> []")
  case False
  then show ?thesis using st storesD [OF st] by (auto simp: flushStorage_def flushTracker_def stores_def Let_def)
next
  case True
  note D = storesD [OF st]
  define buf where "buf = sortGapBuffer (GapBuffer t)"
  define s1 where "s1 = rewriteSlice buf s"
  obtain r col n where w: "flushWalk nx now (CommittedPlusOne t) (LastCommittedOffset t) buf (Ready t) = (r, col, n)"
    by (metis prod_cases3)
  have s1: "slice_wf s1" "sl_items s1 = buf"
    using rewriteSlice_list [OF D(1), of buf] length_sortGapBuffer [of "GapBuffer t"] D(3) by (simp_all add: s1_def buf_def)
  then have len: "sl_len s1 = length buf" using length_items [of s1] by simp
  have tr: "GapBuffer (fst (flushTracker nx now t)) = (if n = 0 then buf else if length buf = n then [] else drop n buf)"
    using True w by (simp add: flushTracker_def buf_def Let_def)
  have fs: "flushStorage grow sz nx now t s =
      (if n = 0 then Some s1 else if length buf = n then Some (makeSlice [] sz) else resizeGapBuffer grow sz (sliceFrom n s1))"
    using True w D s1 len by (simp add: flushStorage_def buf_def [symmetric] s1_def [symmetric])
  have "n \<le> sl_len s1" using flushWalk_length [OF w] len by simp
  note cut = sliceFrom_list [OF s1(1) this]
  obtain s2 where "resizeGapBuffer grow sz (sliceFrom n s1) = Some s2" "slice_wf s2" "sl_items s2 = drop n buf"
    using resizeGapBuffer_returns [OF cut(1) sz] cut(2) s1(2) by metis
  then show ?thesis using fs tr s1 by (auto simp: stores_def)
qed

lemma repairStorage_stores:
  assumes st: "stores s t"
  shows "stores (repairStorage t s) (fst (repairSuccessor nx now t))"
proof -
  note D = storesD [OF st]
  show ?thesis
    using st D filterSlice_list [OF D(1)] by (auto simp: repairStorage_def repairSuccessor_def stores_def Let_def split: option.splits)
qed


text \<open>
  C16. The gap buffer's storage implements the list the tracker is specified with: a slice that
  holds the buffered items still holds exactly them, in order, after each operation the committer
  performs on it, in place or by reallocation (append, sort and cut of a flush, the in-place
  filter of a repair, the truncations of a reset and of a discard). The loop that searches a new
  capacity ends for every accepted number of keys, with room for the items and no more than the
  old capacity bounds, four sizes, or one size above the length.
\<close>

theorem gap_storage_refines:
  assumes "stores s t" "1 \<le> keys"
  shows "stores (appendSlice grow (onTraits (SetCommitBuffered nx) w) s) (addToGapBuffer nx w t) \<and>
    (\<exists>s'. flushStorage grow (gapBufferSize keys) nx now t s = Some s' \<and> stores s' (fst (flushTracker nx now t))) \<and>
    stores (repairStorage t s) (fst (repairSuccessor nx now t)) \<and>
    stores (resetStorage t s) (fst (resetTracker nx b (Some t))) \<and>
    stores (discardStorage t s) (fst (discardOrphanedTracker nx t)) \<and>
    (\<exists>s'. resizeGapBuffer grow (gapBufferSize keys) s = Some s' \<and> stores s' t \<and> sl_len s' \<le> sl_cap s' \<and>
       (sl_cap s' \<le> gapBufferSize keys * 3 \<or> sl_cap s < gapBufferSize70Pct (gapBufferSize keys) \<or>
        sl_cap s' = gapBufferSize keys * 4 \<or> sl_cap s' \<le> sl_len s + gapBufferSize keys))"
proof -
  note D = storesD [OF assms(1)]
  have sz: "0 < gapBufferSize keys" using assms(2) by (simp add: gapBufferSize_def)
  have "stores (appendSlice grow (onTraits (SetCommitBuffered nx) w) s) (addToGapBuffer nx w t)"
    using appendSlice_list [OF D(1)] D(2) by (simp add: stores_def addToGapBuffer_def)
  moreover have "stores (resetStorage t s) (fst (resetTracker nx b (Some t)))"
    using D truncateSlice_list [of s]
    by (cases "Ready t") (auto simp: stores_def resetStorage_def resetTracker_def Let_def)
  moreover have "stores (discardStorage t s) (fst (discardOrphanedTracker nx t))"
    using D truncateSlice_list [of s] by (auto simp: stores_def discardStorage_def discardOrphanedTracker_def)
  moreover note flushStorage_stores [OF assms(1) sz, of grow nx now] repairStorage_stores [OF assms(1), of nx now]
  moreover from resizeGapBuffer_returns [OF D(1) sz, of grow] D(2) len_le_cap
  have "\<exists>s'. resizeGapBuffer grow (gapBufferSize keys) s = Some s' \<and> stores s' t \<and> sl_len s' \<le> sl_cap s' \<and>
       (sl_cap s' \<le> gapBufferSize keys * 3 \<or> sl_cap s < gapBufferSize70Pct (gapBufferSize keys) \<or>
        sl_cap s' = gapBufferSize keys * 4 \<or> sl_cap s' \<le> sl_len s + gapBufferSize keys)"
    unfolding stores_def by metis
  ultimately show ?thesis by blast
qed

text \<open>
  A buffer of three items in an array of ten cells, for one concurrent key: the flush walks over
  the first two and copies the third into an array of four cells.
\<close>

definition exGaps :: "unit tracker" where
  "exGaps = (newTracker 5)\<lparr>CommittedPlusOne := 5, NeedsGapAdvance := True,
     GapBuffer := [exItem 3 0 9 8 False, exItem 2 0 6 5 False, exItem 1 0 5 4 True]\<rparr>"

definition exSlice :: "unit work_item slice" where
  "exSlice = makeSlice (GapBuffer exGaps) 10"

theorem gap_storage_refines_witness:
  "stores exSlice exGaps \<and> gapBufferSize 1 = 1 \<and> sl_cap exSlice = 10 \<and>
   map wi_offset (GapBuffer (fst (flushTracker exNexus 30 exGaps))) = [9] \<and>
   (\<exists>s'. flushStorage max (gapBufferSize 1) exNexus 30 exGaps exSlice = Some s' \<and>
      stores s' (fst (flushTracker exNexus 30 exGaps)) \<and> map wi_offset (sl_items s') = [9])"
proof -
  have st: "stores exSlice exGaps" by (simp add: stores_def exSlice_def)
  have e: "gapBufferSize 1 = 1" "sl_cap exSlice = 10"
    "map wi_offset (GapBuffer (fst (flushTracker exNexus 30 exGaps))) = [9]" by code_simp+
  obtain s' where "flushStorage max (gapBufferSize 1) exNexus 30 exGaps exSlice = Some s'"
    "stores s' (fst (flushTracker exNexus 30 exGaps))"
    using gap_storage_refines [OF st, of 1 max exNexus "exItem 1 0 5 4 True" 30] by auto
  with st e storesD(2) [of s' "fst (flushTracker exNexus 30 exGaps)"] show ?thesis by auto
qed

end
