(* ===== verification/Ingest_Loop.thy ===== *)
theory Ingest_Loop
  imports Committer_Runs
begin

text \<open>
  The goroutines of the committer in small steps (committer\_ingest.go, \<open>startAsyncCommits\<close> of
  send\_commits.go): the ingest loop takes an item off its bounded channel before it waits for
  its ticker and the mutex, then processes items one at a time while the workers go on sending,
  and flushes. Committer has an iteration as one step of an unbounded channel; here the small
  steps are shown to refine it, and the loop to come to rest.
\<close>

section \<open>The loop\<close>

datatype 'a ingest_phase =
    Selecting
  | Holding "'a work_item"
  | Batching time nat
  | Flushing time
  | Returned

type_synonym 'a ingest_state = "'a ingest_phase \<times> 'a committer \<times> 'a message list"

text \<open>The phases in which the ingest goroutine does not have the mutex.\<close>

definition unlocked :: "'a ingest_phase \<Rightarrow> bool" where
  "unlocked ph \<longleftrightarrow> (case ph of Batching now n \<Rightarrow> False | Flushing now \<Rightarrow> False | _ \<Rightarrow> True)"

text \<open>The end of a batch: the flush, and the drained token when the channel is empty.\<close>

definition finishBatch :: "nexus \<Rightarrow> time \<Rightarrow> 'a committer \<Rightarrow> 'a committer" where
  "finishBatch nx now oc =
     (let oc1 = flushGapBuffers nx now oc in if length (commitsIn oc1) = 0 then oc1\<lparr>drained := True\<rparr> else oc1)"

text \<open>
  The steps of the ingest goroutine itself.
\<close>

inductive ingest_step :: "nexus \<Rightarrow> 'a ingest_phase \<times> 'a committer \<Rightarrow> 'a committer_event list \<Rightarrow> 'a ingest_phase \<times> 'a committer \<Rightarrow> bool"
  for nx where
  take_one: "commitsIn oc = w # ws \<Longrightarrow> ingest_step nx (Selecting, oc) [] (Holding w, oc\<lparr>commitsIn := ws\<rparr>)"
| lock: "ingest_step nx (Holding w, oc) [] (Batching now 1, processCommit nx now w oc)"
| more: "n < readBatchSize \<Longrightarrow> commitsIn oc = w # ws \<Longrightarrow>
    ingest_step nx (Batching now n, oc) [] (Batching now (Suc n), processCommit nx now w (oc\<lparr>commitsIn := ws\<rparr>))"
| close: "n = readBatchSize \<or> commitsIn oc = [] \<Longrightarrow> ingest_step nx (Batching now n, oc) [Ingest now] (Flushing now, oc)"
| release: "ingest_step nx (Flushing now, oc) [] (Selecting, finishBatch nx now oc)"

text \<open>
  The other goroutines: a worker sends when the channel has room; ticks of \<open>startAsyncCommits\<close> and
  the calls of a rebalance need the mutex; a drain takes the drained token. Each step carries the
  events of Committer\_Runs it stands for.
\<close>

inductive ingest_world :: "nexus \<Rightarrow> nat \<Rightarrow> 'a ingest_state \<Rightarrow> 'a committer_event list \<Rightarrow> 'a ingest_state \<Rightarrow> bool"
  for nx cap where
  loop: "ingest_step nx (ph, oc) es (ph', oc') \<Longrightarrow> ingest_world nx cap (ph, oc, acks) es (ph', oc', acks)"
| quit: "ingest_world nx cap (Selecting, oc, acks) [] (Returned, oc, acks)"
| send: "length (commitsIn oc) < cap \<Longrightarrow>
    ingest_world nx cap (ph, oc, acks) [Arrive w] (ph, CollectAndCommit w oc, acks)"
| token: "ingest_world nx cap (ph, oc, acks) [] (ph, oc\<lparr>drained := False\<rparr>, acks)"
| tick: "unlocked ph \<Longrightarrow> CommitOffsets nx now broker acq oc = (err, sent, oc') \<Longrightarrow>
    ingest_world nx cap (ph, oc, acks) [Tick now broker acq] (ph, oc', acks @ accepted broker sent)"
| mark_assigned: "unlocked ph \<Longrightarrow>
    ingest_world nx cap (ph, oc, acks) [Assigned now p] (ph, MarkPartitionAssigned now p oc, acks)"
| mark_revoked: "unlocked ph \<Longrightarrow>
    ingest_world nx cap (ph, oc, acks) [Revoked now p] (ph, MarkPartitionRevoked now p oc, acks)"
| reset: "unlocked ph \<Longrightarrow>
    ingest_world nx cap (ph, oc, acks) [ResetTo pbs] (ph, ResetCommittedOffsets nx pbs oc, acks)"

inductive ingest_run :: "nexus \<Rightarrow> nat \<Rightarrow> 'a ingest_state \<Rightarrow> 'a committer_event list \<Rightarrow> 'a ingest_state \<Rightarrow> bool"
  for nx cap s where
  nil: "ingest_run nx cap s [] s"
| step: "ingest_run nx cap s es t \<Longrightarrow> ingest_world nx cap t es' u \<Longrightarrow> ingest_run nx cap s (es @ es') u"

section \<open>What does not depend on the channel\<close>

definition rechannel :: "'a work_item list \<Rightarrow> bool \<Rightarrow> 'a committer \<Rightarrow> 'a committer" where
  "rechannel xs d oc = oc\<lparr>commitsIn := xs, drained := d\<rparr>"

lemma rechannel_simps [simp]:
  "PartitionMap (rechannel xs d oc) = PartitionMap oc" "assigned (rechannel xs d oc) = assigned oc"
  "commitsIn (rechannel xs d oc) = xs" "drained (rechannel xs d oc) = d"
  "rechannel xs d (rechannel ys e oc) = rechannel xs d oc"
  "rechannel (commitsIn oc) (drained oc) oc = oc"
  "rechannel xs d (oc\<lparr>commitsIn := ys\<rparr>) = rechannel xs d oc" "rechannel xs d (oc\<lparr>drained := e\<rparr>) = rechannel xs d oc"
  "(rechannel xs d oc)\<lparr>commitsIn := ys\<rparr> = rechannel ys d oc" "(rechannel xs d oc)\<lparr>drained := e\<rparr> = rechannel xs e oc"
  "(rechannel xs d oc)\<lparr>PartitionMap := pm\<rparr> = rechannel xs d (oc\<lparr>PartitionMap := pm\<rparr>)"
  by (simp_all add: rechannel_def)

lemma rechannel_same [simp]: "xs = commitsIn oc \<Longrightarrow> d = drained oc \<Longrightarrow> rechannel xs d oc = oc"
  by simp

lemma commitsIn_as_rechannel: "oc\<lparr>commitsIn := xs\<rparr> = rechannel xs (drained oc) oc"
  by (simp add: rechannel_def)

lemma collectAll_rechannel [simp]: "collectAll nx ws (rechannel xs d oc) = rechannel xs d (collectAll nx ws oc)"
proof -
  have one: "returnMessageAndCollectMetrics nx w (rechannel xs d oc) = rechannel xs d (returnMessageAndCollectMetrics nx w oc)"
    for w and oc :: "'a committer" by (simp add: returnMessageAndCollectMetrics_def rechannel_def Let_def)
  have "fold (returnMessageAndCollectMetrics nx) ws (rechannel xs d oc) = rechannel xs d (fold (returnMessageAndCollectMetrics nx) ws oc)"
    by (induction ws arbitrary: oc) (simp_all add: one)
  then show ?thesis by (simp add: collectAll_def)
qed

lemma processCommit_rechannel [simp]: "processCommit nx now w (rechannel xs d oc) = rechannel xs d (processCommit nx now w oc)"
  by (simp add: processCommit_def Let_def split: prod.split)

lemma processBatch_rechannel [simp]:
  "fold (processCommit nx now) ws (rechannel xs d oc) = rechannel xs d (fold (processCommit nx now) ws oc)"
  by (induction ws arbitrary: oc) simp_all

lemma flushGapBuffers_rechannel [simp]: "flushGapBuffers nx now (rechannel xs d oc) = rechannel xs d (flushGapBuffers nx now oc)"
  by (simp add: flushGapBuffers_def)

lemma resetPartitions_rechannel: "resetPartitions nx pbs (rechannel xs d oc) = rechannel xs d (resetPartitions nx pbs oc)"
  by (induction pbs arbitrary: oc) (auto simp: Let_def split: prod.split)

lemma marks_rechannel [simp]:
  "MarkPartitionAssigned now p (rechannel xs d oc) = rechannel xs d (MarkPartitionAssigned now p oc)"
  "MarkPartitionRevoked now p (rechannel xs d oc) = rechannel xs d (MarkPartitionRevoked now p oc)"
  "ResetCommittedOffsets nx pbs (rechannel xs d oc) = rechannel xs d (ResetCommittedOffsets nx pbs oc)"
proof -
  show "MarkPartitionAssigned now p (rechannel xs d oc) = rechannel xs d (MarkPartitionAssigned now p oc)"
    by (simp add: MarkPartitionAssigned_def rechannel_def)
  show "MarkPartitionRevoked now p (rechannel xs d oc) = rechannel xs d (MarkPartitionRevoked now p oc)"
    by (cases "map_of (PartitionMap oc) p") (simp_all add: MarkPartitionRevoked_def rechannel_def)
  show "ResetCommittedOffsets nx pbs (rechannel xs d oc) = rechannel xs d (ResetCommittedOffsets nx pbs oc)"
    by (simp add: ResetCommittedOffsets_def resetPartitions_rechannel)
qed

lemma ackCommits_rechannel: "ackCommits nx ms (rechannel xs d oc) = map_option (rechannel xs d) (ackCommits nx ms oc)"
  by (induction ms arbitrary: oc) (auto split: option.split)

lemma gatherState_rechannel: "gatherState nx now (rechannel xs d oc) = map_prod id (rechannel xs d) (gatherState nx now oc)"
  by (simp add: gatherState_def Let_def split: prod.split)

lemma CommitOffsets_rechannel:
  "CommitOffsets nx now broker acq oc = (err, sent, oc') \<Longrightarrow>
   CommitOffsets nx now broker acq (rechannel xs d oc) = (err, sent, rechannel xs d oc')"
  by (auto simp: CommitOffsets_def gatherState_rechannel ackCommits_rechannel split: prod.splits if_splits option.splits)

section \<open>The simulation\<close>

text \<open>
  What Committer's state is while the loop is in a phase: an item the loop holds is still at the
  front of the channel, and so are those of an open batch; a batch that is closed is flushed.
\<close>

fun simulates :: "nexus \<Rightarrow> 'a committer \<Rightarrow> 'a ingest_phase \<Rightarrow> 'a committer \<Rightarrow> bool" where
  "simulates nx c (Holding w) oc = (\<exists>d. c = rechannel (w # commitsIn oc) d oc)"
| "simulates nx c (Batching now n) oc =
     (\<exists>ps. length ps = n \<and> 0 < n \<and> n \<le> readBatchSize \<and> commitsIn c = ps @ commitsIn oc \<and>
        oc = rechannel (commitsIn oc) (drained oc) (fold (processCommit nx now) ps c))"
| "simulates nx c (Flushing now) oc = (\<exists>d. c = rechannel (commitsIn oc) d (flushGapBuffers nx now oc))"
| "simulates nx c _ oc = (\<exists>d. c = rechannel (commitsIn oc) d oc)"

lemma ingest_step_simulates:
  assumes "ingest_step nx (ph, oc) es (ph', oc')" "simulates nx c ph oc"
  shows "\<exists>c'. fold (committerStep nx) es (c, acks) = (c', acks) \<and> simulates nx c' ph' oc'"
  using assms(1)
proof cases
  case (take_one w ws)
  with assms(2) show ?thesis by (auto simp: commitsIn_as_rechannel)
next
  case (lock w now)
  obtain d where "c = rechannel (w # commitsIn oc) d oc" using assms(2) lock by auto
  then have "simulates nx c (Batching now 1) (processCommit nx now w oc)"
    by (auto intro!: exI [of _ "[w]"] simp: readBatchSize_def)
  with lock show ?thesis by simp
next
  case (more n w ws now)
  obtain ps where ps: "length ps = n" "commitsIn c = ps @ commitsIn oc"
    "oc = rechannel (commitsIn oc) (drained oc) (fold (processCommit nx now) ps c)"
    using assms(2) more by auto
  have "processCommit nx now w (oc\<lparr>commitsIn := ws\<rparr>) =
      rechannel ws (drained oc) (fold (processCommit nx now) (ps @ [w]) c)"
    by (subst ps(3)) simp
  then have "simulates nx c (Batching now (Suc n)) (processCommit nx now w (oc\<lparr>commitsIn := ws\<rparr>))"
    using ps(1,2) more by (auto intro!: exI [of _ "ps @ [w]"])
  with more show ?thesis by simp
next
  case (close n now)
  obtain ps where ps: "length ps = n" "0 < n" "n \<le> readBatchSize" "commitsIn c = ps @ commitsIn oc"
    "oc = rechannel (commitsIn oc) (drained oc) (fold (processCommit nx now) ps c)"
    using assms(2) close by auto
  have "take readBatchSize (commitsIn c) = ps" "drop readBatchSize (commitsIn c) = commitsIn oc" "commitsIn c \<noteq> []"
    using close ps by auto
  then have "\<exists>d. ingestBatch nx now c = rechannel (commitsIn oc) d (flushGapBuffers nx now (fold (processCommit nx now) ps c))"
    by (auto simp: ingestBatch_def Let_def commitsIn_as_rechannel)
  moreover have "flushGapBuffers nx now oc = rechannel (commitsIn oc) (drained oc) (flushGapBuffers nx now (fold (processCommit nx now) ps c))"
    by (subst ps(5)) simp
  ultimately have "\<exists>d. ingestBatch nx now c = rechannel (commitsIn oc) d (flushGapBuffers nx now oc)" by auto
  with close show ?thesis by simp
next
  case (release now)
  obtain d where "c = rechannel (commitsIn oc) d (flushGapBuffers nx now oc)" using assms(2) release by auto
  with release show ?thesis by (auto simp: finishBatch_def Let_def)
qed

lemma unlocked_simulates:
  assumes "unlocked ph" "simulates nx c ph oc" "\<And>xs d. f (rechannel xs d oc) = rechannel xs d (f oc)"
    "commitsIn (f oc) = commitsIn oc"
  shows "simulates nx (f c) ph (f oc)"
  using assms by (cases ph) (auto simp: unlocked_def)

lemma CommitOffsets_channel: "CommitOffsets nx now broker acq oc = (err, sent, oc') \<Longrightarrow> commitsIn oc' = commitsIn oc"
  using CommitOffsets_rechannel [of nx now broker acq oc err sent oc' "commitsIn oc" "drained oc"]
  by (metis prod.inject rechannel_simps(3,6))

lemma send_simulates:
  assumes "simulates nx c ph oc"
  shows "simulates nx (CollectAndCommit w c) ph (CollectAndCommit w oc)"
proof -
  have send: "CollectAndCommit w x = rechannel (commitsIn x @ [w]) (drained x) x" for x :: "'a committer"
    by (simp add: CollectAndCommit_def rechannel_def)
  show ?thesis using assms
  proof (cases ph)
    case (Batching now n)
    then obtain ps where ps: "length ps = n" "0 < n" "n \<le> readBatchSize" "commitsIn c = ps @ commitsIn oc"
      "oc = rechannel (commitsIn oc) (drained oc) (fold (processCommit nx now) ps c)"
      using assms by auto
    have "rechannel (commitsIn oc @ [w]) (drained oc) oc =
        rechannel (commitsIn oc @ [w]) (drained oc) (fold (processCommit nx now) ps c)"
      by (subst ps(5)) simp
    with ps Batching show ?thesis by (auto simp: send intro!: exI [of _ ps])
  qed (auto simp: send)
qed

lemma token_simulates:
  assumes "simulates nx c ph oc"
  shows "simulates nx c ph (oc\<lparr>drained := d\<rparr>)"
proof -
  have tok: "oc\<lparr>drained := d\<rparr> = rechannel (commitsIn oc) d oc" by (simp add: rechannel_def)
  show ?thesis
  proof (cases ph)
    case (Batching now n)
    then obtain ps where ps: "length ps = n" "0 < n" "n \<le> readBatchSize" "commitsIn c = ps @ commitsIn oc"
      "oc = rechannel (commitsIn oc) (drained oc) (fold (processCommit nx now) ps c)"
      using assms by auto
    have "rechannel (commitsIn oc) d oc = rechannel (commitsIn oc) d (fold (processCommit nx now) ps c)"
      by (subst ps(5)) simp
    with ps Batching show ?thesis by (auto simp: tok intro!: exI [of _ ps])
  qed (use assms in \<open>auto simp: tok\<close>)
qed

lemma ingest_world_simulates:
  assumes "ingest_world nx cap (ph, oc, acks) es (ph', oc', acks')" "simulates nx c ph oc"
  shows "\<exists>c'. fold (committerStep nx) es (c, acks) = (c', acks') \<and> simulates nx c' ph' oc'"
  using assms(1)
proof cases
  case loop
  then show ?thesis using ingest_step_simulates assms(2) by blast
next
  case (tick now broker acq err sent)
  have u: "unlocked ph" "simulates nx c ph oc" using tick assms(2) by simp_all
  have x: "CommitOffsets nx now broker acq (rechannel xs d oc) = (err, sent, rechannel xs d oc')" for xs d
    using tick(5) CommitOffsets_rechannel by blast
  have "\<exists>c'. CommitOffsets nx now broker acq c = (err, sent, c') \<and> simulates nx c' ph oc'"
    using u x CommitOffsets_channel [OF tick(5)] by (cases ph) (auto simp: unlocked_def)
  with tick show ?thesis by auto
next
  case (mark_assigned now p)
  with unlocked_simulates [OF _ assms(2), of "MarkPartitionAssigned now p"] show ?thesis
    by (simp add: MarkPartitionAssigned_def [of _ _ oc])
next
  case (mark_revoked now p)
  with unlocked_simulates [OF _ assms(2), of "MarkPartitionRevoked now p"] show ?thesis
    by (simp add: MarkPartitionRevoked_def [of _ _ oc])
next
  case (reset pbs)
  have "commitsIn (ResetCommittedOffsets nx pbs oc) = commitsIn oc"
    using marks_rechannel(3) [of nx pbs "commitsIn oc" "drained oc" oc] by (metis rechannel_simps(3,6))
  with reset unlocked_simulates [OF _ assms(2), of "ResetCommittedOffsets nx pbs"] show ?thesis by simp
qed (use assms(2) send_simulates token_simulates in auto)


lemma processCommit_channel [simp]: "commitsIn (processCommit nx now w oc) = commitsIn oc"
  by (simp add: processCommit_def split: prod.split)

lemma world_bounded:
  assumes "ingest_world nx cap (ph, oc, acks) es (ph', oc', acks')" "length (commitsIn oc) \<le> cap"
  shows "length (commitsIn oc') \<le> cap"
  using assms(1)
proof cases
  case loop
  from loop(2) show ?thesis using assms(2) by cases (auto simp: finishBatch_def Let_def)
next
  case (tick now broker acq err sent)
  from CommitOffsets_channel [OF tick(5)] assms(2) show ?thesis by simp
next
  case (reset pbs)
  have "commitsIn (ResetCommittedOffsets nx pbs oc) = commitsIn oc"
    using marks_rechannel(3) [of nx pbs "commitsIn oc" "drained oc" oc] by (metis rechannel_simps(3,6))
  with reset assms(2) show ?thesis by simp
qed (use assms(2) in \<open>auto simp: CollectAndCommit_def MarkPartitionAssigned_def MarkPartitionRevoked_def\<close>)

section \<open>The loop comes to rest\<close>

fun phaseWork :: "'a ingest_phase \<Rightarrow> nat" where
  "phaseWork (Holding w) = 3"
| "phaseWork (Batching now n) = 2"
| "phaseWork (Flushing now) = 1"
| "phaseWork _ = 0"

definition loopWork :: "'a ingest_phase \<times> 'a committer \<Rightarrow> nat" where
  "loopWork s = 4 * length (commitsIn (snd s)) + phaseWork (fst s)"

lemma ingest_step_work: "ingest_step nx s es s' \<Longrightarrow> loopWork s' < loopWork s"
  by (induction rule: ingest_step.induct) (auto simp: loopWork_def finishBatch_def Let_def)

lemma ingest_step_enabled:
  assumes "ph \<noteq> Returned" "ph \<noteq> Selecting \<or> commitsIn oc \<noteq> []" "\<And>now n. ph = Batching now n \<Longrightarrow> n \<le> readBatchSize"
  shows "\<exists>es s'. ingest_step nx (ph, oc) es s'"
proof (cases ph)
  case Selecting
  then obtain w ws where "commitsIn oc = w # ws" using assms(2) by (cases "commitsIn oc") auto
  with Selecting show ?thesis by (blast intro: ingest_step.take_one)
next
  case (Batching now n)
  show ?thesis
  proof (cases "n = readBatchSize \<or> commitsIn oc = []")
    case True
    with Batching show ?thesis by (blast intro: ingest_step.close)
  next
    case False
    then obtain w ws where "commitsIn oc = w # ws" "n < readBatchSize" using assms(3) [OF Batching] by (cases "commitsIn oc") auto
    with Batching show ?thesis by (blast intro: ingest_step.more)
  qed
qed (use assms(1) in \<open>blast intro: ingest_step.lock ingest_step.release\<close>)+

lemma ingest_run_simulates:
  assumes "ingest_run nx cap (Selecting, oc, acks) es (ph, oc', acks')" "length (commitsIn oc) \<le> cap"
  shows "\<exists>c. fold (committerStep nx) es (oc, acks) = (c, acks') \<and> simulates nx c ph oc' \<and> length (commitsIn oc') \<le> cap"
  using assms(1)
proof (induction es "(ph, oc', acks')" arbitrary: ph oc' acks' rule: ingest_run.induct)
  case nil
  have "simulates nx oc Selecting oc" by (auto intro!: exI [of _ "drained oc"])
  with assms(2) show ?case by simp
next
  case (step es t es')
  obtain ph1 oc1 acks1 where t: "t = (ph1, oc1, acks1)" by (metis prod_cases3)
  from step.hyps(2) [OF t] obtain c where c: "fold (committerStep nx) es (oc, acks) = (c, acks1)"
    "simulates nx c ph1 oc1" "length (commitsIn oc1) \<le> cap" by blast
  note w = step.hyps(3) [unfolded t]
  from ingest_world_simulates [OF w c(2)] world_bounded [OF w c(3)] c(1) show ?case by auto
qed

text \<open>
  C15. The committer's goroutines implement its atomic steps: in every interleaving of the ingest
  loop with sending workers, commit ticks and rebalance calls, the run of Committer\_Runs made of
  the same calls, with one ingest step per closed batch, accepts the same commits, and between
  batches reaches the same committer up to the drained token, an item the loop has taken off
  the channel counting as its first. The channel stays within its capacity, and the loop on its
  own takes fewer steps than four times the channel's length plus four and stops only when it
  waits at an empty channel or has returned.
\<close>

theorem ingest_refines:
  assumes "ingest_run nx cap (Selecting, oc, acks) es (ph, oc', acks')" "length (commitsIn oc) \<le> cap"
  shows "(\<exists>c. fold (committerStep nx) es (oc, acks) = (c, acks') \<and> simulates nx c ph oc' \<and>
      (ph = Selecting \<longrightarrow> c\<lparr>drained := drained oc'\<rparr> = oc')) \<and>
    length (commitsIn oc') \<le> cap \<and>
    loopWork (ph, oc') < 4 * length (commitsIn oc') + 4 \<and>
    (\<forall>es s. ingest_step nx (ph, oc') es s \<longrightarrow> loopWork s < loopWork (ph, oc')) \<and>
    ((\<forall>es s. \<not> ingest_step nx (ph, oc') es s) \<longrightarrow> ph = Returned \<or> ph = Selecting \<and> commitsIn oc' = [])"
proof -
  obtain c where c: "fold (committerStep nx) es (oc, acks) = (c, acks')" "simulates nx c ph oc'" "length (commitsIn oc') \<le> cap"
    using ingest_run_simulates [OF assms] by blast
  have idle: "c\<lparr>drained := drained oc'\<rparr> = oc'" if "ph = Selecting" using c(2) that by auto
  have "loopWork (ph, oc') < 4 * length (commitsIn oc') + 4" by (cases ph) (simp_all add: loopWork_def)
  moreover have "ph = Returned \<or> ph = Selecting \<and> commitsIn oc' = []" if "\<forall>es s. \<not> ingest_step nx (ph, oc') es s"
    using ingest_step_enabled [of ph oc' nx] that c(2) by (cases ph) auto
  ultimately show ?thesis using c idle ingest_step_work by blast
qed


section \<open>Runs\<close>

text \<open>A worker sends offset 5 of partition 0, and the ingest loop takes it off the channel.\<close>

abbreviation exFive :: "unit work_item" where
  "exFive \<equiv> exItem 1 0 5 (-1) True"

definition exTaken :: "unit committer" where
  "exTaken = (CollectAndCommit exFive exOwner)\<lparr>commitsIn := []\<rparr>"

definition exIngested :: "unit committer \<Rightarrow> unit committer" where
  "exIngested oc = finishBatch exNexus 30 (processCommit exNexus 30 exFive oc)"

lemma exTaken_run: "ingest_run exNexus 1 (Selecting, exOwner, []) [Arrive exFive] (Holding exFive, exTaken, [])"
proof -
  have e: "commitsIn exOwner = []" by code_simp
  have "ingest_world exNexus 1 (Selecting, exOwner, []) [Arrive exFive] (Selecting, CollectAndCommit exFive exOwner, [])"
    by (rule ingest_world.send) (simp add: e)
  from ingest_run.step [OF ingest_run.nil this]
  have 1: "ingest_run exNexus 1 (Selecting, exOwner, []) [Arrive exFive] (Selecting, CollectAndCommit exFive exOwner, [])" by simp
  have "ingest_step exNexus (Selecting, CollectAndCommit exFive exOwner) [] (Holding exFive, exTaken)"
    unfolding exTaken_def by (rule ingest_step.take_one) (simp add: CollectAndCommit_def e)
  from ingest_run.step [OF 1 ingest_world.loop [OF this]] show ?thesis by simp
qed

lemma exIngested_run:
  assumes "ingest_run exNexus 1 s es (Holding exFive, oc, acks)" "commitsIn oc = []"
  shows "ingest_run exNexus 1 s (es @ [Ingest 30]) (Selecting, exIngested oc, acks)"
proof -
  let ?oc = "processCommit exNexus 30 exFive oc"
  have 1: "ingest_run exNexus 1 s es (Batching 30 1, ?oc, acks)"
    using ingest_run.step [OF assms(1) ingest_world.loop [OF ingest_step.lock]] by simp
  have "ingest_step exNexus (Batching 30 1, ?oc) [Ingest 30] (Flushing 30, ?oc)"
    by (rule ingest_step.close) (simp add: assms(2))
  from ingest_run.step [OF ingest_run.step [OF 1 ingest_world.loop [OF this]] ingest_world.loop [OF ingest_step.release]]
  show ?thesis by (simp add: exIngested_def)
qed

theorem ingest_refines_witness:
  "\<exists>c. fold (committerStep exNexus) [Arrive exFive, Ingest 30] (exOwner, []) = (c, []) \<and>
     c\<lparr>drained := drained (exIngested exTaken)\<rparr> = exIngested exTaken \<and> commitsIn (exIngested exTaken) = []"
proof -
  have e: "commitsIn exOwner = []" by code_simp
  have "ingest_run exNexus 1 (Selecting, exOwner, []) [Arrive exFive, Ingest 30] (Selecting, exIngested exTaken, [])"
    using exIngested_run [OF exTaken_run] by (simp add: exTaken_def)
  from ingest_refines [OF this] e show ?thesis
    by (auto simp: exIngested_def exTaken_def finishBatch_def Let_def)
qed

text \<open>
  A drain that finds the channel empty waits ten milliseconds for the drained token and then only
  passes the mutex. An item the ingest loop has taken but not yet locked for is behind neither:
  the final commit of the drain does not offer it, and the next tick would.
\<close>

lemma drain_misses_taken_item:
  "\<exists>oc oc'. ingest_run exNexus 1 (Selecting, exOwner, []) [Arrive exFive, Tick 20 (\<lambda>_. None) True] (Holding exFive, oc, []) \<and>
     commitsIn oc = [] \<and>
     ingest_run exNexus 1 (Selecting, exOwner, []) [Arrive exFive, Tick 20 (\<lambda>_. None) True, Ingest 30] (Selecting, oc', []) \<and>
     map msg_Offset (fst (snd (CommitOffsets exNexus 40 (\<lambda>_. None) True oc'))) = [5]"
proof -
  let ?oc = "exTaken\<lparr>drained := False\<rparr>"
  define oc where "oc = snd (snd (CommitOffsets exNexus 20 (\<lambda>_. None) True ?oc))"
  have sent: "fst (snd (CommitOffsets exNexus 20 (\<lambda>_. None) True ?oc)) = []" by code_simp
  have tk: "CommitOffsets exNexus 20 (\<lambda>_. None) True ?oc = (fst (CommitOffsets exNexus 20 (\<lambda>_. None) True ?oc), [], oc)"
    by (intro prod_eqI) (simp_all add: oc_def sent)
  have ch: "commitsIn oc = []" unfolding oc_def by code_simp
  have next_tick: "map msg_Offset (fst (snd (CommitOffsets exNexus 40 (\<lambda>_. None) True (exIngested oc)))) = [5]"
    unfolding oc_def by code_simp
  have 1: "ingest_run exNexus 1 (Selecting, exOwner, []) [Arrive exFive] (Holding exFive, ?oc, [])"
    using ingest_run.step [OF exTaken_run ingest_world.token] by simp
  have "ingest_world exNexus 1 (Holding exFive, ?oc, []) [Tick 20 (\<lambda>_. None) True]
      (Holding exFive, oc, [] @ accepted (\<lambda>_. None) [])"
    by (rule ingest_world.tick [OF _ tk]) (simp add: unlocked_def)
  then have 2: "ingest_run exNexus 1 (Selecting, exOwner, []) [Arrive exFive, Tick 20 (\<lambda>_. None) True] (Holding exFive, oc, [])"
    using ingest_run.step [OF 1, of "[Tick 20 (\<lambda>_. None) True]" "(Holding exFive, oc, [])"] by (simp add: accepted_def)
  from exIngested_run [OF 2 ch] 2 ch next_tick show ?thesis
    by (intro exI [of _ oc] exI [of _ "exIngested oc"]) simp
qed

end
