(* ===== verification/Log_Descriptions.thy ===== *)
theory Log_Descriptions
  imports Subscription Go_Strings
begin

text \<open>
  The texts by which a commit batch and a rebalance are logged (\<open>describeCommits\<close> of
  send\_commits.go, \<open>rebalanceTypeName\<close> and \<open>describeRebalanceInfo\<close> of subscription\_rebalance.go),
  with a reference reader: the text of a batch does not depend on the order in which the map
  of partitions was visited, and both texts can be read back.
\<close>

section \<open>The texts\<close>

text \<open>The loop that writes a list with a space before every entry but the first.\<close>

fun writeSpaced :: "bool \<Rightarrow> string list \<Rightarrow> string" where
  "writeSpaced later [] = []"
| "writeSpaced later (x # xs) = (if later then '' '' else []) @ x @ writeSpaced True xs"

definition describeCommits :: "'a message list \<Rightarrow> string" where
  "describeCommits commits =
     (let sorted_commits = sort_key msg_Partition commits
      in ''['' @ writeSpaced False (map (\<lambda>m. ''p'' @ showInt (msg_Partition m) @ '':'' @ showInt (msg_Offset m)) sorted_commits)
           @ '']'')"

definition rebalanceTypeName :: "RebalanceType \<Rightarrow> string" where
  "rebalanceTypeName t =
     (case t of Assign \<Rightarrow> ''assign'' | Revoke \<Rightarrow> ''revoke'' | OtherRebalance k \<Rightarrow> ''type('' @ showInt k @ '')'')"

definition describeRebalanceInfo :: "RebalanceType \<Rightarrow> rebalance_info list \<Rightarrow> string" where
  "describeRebalanceInfo t info =
     showInt (int (length info)) @ '' partition(s) ['' @
     writeSpaced False (map (\<lambda>r. if t = Assign then showInt (ri_Partition r) @ '':'' @ showInt (ri_CommittedOffset r)
       else showInt (ri_Partition r)) info) @ '']''"

section \<open>A reader\<close>

fun splitOn :: "char \<Rightarrow> string \<Rightarrow> string list" where
  "splitOn c [] = [[]]"
| "splitOn c (x # xs) = (if x = c then [] # splitOn c xs else (x # hd (splitOn c xs)) # tl (splitOn c xs))"

definition bracketed :: "string \<Rightarrow> string" where
  "bracketed s = takeWhile (\<lambda>c. c \<noteq> CHR '']'') (tl (dropWhile (\<lambda>c. c \<noteq> CHR ''['') s))"

definition readEntry :: "string \<Rightarrow> (int \<times> int option) option" where
  "readEntry s =
     (case map ParseInt (splitOn (CHR '':'') (dropWhile (\<lambda>c. c = CHR ''p'') s)) of
        [Some a] \<Rightarrow> Some (a, None)
      | [Some a, Some b] \<Rightarrow> Some (a, Some b)
      | _ \<Rightarrow> None)"

definition readEntries :: "string \<Rightarrow> (int \<times> int option) option list" where
  "readEntries s = (if bracketed s = [] then [] else map readEntry (splitOn (CHR '' '') (bracketed s)))"

section \<open>Reading back\<close>

lemma splitOn_no: "c \<notin> set x \<Longrightarrow> splitOn c x = [x]"
  by (induction x) auto

lemma splitOn_sep: "c \<notin> set x \<Longrightarrow> splitOn c (x @ c # y) = x # splitOn c y"
  by (induction x) auto

lemma splitOn_spaced:
  assumes "xs \<noteq> []" "\<And>x. x \<in> set xs \<Longrightarrow> CHR '' '' \<notin> set x"
  shows "splitOn (CHR '' '') (writeSpaced False xs) = xs"
  using assms
proof (induction xs rule: induct_list012)
  case (3 x y zs)
  have "splitOn (CHR '' '') (writeSpaced False (y # zs)) = y # zs" using 3 by simp
  moreover have "writeSpaced False (x # y # zs) = x @ CHR '' '' # writeSpaced False (y # zs)" by simp
  ultimately show ?case using 3(4) splitOn_sep [of "CHR '' ''" x] by simp
qed (simp_all add: splitOn_no)

lemma set_writeSpaced: "set (writeSpaced later xs) \<subseteq> insert (CHR '' '') (\<Union>x \<in> set xs. set x)"
  by (induction later xs rule: writeSpaced.induct) auto

definition digitChar :: "char \<Rightarrow> bool" where
  "digitChar c \<longleftrightarrow> c = CHR ''-'' \<or> (48 \<le> (of_char c :: nat) \<and> (of_char c :: nat) \<le> 57)"

lemma showNat_chars: "c \<in> set (showNat n) \<Longrightarrow> digitChar c"
proof (induction n rule: showNat.induct)
  case (1 n)
  show ?case
  proof (cases "n < 10")
    case True
    with 1(2) show ?thesis by (simp add: showNat.simps [of n] digitChar_def)
  next
    case False
    then have "showNat n = showNat (n div 10) @ [char_of (48 + n mod 10)]" by (simp add: showNat.simps [of n])
    then have "c \<in> set (showNat (n div 10)) \<or> c = char_of (48 + n mod 10)" using 1(2) by (auto simp del: showNat.simps)
    moreover have "n mod 10 \<le> 9" by (simp add: less_Suc_eq_le [symmetric])
    then have "digitChar (char_of (48 + n mod 10))" by (simp add: digitChar_def)
    ultimately show ?thesis using 1(1) [OF False] by blast
  qed
qed

lemma showInt_digits: "c \<in> set (showInt i) \<Longrightarrow> digitChar c"
  using showNat_chars by (auto simp: showInt_def digitChar_def split: if_splits)

lemma showInt_no: "\<not> digitChar c \<Longrightarrow> c \<notin> set (showInt i)"
  using showInt_digits by blast

lemma not_digitChar [simp]:
  "\<not> digitChar (CHR '' '')" "\<not> digitChar (CHR '':'')" "\<not> digitChar (CHR ''['')" "\<not> digitChar (CHR '']'')"
  "\<not> digitChar (CHR ''p'')"
  by (simp_all add: digitChar_def)

definition inInt64 :: "int \<Rightarrow> bool" where
  "inInt64 i \<longleftrightarrow> - (2 ^ 63) \<le> i \<and> i < 2 ^ 63"

lemma dropWhile_p: "dropWhile (\<lambda>c. c = CHR ''p'') (showInt i @ s) = showInt i @ s"
proof -
  obtain c cs where c: "showInt i = c # cs" using showNat_hd by (metis showInt_def)
  have "c \<noteq> CHR ''p''" using showInt_no [of "CHR ''p''" i] c by auto
  with c show ?thesis by simp
qed

lemma readEntry_pair:
  assumes "inInt64 a" "inInt64 b"
  shows "readEntry (showInt a @ CHR '':'' # showInt b) = Some (a, Some b)"
    "readEntry (CHR ''p'' # showInt a @ CHR '':'' # showInt b) = Some (a, Some b)"
  using assms by (simp_all add: readEntry_def dropWhile_p splitOn_sep splitOn_no showInt_no ParseInt_showInt inInt64_def)

lemma readEntry_single: "inInt64 a \<Longrightarrow> readEntry (showInt a) = Some (a, None)"
  using dropWhile_p [of a "[]"] by (simp add: readEntry_def splitOn_no showInt_no ParseInt_showInt inInt64_def)

lemma takeWhile_until: "c \<notin> set x \<Longrightarrow> takeWhile (\<lambda>d. d \<noteq> c) (x @ [c]) = x"
  by (induction x) auto

lemma readEntries_list:
  assumes "CHR ''['' \<notin> set pre" "\<And>x. x \<in> set xs \<Longrightarrow> x \<noteq> [] \<and> CHR '' '' \<notin> set x \<and> CHR '']'' \<notin> set x"
  shows "readEntries (pre @ CHR ''['' # writeSpaced False xs @ '']'') = map readEntry xs"
proof -
  have "CHR '']'' \<notin> set (writeSpaced False xs)" using set_writeSpaced [of False xs] assms(2) by auto
  then have "takeWhile (\<lambda>c. c \<noteq> CHR '']'') (writeSpaced False xs @ '']'') = writeSpaced False xs"
    by (rule takeWhile_until)
  moreover have "dropWhile (\<lambda>c. c \<noteq> CHR ''['') (pre @ CHR ''['' # s) = CHR ''['' # s" for s
    using assms(1) by (induction pre) auto
  ultimately have b: "bracketed (pre @ CHR ''['' # writeSpaced False xs @ '']'') = writeSpaced False xs"
    by (simp add: bracketed_def)
  show ?thesis
  proof (cases xs)
    case (Cons x ys)
    then have "writeSpaced False xs \<noteq> []" using assms(2) by simp
    moreover have "splitOn (CHR '' '') (writeSpaced False xs) = xs" by (rule splitOn_spaced) (use Cons assms(2) in auto)
    ultimately show ?thesis by (simp add: readEntries_def b)
  qed (use b in \<open>simp add: readEntries_def\<close>)
qed

lemma filter_this: "distinct xs \<Longrightarrow> k \<in> set xs \<Longrightarrow> filter (\<lambda>x. x = k) xs = [k]"
  by (induction xs) (auto simp: filter_empty_conv)

lemma describeCommits_order:
  assumes "distinct (map msg_Partition cs)" "mset cs' = mset cs"
  shows "describeCommits cs' = describeCommits cs"
proof -
  have "sort_key msg_Partition cs' = sort_key msg_Partition cs"
  proof (rule properties_for_sort_key)
    show "mset (sort_key msg_Partition cs) = mset cs'" using assms(2) by simp
    show "sorted (map msg_Partition (sort_key msg_Partition cs))" by simp
    fix k assume "k \<in> set (sort_key msg_Partition cs)"
    have inj: "inj_on msg_Partition (set cs)" "distinct cs" using assms(1) distinct_map by blast+
    have d': "distinct cs'" using assms(2) inj(2) mset_eq_imp_distinct_iff by blast
    have s: "set cs' = set cs" using assms(2) by (rule mset_eq_setD)
    have one: "filter (\<lambda>x. msg_Partition k = msg_Partition x) xs = [k]" if "distinct xs" "set xs = set cs" for xs
    proof -
      have "k \<in> set cs" using \<open>k \<in> set (sort_key msg_Partition cs)\<close> by simp
      then have "filter (\<lambda>x. msg_Partition k = msg_Partition x) xs = filter (\<lambda>x. x = k) xs"
        using inj(1) that(2) by (intro filter_cong) (auto dest: inj_onD)
      also have "\<dots> = [k]" using filter_this [OF that(1), of k] that(2) \<open>k \<in> set cs\<close> by simp
      finally show ?thesis .
    qed
    show "filter (\<lambda>x. msg_Partition k = msg_Partition x) (sort_key msg_Partition cs) =
        filter (\<lambda>x. msg_Partition k = msg_Partition x) cs'"
      using one [of "sort_key msg_Partition cs"] one [of cs'] inj(2) d' s by simp
  qed
  then show ?thesis by (simp add: describeCommits_def)
qed


lemma describeCommits_read:
  assumes "\<And>m. m \<in> set cs \<Longrightarrow> inInt64 (msg_Partition m) \<and> inInt64 (msg_Offset m)"
  shows "readEntries (describeCommits cs) =
    map (\<lambda>m. Some (msg_Partition m, Some (msg_Offset m))) (sort_key msg_Partition cs)"
proof -
  let ?e = "\<lambda>m. CHR ''p'' # showInt (msg_Partition m) @ CHR '':'' # showInt (msg_Offset m)"
  have "readEntries ([] @ CHR ''['' # writeSpaced False (map ?e (sort_key msg_Partition cs)) @ '']'') =
      map readEntry (map ?e (sort_key msg_Partition cs))"
    by (rule readEntries_list) (auto simp: showInt_no)
  also have "\<dots> = map (\<lambda>m. Some (msg_Partition m, Some (msg_Offset m))) (sort_key msg_Partition cs)"
    using assms readEntry_pair(2) by auto
  finally show ?thesis by (simp add: describeCommits_def)
qed

lemma showInt_nonempty [simp]: "showInt i \<noteq> []"
  using showNat_hd by (auto simp: showInt_def simp del: showNat.simps) (metis list.distinct(1))

lemma describeRebalanceInfo_read:
  assumes "\<And>r. r \<in> set infos \<Longrightarrow> inInt64 (ri_Partition r) \<and> inInt64 (ri_CommittedOffset r)"
  shows "readEntries (describeRebalanceInfo t infos) =
    map (\<lambda>r. Some (ri_Partition r, if t = Assign then Some (ri_CommittedOffset r) else None)) infos"
proof -
  let ?e = "\<lambda>r. if t = Assign then showInt (ri_Partition r) @ CHR '':'' # showInt (ri_CommittedOffset r) else showInt (ri_Partition r)"
  have "readEntries ((showInt (int (length infos)) @ '' partition(s) '') @ CHR ''['' # writeSpaced False (map ?e infos) @ '']'') =
      map readEntry (map ?e infos)"
    by (rule readEntries_list) (auto simp: showInt_no)
  also have "\<dots> = map (\<lambda>r. Some (ri_Partition r, if t = Assign then Some (ri_CommittedOffset r) else None)) infos"
    using assms readEntry_pair(1) readEntry_single by (cases "t = Assign") auto
  finally show ?thesis by (simp add: describeRebalanceInfo_def cong: if_cong)
qed

text \<open>
  C40. The log describes what happens: the text of a commit batch is the same whatever order
  the map of partitions was visited in, and reading it back gives each partition of the batch with
  its offset, in ascending order of the partitions; the text of a rebalance gives back the
  partitions in the order of the event, with their baselines exactly for an assignment.
\<close>

theorem log_texts_readable:
  assumes "distinct (map msg_Partition cs)" "mset cs' = mset cs"
    "\<forall>m \<in> set cs. inInt64 (msg_Partition m) \<and> inInt64 (msg_Offset m)"
    "\<forall>r \<in> set infos. inInt64 (ri_Partition r) \<and> inInt64 (ri_CommittedOffset r)"
  shows "describeCommits cs' = describeCommits cs \<and>
    readEntries (describeCommits cs) = map (\<lambda>m. Some (msg_Partition m, Some (msg_Offset m))) (sort_key msg_Partition cs) \<and>
    readEntries (describeRebalanceInfo t infos) =
      map (\<lambda>r. Some (ri_Partition r, if t = Assign then Some (ri_CommittedOffset r) else None)) infos"
  using describeCommits_order [OF assms(1,2)] describeCommits_read [of cs] describeRebalanceInfo_read [of infos t] assms(3,4)
  by blast

definition exBatch :: "unit message list" where
  "exBatch = [wi_Message (exItem 1 6 40 39 False), wi_Message (exItem 2 0 5210 5209 False)]"

definition exInfos :: "rebalance_info list" where
  "exInfos = [exInfo 0 5210, exInfo 6 (-1)]"

lemma showNat_steps:
  "n < 10 \<Longrightarrow> showNat n = [char_of (48 + n)]"
  "10 \<le> n \<Longrightarrow> showNat n = showNat (n div 10) @ [char_of (48 + n mod 10)]"
  by (subst showNat.simps, simp)+

lemma exTexts:
  "showInt 5210 = ''5210''" "showInt 40 = ''40''" "showInt 0 = ''0''" "showInt 6 = ''6''" "showInt 2 = ''2''" "showInt (-1) = ''-1''"
  by (simp_all add: showInt_def showNat_steps char_of_def bit_Suc_0_iff)

theorem log_texts_readable_witness:
  "describeCommits (rev exBatch) = ''[p0:5210 p6:40]'' \<and> describeCommits exBatch = ''[p0:5210 p6:40]'' \<and>
   readEntries ''[p0:5210 p6:40]'' = [Some (0, Some 5210), Some (6, Some 40)] \<and>
   describeRebalanceInfo Assign exInfos = ''2 partition(s) [0:5210 6:-1]'' \<and>
   readEntries ''2 partition(s) [0:5210 6:-1]'' = [Some (0, Some 5210), Some (6, Some (-1))]"
proof -
  have e: "describeCommits exBatch = ''[p0:5210 p6:40]''" "describeRebalanceInfo Assign exInfos = ''2 partition(s) [0:5210 6:-1]''"
    by (simp_all add: describeCommits_def describeRebalanceInfo_def exBatch_def exInfos_def exItem_def exInfo_def exTexts)
  have d: "distinct (map msg_Partition exBatch)" by code_simp
  have b: "list_all (\<lambda>m. inInt64 (msg_Partition m) \<and> inInt64 (msg_Offset m)) exBatch"
    "list_all (\<lambda>r. inInt64 (ri_Partition r) \<and> inInt64 (ri_CommittedOffset r)) exInfos" by code_simp+
  have r: "map (\<lambda>m. Some (msg_Partition m, Some (msg_Offset m))) (sort_key msg_Partition exBatch) =
      [Some (0, Some 5210), Some (6, Some 40)]"
    "map (\<lambda>r. Some (ri_Partition r, if Assign = Assign then Some (ri_CommittedOffset r) else None)) exInfos =
      [Some (0, Some 5210), Some (6, Some (-1))]" by code_simp+
  have "mset (rev exBatch) = mset exBatch" by simp
  from log_texts_readable [OF d this b [unfolded list_all_iff], of Assign] e r show ?thesis by metis
qed

end
